(* ===== verification/Dps_Prelude.thy ===== *)
theory Dps_Prelude
  imports Main "HOL-Library.Sublist" "HOL-Library.Word" "HOL-Library.Char_ord"
begin

text \<open>
  Shared vocabulary of the development: C strings, C character classes, the string functions of
  the C library that the sources call, and the lemmas on contiguous sublists that the component
  theories share.

  A NUL-terminated \<^verbatim>\<open>char *\<close> is a \<^typ>\<open>string\<close> without its terminator: the end of the
  list is the NUL the code reads there, so \<^verbatim>\<open>*s == 0\<close> is \<open>s = []\<close> and moving a
  pointer forward is dropping a prefix. A pointer into a string that a library call returns is
  given by the part before it and the part from it on. A NUL-terminated
  \<^verbatim>\<open>dpsunicode_t *\<close> is a list of 32-bit words in the same way. Memory allocation is taken to
  succeed (the \<^verbatim>\<open>DPS_ERROR\<close> returns after a failed \<^verbatim>\<open>DpsMalloc\<close> are not modelled),
  and \<^verbatim>\<open>isalpha\<close>, \<^verbatim>\<open>isspace\<close> and their kin are those of the C locale.
\<close>

unbundle bit_operations_syntax

type_synonym u8 = "8 word"
type_synonym u32 = "32 word"
type_synonym u64 = "64 word"
type_synonym ustring = "u32 list"

named_theorems cstr \<open>facts on the C string functions\<close>
named_theorems nopat \<open>absence of a substring is kept\<close>

section \<open>Character codes and classes\<close>

abbreviation ord :: "char \<Rightarrow> nat" where "ord c \<equiv> of_char c"
abbreviation chr :: "nat \<Rightarrow> char" where "chr n \<equiv> char_of n"

definition c_isdigit :: "char \<Rightarrow> bool" where
  "c_isdigit c \<longleftrightarrow> 48 \<le> ord c \<and> ord c \<le> 57"

definition c_isupper :: "char \<Rightarrow> bool" where
  "c_isupper c \<longleftrightarrow> 65 \<le> ord c \<and> ord c \<le> 90"

definition c_islower :: "char \<Rightarrow> bool" where
  "c_islower c \<longleftrightarrow> 97 \<le> ord c \<and> ord c \<le> 122"

definition c_isalpha :: "char \<Rightarrow> bool" where
  "c_isalpha c \<longleftrightarrow> c_isupper c \<or> c_islower c"

definition c_isalnum :: "char \<Rightarrow> bool" where
  "c_isalnum c \<longleftrightarrow> c_isalpha c \<or> c_isdigit c"

definition c_isxdigit :: "char \<Rightarrow> bool" where
  "c_isxdigit c \<longleftrightarrow> c_isdigit c \<or> (65 \<le> ord c \<and> ord c \<le> 70) \<or> (97 \<le> ord c \<and> ord c \<le> 102)"

definition c_isspace :: "char \<Rightarrow> bool" where
  "c_isspace c \<longleftrightarrow> ord c = 32 \<or> (9 \<le> ord c \<and> ord c \<le> 13)"

lemmas ctype_defs = c_isdigit_def c_isupper_def c_islower_def c_isalpha_def c_isalnum_def
  c_isxdigit_def c_isspace_def

text \<open>The number a run of decimal digits denotes, as \<^verbatim>\<open>atoi\<close> reads it.\<close>

definition digit_val :: "char \<Rightarrow> int" where
  "digit_val c = int (ord c) - 48"

fun digits_val :: "int \<Rightarrow> string \<Rightarrow> int" where
  "digits_val acc [] = acc"
| "digits_val acc (c # s) = digits_val (acc * 10 + digit_val c) s"

definition c_atoi :: "string \<Rightarrow> int" where
  "c_atoi s =
    (let t = dropWhile c_isspace s;
         neg = (t \<noteq> [] \<and> hd t = CHR ''-'');
         u = (if t \<noteq> [] \<and> (hd t = CHR ''-'' \<or> hd t = CHR ''+'') then tl t else t);
         v = digits_val 0 (takeWhile c_isdigit u)
     in if neg then - v else v)"

text \<open>
  \<^verbatim>\<open>strcasecmp (a, b) == 0\<close> and \<^verbatim>\<open>strncasecmp (a, b, n) == 0\<close>; reading a string at a
  position up to its terminator.
\<close>

definition c_tolower :: "char \<Rightarrow> char" where
  "c_tolower c = (if c_isupper c then chr (ord c + 32) else c)"

definition c_strcaseeq :: "string \<Rightarrow> string \<Rightarrow> bool" where
  "c_strcaseeq a b \<longleftrightarrow> map c_tolower a = map c_tolower b"

definition c_strncaseeq :: "string \<Rightarrow> string \<Rightarrow> nat \<Rightarrow> bool" where
  "c_strncaseeq a b n \<longleftrightarrow> map c_tolower (take n a) = map c_tolower (take n b)"

definition char_at :: "string \<Rightarrow> nat \<Rightarrow> char" where
  "char_at s i = (if i < length s then s ! i else CHR 0x00)"

lemma ord_less_256 [simp]: "ord c < 256"
  by (cases c) (simp add: of_char_def horner_sum_simps split: if_splits)

lemma chr_ord [simp]: "chr (ord c) = c"
  by simp

lemma ord_chr [simp]: "n < 256 \<Longrightarrow> ord (chr n) = n"
  by simp

lemma ord_inject [simp]: "ord a = ord b \<longleftrightarrow> a = b"
  by (metis chr_ord)

section \<open>Searching in strings\<close>

text \<open>
  \<^verbatim>\<open>strchr\<close> and \<^verbatim>\<open>strstr\<close> as a split of the string at the place the returned pointer
  names; \<^verbatim>\<open>None\<close> is the NULL result.
\<close>

definition c_strchr :: "string \<Rightarrow> char \<Rightarrow> (string \<times> string) option" where
  "c_strchr s c = (if c \<in> set s then Some (takeWhile (\<lambda>x. x \<noteq> c) s, dropWhile (\<lambda>x. x \<noteq> c) s) else None)"

definition c_strrchr :: "string \<Rightarrow> char \<Rightarrow> (string \<times> string) option" where
  "c_strrchr s c =
    (if c \<in> set s
     then Some (rev (tl (dropWhile (\<lambda>x. x \<noteq> c) (rev s))), c # rev (takeWhile (\<lambda>x. x \<noteq> c) (rev s)))
     else None)"

fun c_strstr :: "string \<Rightarrow> string \<Rightarrow> (string \<times> string) option" where
  "c_strstr [] pat = (if pat = [] then Some ([], []) else None)"
| "c_strstr (c # s) pat =
     (if prefix pat (c # s) then Some ([], c # s)
      else map_option (\<lambda>(a, b). (c # a, b)) (c_strstr s pat))"

lemma c_strchr_Some [cstr]:
  "c_strchr s c = Some (a, b) \<Longrightarrow> s = a @ b \<and> c \<notin> set a \<and> b \<noteq> [] \<and> hd b = c"
  unfolding c_strchr_def
  by (auto split: if_splits dest: set_takeWhileD) (metis (full_types) dropWhile_eq_Nil_conv hd_dropWhile)+

lemma c_strchr_None [cstr]: "c_strchr s c = None \<longleftrightarrow> c \<notin> set s"
  by (simp add: c_strchr_def)

lemma c_strchr_append:
  "c \<notin> set a \<Longrightarrow> c_strchr (a @ c # b) c = Some (a, c # b)"
  by (auto simp: c_strchr_def takeWhile_append dropWhile_append)

lemma c_strrchr_None [cstr]: "c_strrchr s c = None \<longleftrightarrow> c \<notin> set s"
  by (simp add: c_strrchr_def)

lemma c_strrchr_append:
  "c \<notin> set b \<Longrightarrow> c_strrchr (a @ c # b) c = Some (a, c # b)"
  by (auto simp: c_strrchr_def takeWhile_append dropWhile_append)

lemma c_strrchr_Some [cstr]:
  assumes "c_strrchr s c = Some (a, b)"
  shows "s = a @ b \<and> b \<noteq> [] \<and> hd b = c \<and> c \<notin> set (tl b)"
proof -
  from assms have "c \<in> set s"
    by (auto simp: c_strrchr_def split: if_splits)
  then obtain u v where s: "s = u @ c # v" and v: "c \<notin> set v"
    by (metis split_list_last)
  from c_strrchr_append [OF v, of u] assms s show ?thesis
    using v by auto
qed

lemma c_strstr_Some [cstr]:
  "c_strstr s pat = Some (a, b) \<Longrightarrow> s = a @ b \<and> prefix pat b"
  by (induction s arbitrary: a) (auto split: if_splits)

lemma c_strstr_None_iff [cstr]: "c_strstr s pat = None \<longleftrightarrow> \<not> sublist pat s"
  by (induction s) (auto simp: sublist_Cons_right)

lemma c_strstr_length:
  "c_strstr s pat = Some (a, b) \<Longrightarrow> length pat \<le> length b \<and> length a + length b = length s"
  by (auto dest!: c_strstr_Some simp: prefix_length_le)

lemma c_strstr_first:
  "\<not> sublist pat (a @ butlast pat) \<Longrightarrow> pat \<noteq> [] \<Longrightarrow> c_strstr (a @ pat @ r) pat = Some (a, pat @ r)"
proof (induction a)
  case Nil
  then obtain x xs where "pat = x # xs" by (cases pat) auto
  then show ?case by simp
next
  case (Cons c a)
  have np: "\<not> prefix pat ((c # a) @ pat @ r)"
  proof
    assume "prefix pat ((c # a) @ pat @ r)"
    then have "prefix pat (((c # a) @ butlast pat) @ (last pat # r))"
      using Cons.prems(2) by simp (metis append.assoc append_Cons append_Nil append_butlast_last_id)
    then have "prefix pat ((c # a) @ butlast pat)"
      by (rule prefix_length_prefix) (auto simp: prefixI)
    with Cons.prems(1) show False by (metis prefix_imp_sublist)
  qed
  have "\<not> sublist pat (a @ butlast pat)"
    using Cons.prems(1) by (auto simp: sublist_Cons_right)
  with Cons.IH Cons.prems(2) np show ?case by simp
qed

section \<open>Contiguous sublists and single-character joints\<close>

lemma sublist_snoc_Cons_split:
  assumes "sublist p (a @ c # b)" and "c \<notin> set (butlast (tl p))"
  shows "sublist p (a @ [c]) \<or> sublist p (c # b)"
proof -
  from assms(1) obtain x y where xy: "a @ c # b = x @ p @ y"
    by (auto simp: sublist_def)
  show ?thesis
  proof (cases "length x \<ge> length a")
    case True
    then obtain x' where "x = a @ x'"
      using xy by (metis append_eq_append_conv_if append_take_drop_id)
    with xy have "c # b = x' @ p @ y" by simp
    then show ?thesis by (metis sublist_def)
  next
    case False
    then obtain a' where a: "a = x @ a'" and a': "a' \<noteq> []"
      using xy by (metis append_eq_append_conv2 append_Nil2 le_refl length_append linorder_le_cases
          nat_le_linear trans_le_add1)
    with xy have q: "a' @ c # b = p @ y" by simp
    show ?thesis
    proof (cases "length p \<le> length (a' @ [c])")
      case True
      then have "prefix p (a' @ [c])"
        using q by (metis append.assoc append_Cons append_Nil prefix_length_prefix prefixI)
      then show ?thesis
        using a by (metis append.assoc prefix_imp_sublist sublist_appendI sublist_order.order.trans
            suffixI suffix_imp_sublist)
    next
      case False
      then have "length a' < length p" by simp
      moreover have "p ! length a' = c"
        using q False by (metis calculation nth_append nth_append_length)
      ultimately have "tl p ! (length a' - 1) = c"
        using a' by (metis Nitpick.size_list_simp(2) One_nat_def Suc_pred length_greater_0_conv
            list.collapse list.size(3) not_less_zero nth_Cons_Suc)
      moreover have "length a' - 1 < length (butlast (tl p))"
        using False a' by (cases a') auto
      ultimately have "c \<in> set (butlast (tl p))"
        by (metis nth_butlast nth_mem)
      with assms(2) show ?thesis by simp
    qed
  qed
qed

lemma sublist_avoiding_split:
  assumes "sublist p (a @ c # b)" and "c \<notin> set p"
  shows "sublist p a \<or> sublist p b"
proof -
  from assms(1) obtain x y where xy: "a @ c # b = x @ p @ y"
    by (auto simp: sublist_def)
  then obtain us where "(a = x @ us \<and> us @ c # b = p @ y) \<or> (a @ us = x \<and> c # b = us @ p @ y)"
    by (auto simp: append_eq_append_conv2)
  then show ?thesis
  proof (elim disjE conjE)
    assume a: "a = x @ us" and e: "us @ c # b = p @ y"
    from e obtain vs where "(us = p @ vs \<and> vs @ c # b = y) \<or> (us @ vs = p \<and> c # b = vs @ y)"
      by (auto simp: append_eq_append_conv2)
    then show ?thesis
    proof (elim disjE conjE)
      assume "us = p @ vs"
      with a have "a = x @ p @ vs" by simp
      then show ?thesis by (metis sublist_def)
    next
      assume p: "us @ vs = p" and v: "c # b = vs @ y"
      with assms(2) have "vs = []" by (cases vs) auto
      with p a have "a = x @ p @ []" by simp
      then show ?thesis by (metis sublist_def)
    qed
  next
    assume "a @ us = x" and e: "c # b = us @ p @ y"
    show ?thesis
    proof (cases us)
      case Nil
      with e assms(2) have "p = []" by (cases p) auto
      then show ?thesis by simp
    next
      case (Cons u us')
      with e have "b = us' @ p @ y" by simp
      then show ?thesis by (metis sublist_def)
    qed
  qed
qed

end
