(* ===== verification/Dps_Chars.thy ===== *)
theory Dps_Chars
  imports Dps_Prelude
begin

text \<open>
  Lower-casing: \<^verbatim>\<open>DpsUniToLower\<close> of \<^verbatim>\<open>unidata.c\<close> over the generated Unicode planes, and
  \<^verbatim>\<open>dps_tolower\<close>, \<^verbatim>\<open>dps_strtolower\<close> and \<^verbatim>\<open>DpsUniNSpace\<close> of
  \<^verbatim>\<open>charset-utils.c\<close>.

  The plane tables of \<^verbatim>\<open>unidata.ch\<close> are generated Unicode data. The first 128 entries of
  plane 0, on which the ASCII behaviour rests, are transcribed (\<open>plane00\<close>); the other planes are
  a parameter \<open>planes\<close> of the definitions that use them: \<open>planes p\<close> is \<^const>\<open>None\<close> when
  \<^verbatim>\<open>dps_uni_plane[p].table\<close> is NULL and otherwise the table, an entry being the pair
  (\<^verbatim>\<open>tolower\<close>, \<^verbatim>\<open>ctype\<close>).
\<close>

type_synonym uni_planes = "nat \<Rightarrow> (nat \<Rightarrow> u32 \<times> nat) option"

definition plane00 :: "(nat \<times> nat) list" where
  "plane00 =
   [(0x00,26), (0x01,26), (0x02,26), (0x03,26), (0x04,26), (0x05,26), (0x06,26), (0x07,26),
    (0x08,26), (0x09,26), (0x0A,26), (0x0B,26), (0x0C,26), (0x0D,26), (0x0E,26), (0x0F,26),
    (0x10,26), (0x11,26), (0x12,26), (0x13,26), (0x14,26), (0x15,26), (0x16,26), (0x17,26),
    (0x18,26), (0x19,26), (0x1A,26), (0x1B,26), (0x1C,26), (0x1D,26), (0x1E,26), (0x1F,26),
    (0x20,16), (0x21,25), (0x22,25), (0x23,25), (0x24, 7), (0x25,25), (0x26,25), (0x27,25),
    (0x28,21), (0x29,22), (0x2A,25), (0x2B, 6), (0x2C,25), (0x2D,20), (0x2E,25), (0x2F,25),
    (0x30,10), (0x31,10), (0x32,10), (0x33,10), (0x34,10), (0x35,10), (0x36,10), (0x37,10),
    (0x38,10), (0x39,10), (0x3A,25), (0x3B,25), (0x3C, 6), (0x3D, 6), (0x3E, 6), (0x3F,25),
    (0x40,25), (0x61, 1), (0x62, 1), (0x63, 1), (0x64, 1), (0x65, 1), (0x66, 1), (0x67, 1),
    (0x68, 1), (0x69, 1), (0x6A, 1), (0x6B, 1), (0x6C, 1), (0x6D, 1), (0x6E, 1), (0x6F, 1),
    (0x70, 1), (0x71, 1), (0x72, 1), (0x73, 1), (0x74, 1), (0x75, 1), (0x76, 1), (0x77, 1),
    (0x78, 1), (0x79, 1), (0x7A, 1), (0x5B,21), (0x5C,25), (0x5D,22), (0x5E, 8), (0x5F,19),
    (0x60, 8), (0x61, 2), (0x62, 2), (0x63, 2), (0x64, 2), (0x65, 2), (0x66, 2), (0x67, 2),
    (0x68, 2), (0x69, 2), (0x6A, 2), (0x6B, 2), (0x6C, 2), (0x6D, 2), (0x6E, 2), (0x6F, 2),
    (0x70, 2), (0x71, 2), (0x72, 2), (0x73, 2), (0x74, 2), (0x75, 2), (0x76, 2), (0x77, 2),
    (0x78, 2), (0x79, 2), (0x7A, 2), (0x7B,21), (0x7C, 6), (0x7D,22), (0x7E, 6), (0x7F,26)]"

definition DpsUniToLower :: "uni_planes \<Rightarrow> u32 \<Rightarrow> u32" where
  "DpsUniToLower planes uni =
    (let plane = unat ((drop_bit 8 uni) AND 0xFF) in
     case planes plane of
       Some table \<Rightarrow> fst (table (unat (uni AND 0xFF)))
     | None \<Rightarrow> uni)"

fun DpsUniStrToLower :: "uni_planes \<Rightarrow> ustring \<Rightarrow> ustring" where
  "DpsUniStrToLower planes [] = []"
| "DpsUniStrToLower planes (u # us) =
    (let plane = unat ((drop_bit 8 u) AND 0xFF) in
     (case planes plane of
        Some table \<Rightarrow> fst (table (unat (u AND 0xFF)))
      | None \<Rightarrow> u)) # DpsUniStrToLower planes us"

text \<open>
  \<^verbatim>\<open>dps_tolower\<close> on a \<^verbatim>\<open>char\<close>, as its callers use it (the result cast back to
  \<^verbatim>\<open>char\<close>, or compared with another result): below 128 the plane-0 table decides. Bytes from
  128 on keep their value: as \<^verbatim>\<open>unsigned char\<close> they go to the C library's
  \<^verbatim>\<open>tolower\<close>, the identity there in the C locale, and as negative \<^verbatim>\<open>char\<close> they go to
  the upper half of plane FF, which has no upper-case letter.
\<close>

definition dps_tolower :: "char \<Rightarrow> char" where
  "dps_tolower c = (if ord c < 0x80 then chr (fst (plane00 ! ord c)) else c)"

fun dps_strtolower :: "string \<Rightarrow> string" where
  "dps_strtolower [] = []"
| "dps_strtolower (c # s) = dps_tolower c # dps_strtolower s"

definition DpsUniNSpace :: "u32 \<Rightarrow> bool" where
  "DpsUniNSpace c =
    (if c = 0x303F then False
     else if c = 0xFEFF then False
     else if c AND 0xCB50 \<noteq> 0 then True
     else if c = 0x0009 then False
     else if c = 0x000A then False
     else if c = 0x000D then False
     else if c = 0x0020 then False
     else if c = 0x00A0 then False
     else if c = 0x1680 then False
     else if 0x2000 \<le> c \<and> c \<le> 0x200B then False
     else if c = 0x202F then False
     else if c = 0x2420 then False
     else if c = 0x3000 then False
     else True)"

section \<open>ASCII lower-casing\<close>

lemma plane00_length: "length plane00 = 128"
  by (simp add: plane00_def)

lemma plane00_lower_table:
  "list_all (\<lambda>n. fst (plane00 ! n) = (if 65 \<le> n \<and> n \<le> 90 then n + 32 else n)) [0..<128]"
  by (simp add: plane00_def upt_rec [of _ "numeral _"] upt_rec [of 0])

lemma plane00_lower:
  "n < 128 \<Longrightarrow> fst (plane00 ! n) = (if 65 \<le> n \<and> n \<le> 90 then n + 32 else n)"
  using plane00_lower_table by (simp add: list_all_iff)

lemma ord_dps_tolower:
  "ord (dps_tolower c) = (if c_isupper c then ord c + 32 else ord c)"
  by (auto simp: dps_tolower_def plane00_lower c_isupper_def)

lemma dps_tolower_idem [simp]: "dps_tolower (dps_tolower c) = dps_tolower c"
proof -
  have "ord (dps_tolower (dps_tolower c)) = ord (dps_tolower c)"
    by (auto simp: ord_dps_tolower c_isupper_def)
  then show ?thesis by simp
qed

lemma dps_tolower_id: "\<not> c_isupper c \<Longrightarrow> dps_tolower c = c"
  by (metis ord_dps_tolower ord_inject)

lemma dps_strtolower_map: "dps_strtolower s = map dps_tolower s"
  by (induction s) auto

lemma DpsUniStrToLower_map: "DpsUniStrToLower planes us = map (DpsUniToLower planes) us"
  by (induction us) (auto simp: DpsUniToLower_def Let_def)

lemma dps_tolower_islower: "c_isupper c \<Longrightarrow> c_islower (dps_tolower c)"
  by (simp add: c_islower_def ord_dps_tolower) (simp add: c_isupper_def)

lemma dps_tolower_eq_iff:
  "\<not> c_islower d \<Longrightarrow> \<not> c_isupper d \<Longrightarrow> dps_tolower c = d \<longleftrightarrow> c = d"
  by (metis dps_tolower_id dps_tolower_islower)

end
