(* ===== verification/Dps_Wild.thy ===== *)
theory Dps_Wild
  imports Dps_Chars
begin

text \<open>
  The wildcard matcher of \<^verbatim>\<open>src/wild.c\<close>. Its four functions are one loop over the string and
  the pattern that differ in the unit (\<^verbatim>\<open>char\<close> or \<^verbatim>\<open>dpsunicode_t\<close>), in how two units
  are compared, and in whether a backslash escapes. The loop is \<open>wild_cmp\<close>, its inner
  \<^verbatim>\<open>while (str[x])\<close> over the suffixes of the string \<open>wild_star\<close>; a call receives
  \<^verbatim>\<open>&str[x]\<close> and \<^verbatim>\<open>&wexp[y]\<close>. \<open>lit\<close> gives the unit of a character constant.
\<close>

section \<open>The loop\<close>

function (sequential)
  wild_cmp :: "(char \<Rightarrow> 'c) \<Rightarrow> ('c \<Rightarrow> 'c \<Rightarrow> bool) \<Rightarrow> bool \<Rightarrow> 'c list \<Rightarrow> 'c list \<Rightarrow> int" and
  wild_star :: "(char \<Rightarrow> 'c) \<Rightarrow> ('c \<Rightarrow> 'c \<Rightarrow> bool) \<Rightarrow> bool \<Rightarrow> 'c list \<Rightarrow> 'c list \<Rightarrow> int"
where
  "wild_cmp lit eq esc (c # str) (p # wexp) =
     (if p = lit (CHR ''*'') then
        (let wexp' = dropWhile (\<lambda>q. q = lit (CHR ''*'')) wexp in
         if wexp' = [] then 0 else wild_star lit eq esc (c # str) wexp')
      else if p = lit (CHR ''?'') then wild_cmp lit eq esc str wexp
      else if esc \<and> p = lit (CHR 0x5C) then
        (case wexp of
           [] \<Rightarrow> 1
         | q # wexp' \<Rightarrow> if \<not> eq c q then 1 else wild_cmp lit eq esc str wexp')
      else if \<not> eq c p then 1
      else wild_cmp lit eq esc str wexp)"
| "wild_cmp lit eq esc (c # str) [] = 1"
| "wild_cmp lit eq esc [] wexp =
     (let wexp' = dropWhile (\<lambda>q. q = lit (CHR ''*'')) wexp in
      if wexp' = [] \<or> hd wexp' = lit (CHR ''$'') then 0 else - 1)"
| "wild_star lit eq esc [] wexp = - 1"
| "wild_star lit eq esc (c # str) wexp =
     (let ret = wild_cmp lit eq esc (c # str) wexp in
      if ret \<noteq> 1 then ret else wild_star lit eq esc str wexp)"
  by pat_completeness auto
termination
  by (relation "measures
        [\<lambda>x. case x of Inl (_, _, _, s, w) \<Rightarrow> length w | Inr (_, _, _, s, w) \<Rightarrow> length w,
         \<lambda>x. case x of Inl (_, _, _, s, w) \<Rightarrow> length s | Inr (_, _, _, s, w) \<Rightarrow> length s,
         \<lambda>x. case x of Inl _ \<Rightarrow> 0 | Inr _ \<Rightarrow> 1]")
     (auto simp: le_imp_less_Suc length_dropWhile_le)

definition DpsWildCmp :: "string \<Rightarrow> string \<Rightarrow> int" where
  "DpsWildCmp str wexp = wild_cmp (\<lambda>c. c) (=) True str wexp"

definition DpsWildCaseCmp :: "string \<Rightarrow> string \<Rightarrow> int" where
  "DpsWildCaseCmp str wexp =
     wild_cmp (\<lambda>c. c) (\<lambda>a b. dps_tolower a = dps_tolower b) True str wexp"

definition uni_lit :: "char \<Rightarrow> u32" where
  "uni_lit c = of_char c"

definition DpsUniWildCmp :: "ustring \<Rightarrow> ustring \<Rightarrow> int" where
  "DpsUniWildCmp str wexp = wild_cmp uni_lit (=) False str wexp"

text \<open>
  \<^verbatim>\<open>dps_tolower\<close> on a code point, taken as an \<^verbatim>\<open>int\<close>: below 128, negative ones included, the
  Unicode planes decide, from 128 on the C library's \<^verbatim>\<open>tolower\<close>, a parameter (outside
  \<^verbatim>\<open>unsigned char\<close> the C standard leaves it undefined).
\<close>

definition dps_tolower_code :: "uni_planes \<Rightarrow> (u32 \<Rightarrow> u32) \<Rightarrow> u32 \<Rightarrow> u32" where
  "dps_tolower_code planes libc_tolower c =
     (if sint c < 0x80 then DpsUniToLower planes c else libc_tolower c)"

definition DpsUniWildCaseCmp :: "uni_planes \<Rightarrow> (u32 \<Rightarrow> u32) \<Rightarrow> ustring \<Rightarrow> ustring \<Rightarrow> int" where
  "DpsUniWildCaseCmp planes libc_tolower str wexp =
     wild_cmp uni_lit (\<lambda>a b. dps_tolower_code planes libc_tolower a = dps_tolower_code planes libc_tolower b)
       False str wexp"

section \<open>What a pattern means\<close>

text \<open>
  The language of a pattern, without reference to the loop: \<open>*\<close> is any string, \<open>?\<close> any one
  unit, a backslash makes the next unit literal (and a pattern that ends in one matches nothing).
\<close>

fun glob :: "(char \<Rightarrow> 'c) \<Rightarrow> ('c \<Rightarrow> 'c \<Rightarrow> bool) \<Rightarrow> bool \<Rightarrow> 'c list \<Rightarrow> 'c list \<Rightarrow> bool" where
  "glob lit eq esc [] s \<longleftrightarrow> s = []"
| "glob lit eq esc (p # w) s \<longleftrightarrow>
     (if p = lit (CHR ''*'') then (\<exists>t. suffix t s \<and> glob lit eq esc w t)
      else if p = lit (CHR ''?'') then s \<noteq> [] \<and> glob lit eq esc w (tl s)
      else if esc \<and> p = lit (CHR 0x5C) then
        (case w of [] \<Rightarrow> False | q # w' \<Rightarrow> s \<noteq> [] \<and> eq (hd s) q \<and> glob lit eq esc w' (tl s))
      else s \<noteq> [] \<and> eq (hd s) p \<and> glob lit eq esc w (tl s))"

lemma glob_dropWhile_star:
  "(\<exists>t. suffix t s \<and> glob lit eq esc (dropWhile (\<lambda>q. q = lit (CHR ''*'')) w) t)
     \<longleftrightarrow> (\<exists>t. suffix t s \<and> glob lit eq esc w t)"
  by (induction w arbitrary: s)
     (auto, (meson suffix_order.order_refl suffix_order.order_trans)+)

lemma glob_Nil_nonstar:
  "w \<noteq> [] \<Longrightarrow> hd w \<noteq> lit (CHR ''*'') \<Longrightarrow> \<not> glob lit eq esc w []"
  by (cases w) (auto split: list.splits)

lemma glob_Nil:
  "glob lit eq esc w [] \<longleftrightarrow> dropWhile (\<lambda>q. q = lit (CHR ''*'')) w = []"
  by (induction w) (auto split: list.splits)

lemma suffix_tl_of: "suffix t s \<Longrightarrow> suffix (tl t) s"
  by (meson suffix_order.order_trans suffix_tl)

lemma wild_range:
  "wild_cmp lit eq esc s w \<in> {0, 1, - 1}"
  "wild_star lit eq esc s w \<in> {0, 1, - 1}"
  by (induction lit eq esc s w and lit eq esc s w rule: wild_cmp_wild_star.induct)
     (auto simp: Let_def split: list.splits)

text \<open>
  The invariant of the loop: 0 exactly when the string is in the pattern's language, and -1 (the
  value that also stops the callers' searches over suffixes) only when no suffix is.
\<close>

lemma wild_correct:
  "lit (CHR ''$'') \<notin> set w \<Longrightarrow>
     (wild_cmp lit eq esc s w = 0 \<longleftrightarrow> glob lit eq esc w s) \<and>
     (wild_cmp lit eq esc s w = - 1 \<longrightarrow> (\<forall>t. suffix t s \<longrightarrow> \<not> glob lit eq esc w t))"
  "lit (CHR ''$'') \<notin> set w \<Longrightarrow> w \<noteq> [] \<Longrightarrow> hd w \<noteq> lit (CHR ''*'') \<Longrightarrow>
     (wild_star lit eq esc s w = 0 \<longleftrightarrow> (\<exists>t. suffix t s \<and> glob lit eq esc w t)) \<and>
     wild_star lit eq esc s w \<noteq> 1"
proof (induction lit eq esc s w and lit eq esc s w rule: wild_cmp_wild_star.induct)
  case (1 lit eq esc c str p wexp)
  let ?w' = "dropWhile (\<lambda>q. q = lit (CHR ''*'')) wexp"
  consider (star) "p = lit (CHR ''*'')" | (any) "p \<noteq> lit (CHR ''*'')" "p = lit (CHR ''?'')"
    | (esc) "p \<noteq> lit (CHR ''*'')" "p \<noteq> lit (CHR ''?'')" "esc" "p = lit (CHR 0x5C)"
    | (plain) "p \<noteq> lit (CHR ''*'')" "p \<noteq> lit (CHR ''?'')" "\<not> (esc \<and> p = lit (CHR 0x5C))"
    by blast
  then show ?case
  proof cases
    case star
    show ?thesis
    proof (cases "?w' = []")
      case True
      then have "\<exists>t. suffix t (c # str) \<and> glob lit eq esc ?w' t"
        using True by (intro exI [of _ "[]"]) (simp del: dropWhile_eq_Nil_conv)
      then have "glob lit eq esc (p # wexp) (c # str)"
        using star glob_dropWhile_star [of "c # str" lit eq esc wexp] by simp
      with star True show ?thesis by (simp add: Let_def)
    next
      case False
      have "set ?w' \<subseteq> set wexp" by (auto dest: set_dropWhileD)
      then have d: "lit (CHR ''$'') \<notin> set ?w'" using 1(5) by auto
      have h: "hd ?w' \<noteq> lit (CHR ''*'')"
        using False by (metis (full_types) hd_dropWhile)
      have g: "glob lit eq esc (p # wexp) t \<longleftrightarrow> (\<exists>u. suffix u t \<and> glob lit eq esc ?w' u)" for t
        using star glob_dropWhile_star [of t lit eq esc wexp] by simp
      have "wild_cmp lit eq esc (c # str) (p # wexp) = wild_star lit eq esc (c # str) ?w'"
        using star False by (simp add: Let_def del: dropWhile_eq_Nil_conv wild_star.simps)
      moreover have z: "wild_star lit eq esc (c # str) ?w' = 0 \<longleftrightarrow>
            (\<exists>t. suffix t (c # str) \<and> glob lit eq esc ?w' t)"
        using 1(1) [OF star refl False d False h] by (rule conjunct1)
      moreover have "\<not> glob lit eq esc (p # wexp) t"
        if "wild_star lit eq esc (c # str) ?w' = - 1" and "suffix t (c # str)" for t
      proof -
        from that(1) z have "\<forall>u. suffix u (c # str) \<longrightarrow> \<not> glob lit eq esc ?w' u" by auto
        then show ?thesis
          unfolding g using that(2) suffix_order.order_trans by blast
      qed
      ultimately show ?thesis unfolding g by simp
    qed
  next
    case any
    then show ?thesis
      using 1(2) [OF any] 1(5) by (auto simp: suffix_Cons dest: suffix_tl_of)
  next
    case esc
    show ?thesis
    proof (cases wexp)
      case Nil
      with esc show ?thesis by (auto split: list.splits)
    next
      case (Cons q w'')
      with esc show ?thesis
        using 1(3) [OF esc(1,2) conjI [OF esc(3,4)] Cons] 1(5)
        by (cases "eq c q") (auto simp: suffix_Cons dest: suffix_tl_of)
    qed
  next
    case plain
    then show ?thesis
      using 1(4) [OF plain] 1(5) by (cases "eq c p") (auto simp: suffix_Cons dest: suffix_tl_of)
  qed
next
  case (3 lit eq esc wexp)
  have "hd (dropWhile (\<lambda>q. q = lit (CHR ''*'')) wexp) \<noteq> lit (CHR ''$'')"
    if "dropWhile (\<lambda>q. q = lit (CHR ''*'')) wexp \<noteq> []"
    using that 3 by (metis hd_in_set set_dropWhileD)
  then show ?case by (auto simp: Let_def glob_Nil)
next
  case (4 lit eq esc wexp)
  then show ?case by (auto simp: glob_Nil_nonstar)
next
  case (5 lit eq esc c str wexp)
  then show ?case
    using wild_range(1) [of lit eq esc "c # str" wexp]
    by (auto simp: Let_def suffix_Cons)
qed auto

section \<open>Case-insensitive matching is matching of the lower-cased strings\<close>

definition keeps_wild :: "(char \<Rightarrow> 'c) \<Rightarrow> ('c \<Rightarrow> 'c) \<Rightarrow> bool" where
  "keeps_wild lit f \<longleftrightarrow>
     (\<forall>x \<in> {CHR ''*'', CHR ''?'', CHR 0x5C, CHR ''$''}. \<forall>p. f p = lit x \<longleftrightarrow> p = lit x)"

lemma keeps_wildD:
  assumes "keeps_wild lit f"
  shows "f p = lit (CHR ''*'') \<longleftrightarrow> p = lit (CHR ''*'')" "f p = lit (CHR ''?'') \<longleftrightarrow> p = lit (CHR ''?'')"
    "f p = lit (CHR 0x5C) \<longleftrightarrow> p = lit (CHR 0x5C)" "f p = lit (CHR ''$'') \<longleftrightarrow> p = lit (CHR ''$'')"
  using assms by (auto simp: keeps_wild_def)

lemma dropWhile_map_keeps:
  "keeps_wild lit f \<Longrightarrow>
     dropWhile (\<lambda>q. q = lit (CHR ''*'')) (map f w) = map f (dropWhile (\<lambda>q. q = lit (CHR ''*'')) w)"
  by (simp add: dropWhile_map comp_def keeps_wildD)

lemma wild_map:
  "keeps_wild lit f \<Longrightarrow> (\<And>a b. eq a b \<longleftrightarrow> f a = f b) \<Longrightarrow>
     wild_cmp lit eq esc s w = wild_cmp lit (=) esc (map f s) (map f w)"
  "keeps_wild lit f \<Longrightarrow> (\<And>a b. eq a b \<longleftrightarrow> f a = f b) \<Longrightarrow>
     wild_star lit eq esc s w = wild_star lit (=) esc (map f s) (map f w)"
proof (induction lit eq esc s w and lit eq esc s w rule: wild_cmp_wild_star.induct)
  case (1 lit eq esc c str p wexp)
  note k = keeps_wildD [OF 1(5)] dropWhile_map_keeps [OF 1(5)]
  consider (star) "p = lit (CHR ''*'')" | (any) "p \<noteq> lit (CHR ''*'')" "p = lit (CHR ''?'')"
    | (esc) "p \<noteq> lit (CHR ''*'')" "p \<noteq> lit (CHR ''?'')" "esc" "p = lit (CHR 0x5C)"
    | (plain) "p \<noteq> lit (CHR ''*'')" "p \<noteq> lit (CHR ''?'')" "\<not> (esc \<and> p = lit (CHR 0x5C))"
    by blast
  then show ?case
  proof cases
    case star
    then have "f p = lit (CHR ''*'')" by (simp add: k)
    with star show ?thesis
      using 1(1) [OF star refl _ 1(5,6)]
      by (simp add: Let_def k del: dropWhile_eq_Nil_conv wild_star.simps)
  next
    case any
    then have "f p = lit (CHR ''?'')" "f p \<noteq> lit (CHR ''*'')" by (simp_all add: k)
    with any show ?thesis using 1(2) [OF any 1(5,6)] by simp
  next
    case esc
    then have "f p = lit (CHR 0x5C)" "f p \<noteq> lit (CHR ''*'')" "f p \<noteq> lit (CHR ''?'')"
      by (simp_all add: k)
    with esc show ?thesis
      using 1(3) [OF esc(1,2) conjI [OF esc(3,4)] _ _ 1(5,6)] 1(6) by (cases wexp) auto
  next
    case plain
    then have "f p \<noteq> lit (CHR ''*'')" "f p \<noteq> lit (CHR ''?'')" "\<not> (esc \<and> f p = lit (CHR 0x5C))"
      by (simp_all add: k)
    with plain show ?thesis using 1(4) [OF plain _ 1(5,6)] 1(6) by auto
  qed
next
  case (3 lit eq esc wexp)
  have "hd (map f v) = lit (CHR ''$'') \<longleftrightarrow> hd v = lit (CHR ''$'')" if "v \<noteq> []" for v
    using that keeps_wildD [OF 3(1)] by (cases v) auto
  then show ?case
    by (auto simp: Let_def dropWhile_map_keeps [OF 3(1)] simp del: dropWhile_eq_Nil_conv)
qed (auto simp: Let_def)

lemma keeps_wild_tolower: "keeps_wild (\<lambda>c. c) dps_tolower"
  by (auto simp: keeps_wild_def dps_tolower_eq_iff ctype_defs)

section \<open>Properties\<close>

text \<open>
  C21. A pattern without the end anchor \<open>$\<close> matches exactly the strings of its language: the
  loop, which gives up its search over suffixes as soon as one attempt reports that the string ran
  out, loses no match and invents none.
\<close>

theorem DpsWildCmp_glob:
  assumes "CHR ''$'' \<notin> set wexp"
  shows "DpsWildCmp str wexp = 0 \<longleftrightarrow> glob (\<lambda>c. c) (=) True wexp str"
  using wild_correct(1) [of "\<lambda>c. c" wexp "(=)" True str] assms by (simp add: DpsWildCmp_def)

theorem DpsWildCmp_glob_witness:
  "DpsWildCmp ''/a/b.html'' ''/*.ht?l'' = 0 \<and> glob (\<lambda>c. c) (=) True ''/*.ht?l'' ''/a/b.html''"
  using DpsWildCmp_glob [of "''/*.ht?l''" "''/a/b.html''"] by (simp add: DpsWildCmp_def)

text \<open>
  The unicode matcher, which has no escape, decides the same language over code points.
\<close>

theorem DpsUniWildCmp_glob:
  assumes "uni_lit CHR ''$'' \<notin> set wexp"
  shows "DpsUniWildCmp str wexp = 0 \<longleftrightarrow> glob uni_lit (=) False wexp str"
  using wild_correct(1) [of uni_lit wexp "(=)" False str] assms by (simp add: DpsUniWildCmp_def)

theorem DpsUniWildCmp_glob_witness:
  "DpsUniWildCmp [0x430, 0x431, 0x432] [0x430, 0x2A] = 0 \<and>
   glob uni_lit (=) False [0x430, 0x2A] [0x430, 0x431, 0x432]"
  using DpsUniWildCmp_glob [of "[0x430, 0x2A]" "[0x430, 0x431, 0x432]"]
  by (simp add: DpsUniWildCmp_def uni_lit_def)

text \<open>
  Case-insensitive matching is exact matching of the lower-cased string against the lower-cased
  pattern: case folding never turns a letter into a wildcard or the other way round.
\<close>

theorem DpsWildCaseCmp_lower:
  "DpsWildCaseCmp str wexp = DpsWildCmp (dps_strtolower str) (dps_strtolower wexp)"
  unfolding DpsWildCaseCmp_def DpsWildCmp_def dps_strtolower_map
  by (rule wild_map(1) [OF keeps_wild_tolower]) simp

end
