(* ===== verification/Dps_Url.thy ===== *)
theory Dps_Url
  imports Dps_Chars
begin

text \<open>
  URLs, \<^verbatim>\<open>src/url.c\<close>: the path normaliser \<^verbatim>\<open>DpsURLNormalizePath\<close>, the parser
  \<^verbatim>\<open>DpsURLParse\<close> into the fields of \<^verbatim>\<open>DPS_URL\<close>, and the reference resolution of
  \<^verbatim>\<open>RelLink\<close> up to the reverse aliases.

  The normaliser works in place and only ever shortens; each of its passes is a function on the
  string, each \<^verbatim>\<open>while ((d = strstr (...)))\<close> a recursion that ends because the string gets
  shorter.
\<close>

section \<open>The passes of DpsURLNormalizePath\<close>

text \<open>
  The backward scan of the ``/../'' pass: from the character before the match down to a slash or to
  the start of the string, then over a run of slashes.
\<close>

fun skip_nonslash_back :: "string \<Rightarrow> nat \<Rightarrow> nat" where
  "skip_nonslash_back s 0 = 0"
| "skip_nonslash_back s (Suc p) = (if s ! Suc p = CHR ''/'' then Suc p else skip_nonslash_back s p)"

fun skip_slash_back :: "string \<Rightarrow> nat \<Rightarrow> nat" where
  "skip_slash_back s 0 = 0"
| "skip_slash_back s (Suc p) = (if 0 < p \<and> s ! p = CHR ''/'' then skip_slash_back s p else Suc p)"

definition dotdot_cut :: "string \<Rightarrow> nat" where
  "dotdot_cut pre =
    (if pre = [] then 0 else skip_slash_back pre (skip_nonslash_back pre (length pre - 1)))"

text \<open>
  The loop \<^verbatim>\<open>while ((d = strstr (str, pat)))\<close>, shared by four passes: everything from position
  \<open>kept pre\<close> up to \<open>k\<close> characters into the match is replaced by \<open>ins\<close>. The guard says that
  a round shortens the string; every pass below meets it.
\<close>

function strstr_loop :: "string \<Rightarrow> (string \<Rightarrow> nat) \<Rightarrow> string \<Rightarrow> nat \<Rightarrow> string \<Rightarrow> string" where
  "strstr_loop pat kept ins k str =
    (case c_strstr str pat of
       None \<Rightarrow> str
     | Some (pre, d) \<Rightarrow>
         if length ins < k \<and> k \<le> length pat
         then strstr_loop pat kept ins k (take (kept pre) pre @ ins @ drop k d)
         else str)"
  by pat_completeness auto
termination
proof (relation "measure (\<lambda>(pat, kept, ins, k, str). length str)", goal_cases)
  case (2 pat kept ins k str z x y)
  then show ?case by (auto dest!: c_strstr_length)
qed simp

declare strstr_loop.simps [simp del]

definition remove_dotdot :: "string \<Rightarrow> string" where
  "remove_dotdot str = strstr_loop ''/../'' dotdot_cut [] 3 str"

text \<open>The trailing ``/..'': back over the last segment before it, or to ``/''.\<close>

fun back_to_slash :: "string \<Rightarrow> nat \<Rightarrow> nat" where
  "back_to_slash s 0 = 0"
| "back_to_slash s (Suc d) = (if s ! Suc d = CHR ''/'' then Suc d else back_to_slash s d)"

definition remove_trailing_dotdot :: "string \<Rightarrow> string" where
  "remove_trailing_dotdot str =
    (let n = length str in
     if 2 < n \<and> drop (n - 3) str = ''/..'' then
       (let d = back_to_slash str (n - (if 3 < n then 4 else 3)) in
        if str ! d = CHR ''/'' then take (d + 1) str else ''/'')
     else str)"

definition remove_dot :: "string \<Rightarrow> string" where
  "remove_dot str = strstr_loop ''/./'' length [] 2 str"

definition remove_trailing_dot :: "string \<Rightarrow> string" where
  "remove_trailing_dot str =
    (let n = length str in
     if 2 < n \<and> drop (n - 2) str = ''/.'' then take (n - 1) str else str)"

definition remove_double_slash :: "string \<Rightarrow> string" where
  "remove_double_slash str = strstr_loop ''//'' length [] 1 str"

definition replace_7E :: "string \<Rightarrow> string" where
  "replace_7E str = strstr_loop ''%7E'' length ''~'' 3 str"

definition normalize_segments :: "string \<Rightarrow> string" where
  "normalize_segments str =
    replace_7E (remove_double_slash (remove_trailing_dot (remove_dot
      (remove_trailing_dotdot (remove_dotdot str)))))"

text \<open>
  The whole function: the query string from the first \<open>?\<close> on is set aside (dropped when it is
  empty) and put back at the end.
\<close>

definition DpsURLNormalizePath :: "string \<Rightarrow> string" where
  "DpsURLNormalizePath str =
    (case c_strchr str CHR ''?'' of
       None \<Rightarrow> normalize_segments str
     | Some (path, q) \<Rightarrow>
         (if tl q = [] then normalize_segments path
          else normalize_segments path @ CHR ''?'' # tl q))"

section \<open>What the passes remove and keep\<close>

abbreviation has :: "string \<Rightarrow> string \<Rightarrow> bool" where "has pat s \<equiv> sublist pat s"

lemma strstr_loop_clean:
  "length ins < k \<Longrightarrow> k \<le> length pat \<Longrightarrow> \<not> has pat (strstr_loop pat kept ins k str)"
proof (induction pat kept ins k str rule: strstr_loop.induct)
  case (1 pat kept ins k str)
  then show ?case
    by (subst strstr_loop.simps) (auto simp: c_strstr_None_iff split: option.splits)
qed

lemma strstr_loop_id: "\<not> has pat s \<Longrightarrow> strstr_loop pat kept ins k s = s"
  by (subst strstr_loop.simps) (auto simp: c_strstr_None_iff [symmetric])

text \<open>An invariant of one round is an invariant of the pass.\<close>

lemma strstr_loop_inv:
  assumes "\<And>pre rest. P (pre @ pat @ rest) \<Longrightarrow> P (take (kept pre) pre @ ins @ drop k (pat @ rest))"
  shows "P str \<Longrightarrow> P (strstr_loop pat kept ins k str)"
proof (induction "length str" arbitrary: str rule: less_induct)
  case less
  show ?case
  proof (cases "c_strstr str pat")
    case None
    with less.prems show ?thesis by (subst strstr_loop.simps) simp
  next
    case (Some x)
    obtain pre d where x: "x = (pre, d)" by (cases x)
    from c_strstr_Some Some x obtain rest where d: "d = pat @ rest" and str: "str = pre @ pat @ rest"
      by (fastforce simp: prefix_def)
    let ?s' = "take (kept pre) pre @ ins @ drop k d"
    have "P (strstr_loop pat kept ins k ?s')" if "length ins < k" "k \<le> length pat"
    proof (rule less.hyps)
      show "length ?s' < length str" using that d str by simp
      show "P ?s'" using assms less.prems d str by simp
    qed
    then show ?thesis
      using less.prems by (subst strstr_loop.simps) (simp add: Some x)
  qed
qed

lemmas pass_defs = remove_dotdot_def remove_dot_def remove_double_slash_def replace_7E_def

lemma pass_clean:
  "\<not> has ''/../'' (remove_dotdot s)" "\<not> has ''/./'' (remove_dot s)"
  "\<not> has ''//'' (remove_double_slash s)" "\<not> has ''%7E'' (replace_7E s)"
  by (simp_all add: pass_defs strstr_loop_clean)

lemma pass_id:
  "\<not> has ''/../'' s \<Longrightarrow> remove_dotdot s = s" "\<not> has ''/./'' s \<Longrightarrow> remove_dot s = s"
  "\<not> has ''//'' s \<Longrightarrow> remove_double_slash s = s" "\<not> has ''%7E'' s \<Longrightarrow> replace_7E s = s"
  by (simp_all add: pass_defs strstr_loop_id)

lemma remove_dot_inv:
  "(\<And>pre rest. P (pre @ ''/./'' @ rest) \<Longrightarrow> P (pre @ ''/'' @ rest)) \<Longrightarrow> P s \<Longrightarrow> P (remove_dot s)"
  unfolding remove_dot_def by (rule strstr_loop_inv) (simp_all add: numeral_2_eq_2)

lemma remove_double_slash_inv:
  "(\<And>pre rest. P (pre @ ''//'' @ rest) \<Longrightarrow> P (pre @ ''/'' @ rest)) \<Longrightarrow>
     P s \<Longrightarrow> P (remove_double_slash s)"
  unfolding remove_double_slash_def by (rule strstr_loop_inv) simp_all

lemma replace_7E_inv:
  "(\<And>pre rest. P (pre @ ''%7E'' @ rest) \<Longrightarrow> P (pre @ ''~'' @ rest)) \<Longrightarrow> P s \<Longrightarrow> P (replace_7E s)"
  unfolding replace_7E_def by (rule strstr_loop_inv) (simp_all add: numeral_3_eq_3)

section \<open>What one pass removes, the later ones do not bring back\<close>

lemma joint_has:
  assumes "has p (a @ [c] @ b)" and "c \<notin> set (butlast (tl p))"
  shows "has p (a @ [c] @ m @ [c] @ b)"
proof -
  from assms have "has p (a @ [c]) \<or> has p (c # b)"
    by (intro sublist_snoc_Cons_split) simp_all
  moreover have "sublist (a @ [c]) (a @ [c] @ m @ [c] @ b)" and "sublist (c # b) (a @ [c] @ m @ [c] @ b)"
    by (metis append.assoc prefixI prefix_imp_sublist)
       (metis append.assoc append_Cons append_Nil suffixI suffix_imp_sublist)
  ultimately show ?thesis by (meson sublist_order.order_trans)
qed

lemma joint_suffix:
  assumes "suffix p (a @ [c] @ b)" and "c \<notin> set (tl p)"
  shows "suffix p (a @ [c] @ m @ [c] @ b)"
proof -
  from assms(1) obtain x where x: "a @ c # b = x @ p" by (auto simp: suffix_def)
  then obtain us where "(a = x @ us \<and> us @ c # b = p) \<or> (a @ us = x \<and> c # b = us @ p)"
    by (auto simp: append_eq_append_conv2)
  then show ?thesis
  proof (elim disjE conjE)
    assume a: "a = x @ us" and p: "us @ c # b = p"
    with assms(2) have "us = []" by (cases us) auto
    with p show ?thesis by (auto simp: suffix_def)
  next
    assume "c # b = us @ p"
    then show ?thesis by (metis append.assoc append_Cons append_Nil suffix_def)
  qed
qed

lemma tilde_has:
  assumes "has p (a @ c # b)" and "c \<notin> set p"
  shows "has p (a @ m @ b)"
  using sublist_avoiding_split [OF assms]
  by (metis append.assoc prefixI prefix_imp_sublist sublist_order.order_trans suffixI suffix_imp_sublist)

lemma tilde_suffix:
  assumes "suffix p (a @ c # b)" and "c \<notin> set p" and "p \<noteq> []"
  shows "suffix p (a @ m @ b)"
proof -
  from assms(1) obtain x where x: "a @ c # b = x @ p" by (auto simp: suffix_def)
  then obtain us where "(a = x @ us \<and> us @ c # b = p) \<or> (a @ us = x \<and> c # b = us @ p)"
    by (auto simp: append_eq_append_conv2)
  then show ?thesis
  proof (elim disjE conjE)
    assume "us @ c # b = p"
    with assms(2) show ?thesis by auto
  next
    assume "c # b = us @ p"
    with assms(2,3) obtain us' where "b = us' @ p" by (cases us) auto
    then show ?thesis by (auto simp: suffix_def)
  qed
qed

text \<open>A string in normal form; the second to last clause excepts the string \<open>/.\<close> itself.\<close>

definition normal_path :: "string \<Rightarrow> bool" where
  "normal_path s \<longleftrightarrow>
     \<not> has ''/../'' s \<and> \<not> has ''/./'' s \<and> \<not> has ''//'' s \<and> \<not> has ''%7E'' s \<and>
     \<not> suffix ''/..'' s \<and> (suffix ''/.'' s \<longrightarrow> s = ''/.'')"

lemma remove_dot_has: "\<not> has ''/../'' s \<Longrightarrow> \<not> has ''/../'' (remove_dot s)"
  by (rule remove_dot_inv [of "\<lambda>s. \<not> has ''/../'' s"]) (use joint_has [of "''/../''" _ "CHR ''/''" _ "''.''"] in auto)

lemma remove_dot_suffix: "\<not> suffix ''/..'' s \<Longrightarrow> \<not> suffix ''/..'' (remove_dot s)"
  by (rule remove_dot_inv [of "\<lambda>s. \<not> suffix ''/..'' s"]) (use joint_suffix [of "''/..''" _ "CHR ''/''" _ "''.''"] in auto)

lemma double_slash_has:
  "CHR ''/'' \<notin> set (butlast (tl p)) \<Longrightarrow> \<not> has p s \<Longrightarrow> \<not> has p (remove_double_slash s)"
  by (rule remove_double_slash_inv [of "\<lambda>s. \<not> has p s"]) (use joint_has [of p _ "CHR ''/''" _ "[]"] in auto)

lemma double_slash_suffix:
  "CHR ''/'' \<notin> set (tl p) \<Longrightarrow> \<not> suffix p s \<Longrightarrow> \<not> suffix p (remove_double_slash s)"
  by (rule remove_double_slash_inv [of "\<lambda>s. \<not> suffix p s"]) (use joint_suffix [of p _ "CHR ''/''" _ "[]"] in auto)

lemma replace_7E_has:
  "CHR ''~'' \<notin> set p \<Longrightarrow> \<not> has p s \<Longrightarrow> \<not> has p (replace_7E s)"
  by (rule replace_7E_inv [of "\<lambda>s. \<not> has p s"]) (use tilde_has [of p _ "CHR ''~''" _ "''%7E''"] in auto)

lemma replace_7E_suffix:
  "CHR ''~'' \<notin> set p \<Longrightarrow> p \<noteq> [] \<Longrightarrow> \<not> suffix p s \<Longrightarrow> \<not> suffix p (replace_7E s)"
  by (rule replace_7E_inv [of "\<lambda>s. \<not> suffix p s"]) (use tilde_suffix [of p _ "CHR ''~''" _ "''%7E''"] in auto)

subsection \<open>The two trailing passes\<close>

lemma suffix_drop_iff:
  "length p \<le> length s \<Longrightarrow> drop (length s - length p) s = p \<longleftrightarrow> suffix p s"
  by (auto simp: suffix_def) (metis append_take_drop_id)

lemma back_to_slash_le: "back_to_slash s d \<le> d"
  by (induction d) auto

lemma last_take_Suc: "d < length s \<Longrightarrow> last (take (d + 1) s) = s ! d"
  by (simp add: take_Suc_conv_app_nth)

lemma not_suffix_last: "p \<noteq> [] \<Longrightarrow> s \<noteq> [] \<Longrightarrow> last s \<noteq> last p \<Longrightarrow> \<not> suffix p s"
  by (auto simp: suffix_def)

lemma trailing_dotdot_cases:
  obtains "remove_trailing_dotdot s = s" and "\<not> suffix ''/..'' s"
  | "remove_trailing_dotdot s = ''/''"
  | d where "d < length s" and "s ! d = CHR ''/''" and "remove_trailing_dotdot s = take (d + 1) s"
proof (cases "2 < length s \<and> drop (length s - 3) s = ''/..''")
  case True
  let ?d = "back_to_slash s (length s - (if 3 < length s then 4 else 3))"
  have "?d < length s"
    using True back_to_slash_le [of s "length s - (if 3 < length s then 4 else 3)"]
    by (auto split: if_splits)
  with that True show ?thesis
    by (cases "s ! ?d = CHR ''/''") (auto simp: remove_trailing_dotdot_def Let_def)
next
  case False
  then have "\<not> suffix ''/..'' s"
    using suffix_drop_iff [of "''/..''" s]
    by (fastforce dest: suffix_length_le simp: numeral_3_eq_3)
  with that(1) False show ?thesis by (auto simp: remove_trailing_dotdot_def Let_def)
qed

lemma trailing_dotdot_clean: "\<not> suffix ''/..'' (remove_trailing_dotdot s)"
proof (cases s rule: trailing_dotdot_cases)
  case (3 d)
  then show ?thesis
    using last_take_Suc [of d s] by (intro not_suffix_last) (auto simp del: take_Suc_conv_app_nth)
qed (auto simp: suffix_def)

lemma trailing_dotdot_has:
  "1 < length p \<Longrightarrow> \<not> has p s \<Longrightarrow> \<not> has p (remove_trailing_dotdot s)"
proof (cases s rule: trailing_dotdot_cases)
  case 2
  assume "1 < length p"
  with 2 show ?thesis by (auto dest: sublist_length_le)
next
  case (3 d)
  assume "\<not> has p s"
  with 3 show ?thesis
    by (metis prefix_imp_sublist sublist_order.order_trans take_is_prefix)
qed simp

lemma trailing_dot_cases:
  obtains "remove_trailing_dot s = s" and "suffix ''/.'' s \<longrightarrow> s = ''/.''"
  | t where "remove_trailing_dot s = t @ ''/''" and "s = t @ ''/.''"
proof (cases "2 < length s \<and> drop (length s - 2) s = ''/.''")
  case True
  then obtain t where t: "s = t @ ''/.''"
    by (metis append_take_drop_id)
  then have "remove_trailing_dot s = t @ ''/''"
    using True by (simp add: remove_trailing_dot_def Let_def)
  with that(2) t show ?thesis by blast
next
  case False
  have "s = ''/.''" if "suffix ''/.'' s"
  proof -
    from that False have "length s \<le> 2"
      using suffix_drop_iff [of "''/.''" s]
      by (fastforce dest: suffix_length_le simp: numeral_2_eq_2)
    with that show ?thesis by (auto simp: suffix_def)
  qed
  with that(1) False show ?thesis by (auto simp: remove_trailing_dot_def Let_def)
qed

lemma trailing_dot_has: "\<not> has p s \<Longrightarrow> \<not> has p (remove_trailing_dot s)"
proof (cases s rule: trailing_dot_cases)
  case (2 t)
  assume "\<not> has p s"
  moreover have "prefix (t @ ''/'') s" using 2(2) by simp
  ultimately show ?thesis
    unfolding 2(1) by (meson prefix_imp_sublist sublist_order.order_trans)
qed simp

lemma trailing_dot_suffix:
  "\<not> suffix ''/..'' s \<Longrightarrow> \<not> suffix ''/..'' (remove_trailing_dot s)"
  by (cases s rule: trailing_dot_cases) (auto simp: suffix_def)

lemma trailing_dot_clean:
  "suffix ''/.'' (remove_trailing_dot s) \<longrightarrow> remove_trailing_dot s = ''/.''"
  by (cases s rule: trailing_dot_cases) (auto simp: suffix_def)

subsection \<open>Normal forms\<close>

lemma normal_path_segments: "normal_path (normalize_segments s)"
proof -
  let ?s1 = "remove_dotdot s"
  let ?s2 = "remove_trailing_dotdot ?s1"
  let ?s3 = "remove_dot ?s2"
  let ?s4 = "remove_trailing_dot ?s3"
  let ?s5 = "remove_double_slash ?s4"
  have 1: "\<not> has ''/../'' ?s4" "\<not> suffix ''/..'' ?s4"
    by (simp_all add: trailing_dot_has remove_dot_has trailing_dotdot_has pass_clean
        trailing_dot_suffix remove_dot_suffix trailing_dotdot_clean)
  have 2: "\<not> has ''/./'' ?s4"
    by (simp add: trailing_dot_has pass_clean)
  have 3: "suffix ''/.'' ?s5 \<longrightarrow> ?s5 = ''/.''"
  proof (cases "?s4 = ''/.''")
    case True
    then have "?s5 = ''/.''" by (simp add: pass_id sublist_Cons_right)
    then show ?thesis by simp
  next
    case False
    then have "\<not> suffix ''/.'' ?s4" using trailing_dot_clean by blast
    then show ?thesis by (simp add: double_slash_suffix)
  qed
  have 5: "\<not> has ''/../'' ?s5" "\<not> suffix ''/..'' ?s5" "\<not> has ''/./'' ?s5" "\<not> has ''//'' ?s5"
    using 1 2 by (simp_all add: double_slash_has double_slash_suffix pass_clean)
  have "suffix ''/.'' (replace_7E ?s5) \<longrightarrow> replace_7E ?s5 = ''/.''"
  proof (cases "?s5 = ''/.''")
    case True
    then have "replace_7E ?s5 = ''/.''" by (simp add: pass_id sublist_Cons_right)
    then show ?thesis by simp
  next
    case False
    with 3 have "\<not> suffix ''/.'' ?s5" by blast
    then show ?thesis by (simp add: replace_7E_suffix)
  qed
  with 5 show ?thesis
    unfolding normal_path_def normalize_segments_def
    by (simp add: replace_7E_has replace_7E_suffix pass_clean)
qed

lemma trailing_passes_id:
  "\<not> suffix ''/..'' s \<Longrightarrow> remove_trailing_dotdot s = s"
  "(suffix ''/.'' s \<longrightarrow> s = ''/.'') \<Longrightarrow> remove_trailing_dot s = s"
  using suffix_drop_iff [of "''/..''" s] suffix_drop_iff [of "''/.''" s]
  by (auto simp: remove_trailing_dotdot_def remove_trailing_dot_def Let_def numeral_2_eq_2 numeral_3_eq_3)

lemma normalize_segments_id: "normal_path s \<Longrightarrow> normalize_segments s = s"
  by (simp add: normal_path_def normalize_segments_def pass_id trailing_passes_id)

lemma set_strstr_loop: "set (strstr_loop pat kept ins k s) \<subseteq> set s \<union> set ins"
  by (rule strstr_loop_inv [of "\<lambda>t. set t \<subseteq> set s \<union> set ins"])
     (auto dest: in_set_takeD in_set_dropD)

lemma set_trailing:
  "set (remove_trailing_dotdot s) \<subseteq> insert CHR ''/'' (set s)" "set (remove_trailing_dot s) \<subseteq> set s"
  by (auto simp: remove_trailing_dotdot_def remove_trailing_dot_def Let_def dest: in_set_takeD)

lemma set_normalize_segments:
  "set (normalize_segments s) \<subseteq> set s \<union> {CHR ''/'', CHR ''~''}"
proof -
  have "set (normalize_segments s) \<subseteq> insert CHR ''~'' (set (remove_trailing_dotdot (remove_dotdot s)))"
    using set_strstr_loop [of "''%7E''"] set_strstr_loop [of "''//''"] set_strstr_loop [of "''/./''"]
      set_trailing(2)
    unfolding normalize_segments_def pass_defs by fastforce
  also have "\<dots> \<subseteq> insert CHR ''~'' (insert CHR ''/'' (set s))"
    using set_trailing(1) set_strstr_loop [of "''/../''" dotdot_cut "[]" 3 s]
    unfolding pass_defs by fastforce
  finally show ?thesis by auto
qed

lemma length_strstr_loop: "length (strstr_loop pat kept ins k s) \<le> length s"
proof (induction pat kept ins k s rule: strstr_loop.induct)
  case (1 pat kept ins k str)
  show ?case
  proof (cases "c_strstr str pat")
    case None
    then show ?thesis by (subst strstr_loop.simps) simp
  next
    case (Some x)
    obtain pre d where x: "x = (pre, d)" by (cases x)
    with Some have "length pat \<le> length d \<and> length pre + length d = length str"
      using c_strstr_length by blast
    with 1 [OF Some x [symmetric]] show ?thesis
      by (subst strstr_loop.simps) (auto simp: Some x)
  qed
qed

lemma length_normalize_segments: "s \<noteq> [] \<Longrightarrow> length (normalize_segments s) \<le> length s"
proof -
  have "length (remove_trailing_dotdot t) \<le> length t" for t
    by (auto simp: remove_trailing_dotdot_def Let_def)
  moreover have "length (remove_trailing_dot t) \<le> length t" for t
    by (auto simp: remove_trailing_dot_def Let_def)
  ultimately show ?thesis
    unfolding normalize_segments_def pass_defs by (meson length_strstr_loop order_trans)
qed

lemma normalize_segments_no_query: "CHR ''?'' \<notin> set p \<Longrightarrow> CHR ''?'' \<notin> set (normalize_segments p)"
  using set_normalize_segments [of p] by auto

text \<open>One round of the ``/../'' pass removes the match and the segment before it.\<close>

lemma skip_nonslash_back_seg:
  "CHR ''/'' \<notin> set seg \<Longrightarrow> length pre \<le> n \<Longrightarrow> n \<le> length pre + length seg \<Longrightarrow>
     skip_nonslash_back (pre @ CHR ''/'' # seg) n = length pre"
proof (induction n)
  case (Suc n)
  show ?case
  proof (cases "length pre = Suc n")
    case False
    with Suc have "(pre @ CHR ''/'' # seg) ! Suc n = seg ! (n - length pre)" "n - length pre < length seg"
      by (auto simp: nth_append)
    with Suc False show ?thesis by (auto simp: in_set_conv_nth)
  qed (simp add: nth_append)
qed simp

lemma skip_slash_back_stop:
  "pre = [] \<or> last pre \<noteq> CHR ''/'' \<Longrightarrow> skip_slash_back (pre @ q) (length pre) = length pre"
  by (cases pre rule: rev_cases) (auto simp: nth_append)

lemma dotdot_cut_seg:
  "CHR ''/'' \<notin> set seg \<Longrightarrow> pre = [] \<or> last pre \<noteq> CHR ''/'' \<Longrightarrow>
     dotdot_cut (pre @ CHR ''/'' # seg) = length pre"
  by (simp add: dotdot_cut_def skip_nonslash_back_seg skip_slash_back_stop)

lemma normalize_segments_pop:
  assumes "CHR ''/'' \<notin> set seg" and "pre = [] \<or> last pre \<noteq> CHR ''/''"
    and "\<not> has ''/../'' (pre @ ''/'' @ seg @ ''/..'')"
  shows "normalize_segments (pre @ ''/'' @ seg @ ''/../'' @ rest) = normalize_segments (pre @ ''/'' @ rest)"
proof -
  have "c_strstr ((pre @ ''/'' @ seg) @ ''/../'' @ rest) ''/../'' = Some (pre @ ''/'' @ seg, ''/../'' @ rest)"
    by (rule c_strstr_first) (use assms(3) in auto)
  then have "remove_dotdot (pre @ ''/'' @ seg @ ''/../'' @ rest) = remove_dotdot (pre @ ''/'' @ rest)"
    unfolding remove_dotdot_def using dotdot_cut_seg [OF assms(1,2)]
    by (subst strstr_loop.simps) simp
  then show ?thesis by (simp add: normalize_segments_def)
qed

section \<open>Properties of the normaliser\<close>

text \<open>
  The path the normaliser produces (before the query string) has no ``/../'', ``/./'', ``//'' or
  ``%7E'' in it and does not end in ``/..'', whatever the input; ``/.'' can end it only as the
  whole path.
\<close>

theorem DpsURLNormalizePath_normal:
  "let path = takeWhile (\<lambda>c. c \<noteq> CHR ''?'') (DpsURLNormalizePath str) in
     \<not> has ''/../'' path \<and> \<not> has ''/./'' path \<and> \<not> has ''//'' path \<and> \<not> has ''%7E'' path \<and>
     \<not> suffix ''/..'' path \<and> (path \<noteq> ''/.'') = (\<not> suffix ''/.'' path)"
proof -
  have "\<exists>p. takeWhile (\<lambda>c. c \<noteq> CHR ''?'') (DpsURLNormalizePath str) = normalize_segments p"
  proof (cases "c_strchr str CHR ''?''")
    case None
    then have "CHR ''?'' \<notin> set str" by (simp add: c_strchr_None)
    with None normalize_segments_no_query [of str] show ?thesis
      by (intro exI [of _ str]) (auto simp: DpsURLNormalizePath_def takeWhile_eq_all_conv)
  next
    case (Some x)
    obtain p q where x: "x = (p, q)" by (cases x)
    with Some have "CHR ''?'' \<notin> set (normalize_segments p)"
      using normalize_segments_no_query [of p] by (auto dest: c_strchr_Some)
    then have "takeWhile (\<lambda>c. c \<noteq> CHR ''?'') (normalize_segments p) = normalize_segments p"
      "\<And>r. takeWhile (\<lambda>c. c \<noteq> CHR ''?'') (normalize_segments p @ CHR ''?'' # r) = normalize_segments p"
      by (auto simp: takeWhile_eq_all_conv takeWhile_append)
    with Some x have "takeWhile (\<lambda>c. c \<noteq> CHR ''?'') (DpsURLNormalizePath str) = normalize_segments p"
      by (simp add: DpsURLNormalizePath_def)
    then show ?thesis by blast
  qed
  then obtain p where p: "takeWhile (\<lambda>c. c \<noteq> CHR ''?'') (DpsURLNormalizePath str) = normalize_segments p"
    by blast
  have "suffix ''/.'' ''/.''" by simp
  with normal_path_segments [of p] show ?thesis
    unfolding p Let_def normal_path_def by metis
qed

text \<open>
  Normalising a normalised URL path changes nothing: the six passes in the code's order reach
  their common fixed point in one call.
\<close>

theorem DpsURLNormalizePath_idem:
  "DpsURLNormalizePath (DpsURLNormalizePath str) = DpsURLNormalizePath str"
proof -
  have nq: "CHR ''?'' \<notin> set (normalize_segments p)" if "CHR ''?'' \<notin> set p" for p
    using set_normalize_segments [of p] that by auto
  note n = normalize_segments_id [OF normal_path_segments]
  show ?thesis
  proof (cases "c_strchr str CHR ''?''")
    case None
    then have "CHR ''?'' \<notin> set str" by (simp add: c_strchr_None)
    with nq have "c_strchr (normalize_segments str) CHR ''?'' = None"
      by (simp add: c_strchr_None)
    with None show ?thesis by (simp add: DpsURLNormalizePath_def n)
  next
    case (Some x)
    obtain p q where x: "x = (p, q)" by (cases x)
    with Some have "CHR ''?'' \<notin> set p" by (auto dest: c_strchr_Some)
    with nq have h: "CHR ''?'' \<notin> set (normalize_segments p)" by blast
    then have "c_strchr (normalize_segments p) CHR ''?'' = None"
      by (simp add: c_strchr_None)
    with Some x show ?thesis
      by (simp add: DpsURLNormalizePath_def n c_strchr_append [OF h])
  qed
qed

text \<open>
  The in-place rewriting never writes past the end of the string it was given: the result is
  never longer than a non-empty input.
\<close>

theorem DpsURLNormalizePath_length:
  assumes "str \<noteq> []"
  shows "length (DpsURLNormalizePath str) \<le> length str"
proof (cases "c_strchr str CHR ''?''")
  case None
  with assms show ?thesis by (simp add: DpsURLNormalizePath_def length_normalize_segments)
next
  case (Some x)
  obtain p q where x: "x = (p, q)" by (cases x)
  have e: "normalize_segments [] = []" by (simp add: normalize_segments_id normal_path_def)
  from Some x have "str = p @ q" "q \<noteq> []" by (auto dest: c_strchr_Some)
  with Some x length_normalize_segments [of p] e show ?thesis
    by (cases "p = []") (auto simp: DpsURLNormalizePath_def Suc_le_eq)
qed

theorem DpsURLNormalizePath_length_witness:
  "''/a/../b?x'' \<noteq> ([] :: string) \<and> length (DpsURLNormalizePath ''/a/../b?x'') \<le> length ''/a/../b?x''"
  using DpsURLNormalizePath_length [of "''/a/../b?x''"] by simp

text \<open>
  A parent reference takes the segment before it away: when the first ``/../'' of the path
  follows the segment \<open>seg\<close>, normalising gives what normalising without \<open>seg\<close> and the ``..''
  gives. With the normal form above this determines the result for every path made of ordinary
  segments and parent references.
\<close>

theorem DpsURLNormalizePath_parent:
  assumes "CHR ''/'' \<notin> set seg" and "pre = [] \<or> last pre \<noteq> CHR ''/''"
    and "\<not> has ''/../'' (pre @ ''/'' @ seg @ ''/..'')" and "CHR ''?'' \<notin> set (pre @ seg)"
  shows "DpsURLNormalizePath (pre @ ''/'' @ seg @ ''/../'' @ rest) = DpsURLNormalizePath (pre @ ''/'' @ rest)"
proof (cases "CHR ''?'' \<in> set rest")
  case True
  then obtain r1 q where rest: "rest = r1 @ CHR ''?'' # q" and r1: "CHR ''?'' \<notin> set r1"
    by (metis split_list_first)
  have "c_strchr ((pre @ ''/'' @ seg @ ''/../'' @ r1) @ CHR ''?'' # q) CHR ''?'' =
      Some (pre @ ''/'' @ seg @ ''/../'' @ r1, CHR ''?'' # q)"
    "c_strchr ((pre @ ''/'' @ r1) @ CHR ''?'' # q) CHR ''?'' = Some (pre @ ''/'' @ r1, CHR ''?'' # q)"
    by (rule c_strchr_append; use assms(4) r1 in simp)+
  then show ?thesis
    using normalize_segments_pop [OF assms(1-3), of r1] by (simp add: DpsURLNormalizePath_def rest)
next
  case False
  with assms(4) have "c_strchr (pre @ ''/'' @ seg @ ''/../'' @ rest) CHR ''?'' = None"
    "c_strchr (pre @ ''/'' @ rest) CHR ''?'' = None"
    by (simp_all add: c_strchr_None)
  then show ?thesis
    unfolding DpsURLNormalizePath_def
    using normalize_segments_pop [OF assms(1-3), of rest] by simp
qed

theorem DpsURLNormalizePath_parent_witness:
  "DpsURLNormalizePath (''/a'' @ ''/'' @ ''b'' @ ''/../'' @ ''c?q'') = DpsURLNormalizePath (''/a'' @ ''/'' @ ''c?q'')"
  by (rule DpsURLNormalizePath_parent) (simp_all add: sublist_Cons_right)

text \<open>
  The passes are not the \<^verbatim>\<open>remove_dot_segments\<close> of RFC 3986 that the comments of
  \<^verbatim>\<open>url.c\<close> quote: parents are resolved before ``/./'' is, so the ``.'' of ``/a/./../b'' counts
  as the segment the ``..'' removes, and the result is ``/a/b'' where the RFC gives ``/b''. A path
  that is just ``/.'' is left as it is.
\<close>

theorem DpsURLNormalizePath_dot_before_parent:
  "DpsURLNormalizePath ''/a/./../b'' = ''/a/b'' \<and> DpsURLNormalizePath ''/.'' = ''/.''"
  by (simp add: DpsURLNormalizePath_def normalize_segments_def pass_defs strstr_loop.simps dotdot_cut_def
      remove_trailing_dotdot_def remove_trailing_dot_def c_strchr_def numeral_eq_Suc Let_def)

end
