(* ===== verification/Dps_UrlPath.thy ===== *)
theory Dps_UrlPath
  imports Dps_Url
begin

text \<open>
  A reference for \<^verbatim>\<open>DpsURLNormalizePath\<close> on the paths of segments: the parent references are
  resolved on a stack of segments, one after the other, then the dot segments are left out and the
  escaped tildes are replaced in one scan. The in-place passes of the code compute it.
\<close>

section \<open>The reference\<close>

text \<open>A path of directory segments and a file name.\<close>

definition path_of :: "string list \<Rightarrow> string \<Rightarrow> string" where
  "path_of dirs nm = concat (map (Cons CHR ''/'') dirs) @ CHR ''/'' # nm"

fun resolve_parents :: "string list \<Rightarrow> string list \<Rightarrow> string list" where
  "resolve_parents stack [] = stack"
| "resolve_parents stack (s # ss) =
     resolve_parents (if s = ''..'' then butlast stack else stack @ [s]) ss"

fun tilde :: "string \<Rightarrow> string" where
  "tilde [] = []"
| "tilde (c # s) = (if prefix ''%7E'' (c # s) then CHR ''~'' # tilde (drop 2 s) else c # tilde s)"

text \<open>
  A final \<open>..\<close> takes the last segment away and leaves the file name empty. So does a final \<open>.\<close>, except
  that the code leaves a path alone that has come down to it.
\<close>

definition reference_path :: "string list \<Rightarrow> string \<Rightarrow> string" where
  "reference_path dirs nm =
    (let stack = resolve_parents [] dirs;
         stack = (if nm = ''..'' then butlast stack else stack);
         rest = filter (\<lambda>s. s \<noteq> ''.'') stack
     in tilde (path_of rest (if nm = ''..'' \<or> nm = ''.'' \<and> rest \<noteq> [] then [] else nm)))"

section \<open>Segments in a path\<close>

definition segment :: "string \<Rightarrow> bool" where
  "segment s \<longleftrightarrow> s \<noteq> [] \<and> CHR ''/'' \<notin> set s \<and> CHR ''?'' \<notin> set s"

definition file_name :: "string \<Rightarrow> bool" where
  "file_name s \<longleftrightarrow> CHR ''/'' \<notin> set s \<and> CHR ''?'' \<notin> set s"

lemma path_of_simps [simp]:
  "path_of [] nm = CHR ''/'' # nm"
  "path_of (s # ss) nm = CHR ''/'' # s @ path_of ss nm"
  by (simp_all add: path_of_def)

lemma path_of_append: "path_of (ss @ ts) nm = concat (map (Cons CHR ''/'') ss) @ path_of ts nm"
  by (simp add: path_of_def)

lemma sublist_skip: "c \<notin> set s \<Longrightarrow> sublist (c # p) (s @ t) = sublist (c # p) t"
  by (induction s) (auto simp: sublist_Cons_right)

lemma prefix_slash:
  "CHR ''/'' \<notin> set s \<Longrightarrow> CHR ''/'' \<notin> set w \<Longrightarrow>
     prefix (w @ [CHR ''/'']) (s @ CHR ''/'' # t) \<longleftrightarrow> w = s"
proof (induction s arbitrary: w)
  case Nil
  then show ?case by (cases w) auto
next
  case (Cons c s)
  then show ?case by (cases w) auto
qed

text \<open>A segment between slashes occurs in a path when it is one of its directories.\<close>

lemma has_segment:
  assumes "list_all segment ss" "file_name nm" "CHR ''/'' \<notin> set w"
  shows "has (CHR ''/'' # w @ ''/'') (path_of ss nm) \<longleftrightarrow> w \<in> set ss"
  using assms(1)
proof (induction ss)
  case Nil
  have "\<not> has (CHR ''/'' # w @ ''/'') (CHR ''/'' # nm)"
  proof
    assume "has (CHR ''/'' # w @ ''/'') (CHR ''/'' # nm)"
    then obtain x y where xy: "CHR ''/'' # nm = x @ (CHR ''/'' # w @ ''/'') @ y" by (auto simp: sublist_def)
    then have "count_list (CHR ''/'' # nm) CHR ''/'' \<ge> 2" by (simp add: count_list_append)
    then show False using assms(2) by (simp add: file_name_def count_list_0_iff)
  qed
  then show ?case by simp
next
  case (Cons s ss)
  then have s: "CHR ''/'' \<notin> set s" by (simp add: segment_def)
  obtain t where t: "path_of ss nm = CHR ''/'' # t" by (cases ss) auto
  have "prefix (w @ ''/'') (s @ CHR ''/'' # t) \<longleftrightarrow> w = s" using prefix_slash [OF s assms(3)] .
  moreover have "has (CHR ''/'' # w @ ''/'') (s @ path_of ss nm) \<longleftrightarrow> w \<in> set ss"
    using Cons sublist_skip [OF s] by simp
  ultimately show ?case by (simp add: sublist_Cons_right t)
qed

lemma concat_end: "list_all segment ss \<Longrightarrow> concat (map (Cons CHR ''/'') ss) = [] \<or> last (concat (map (Cons CHR ''/'') ss)) \<noteq> CHR ''/''"
  by (cases ss rule: rev_cases) (auto simp: segment_def dest: last_in_set)

section \<open>The passes on a path of segments\<close>

lemma remove_dotdot_path:
  assumes "file_name nm"
  shows "list_all segment (stack @ ss) \<Longrightarrow> ''..'' \<notin> set stack \<Longrightarrow>
    remove_dotdot (path_of (stack @ ss) nm) = path_of (resolve_parents stack ss) nm"
proof (induction ss arbitrary: stack)
  case Nil
  then show ?case using has_segment [of stack nm "''..''"] assms by (simp add: pass_id)
next
  case (Cons s ss)
  show ?case
  proof (cases "s = ''..''")
    case False
    then show ?thesis using Cons.IH [of "stack @ [s]"] Cons.prems by simp
  next
    case True
    let ?pre = "concat (map (Cons CHR ''/'') stack)"
    obtain rest where rest: "path_of ss nm = CHR ''/'' # rest" by (cases ss) auto
    have "\<not> has ''/../'' (?pre @ ''/..'')"
      using has_segment [of stack "''..''" "''..''"] Cons.prems by (simp add: file_name_def path_of_def)
    then have "c_strstr (?pre @ ''/../'' @ rest) ''/../'' = Some (?pre, ''/../'' @ rest)"
      by (intro c_strstr_first) simp_all
    then have "remove_dotdot (path_of (stack @ s # ss) nm) =
        remove_dotdot (take (dotdot_cut ?pre) ?pre @ path_of ss nm)"
      unfolding remove_dotdot_def by (subst strstr_loop.simps) (simp add: True path_of_append rest)
    also have "take (dotdot_cut ?pre) ?pre = concat (map (Cons CHR ''/'') (butlast stack))"
    proof (cases stack rule: rev_cases)
      case (snoc st t)
      have "dotdot_cut (concat (map (Cons CHR ''/'') st) @ CHR ''/'' # t) = length (concat (map (Cons CHR ''/'') st))"
        using Cons.prems(1) snoc dotdot_cut_seg [OF _ concat_end [of st], of t] by (simp add: segment_def [of t])
      then show ?thesis by (simp add: snoc)
    qed (simp add: dotdot_cut_def)
    also have "\<dots> @ path_of ss nm = path_of (butlast stack @ ss) nm" by (simp add: path_of_append)
    also have "remove_dotdot \<dots> = path_of (resolve_parents (butlast stack) ss) nm"
      using Cons.prems by (intro Cons.IH) (auto simp: list_all_iff dest: in_set_butlastD)
    finally show ?thesis by (simp add: True)
  qed
qed

lemma remove_dot_path:
  assumes "file_name nm"
  shows "list_all segment (stack @ ss) \<Longrightarrow> ''.'' \<notin> set stack \<Longrightarrow>
    remove_dot (path_of (stack @ ss) nm) = path_of (stack @ filter (\<lambda>s. s \<noteq> ''.'') ss) nm"
proof (induction ss arbitrary: stack)
  case Nil
  then show ?case using has_segment [of stack nm "''.''"] assms by (simp add: pass_id)
next
  case (Cons s ss)
  show ?case
  proof (cases "s = ''.''")
    case False
    then show ?thesis using Cons.IH [of "stack @ [s]"] Cons.prems by simp
  next
    case True
    let ?pre = "concat (map (Cons CHR ''/'') stack)"
    obtain rest where rest: "path_of ss nm = CHR ''/'' # rest" by (cases ss) auto
    have "\<not> has ''/./'' (?pre @ ''/.'')"
      using has_segment [of stack "''.''" "''.''"] Cons.prems by (simp add: file_name_def path_of_def)
    then have "c_strstr (?pre @ ''/./'' @ rest) ''/./'' = Some (?pre, ''/./'' @ rest)"
      by (intro c_strstr_first) simp_all
    then have "remove_dot (path_of (stack @ s # ss) nm) = remove_dot (path_of (stack @ ss) nm)"
      unfolding remove_dot_def by (subst strstr_loop.simps) (simp add: True path_of_append rest numeral_2_eq_2)
    with True Cons show ?thesis by simp
  qed
qed

lemma remove_double_slash_path:
  "list_all segment ss \<Longrightarrow> file_name nm \<Longrightarrow> remove_double_slash (path_of ss nm) = path_of ss nm"
  using has_segment [of ss nm "[]"] by (auto simp: pass_id list_all_iff segment_def)

lemma suffix_slash:
  "CHR ''/'' \<notin> set nm \<Longrightarrow> CHR ''/'' \<notin> set w \<Longrightarrow>
     suffix (CHR ''/'' # w) (s @ CHR ''/'' # nm) \<longleftrightarrow> w = nm"
  using prefix_slash [of "rev nm" "rev w" "rev s"] by (simp add: suffix_to_prefix)

lemma path_of_split: "path_of ss nm = concat (map (Cons CHR ''/'') ss) @ CHR ''/'' # nm"
  by (simp add: path_of_def)

lemma back_to_slash_segment:
  "CHR ''/'' \<notin> set seg \<Longrightarrow> length pre \<le> n \<Longrightarrow> n \<le> length pre + length seg \<Longrightarrow>
     back_to_slash (pre @ CHR ''/'' # seg @ r) n = length pre"
proof (induction n)
  case (Suc n)
  show ?case
  proof (cases "length pre = Suc n")
    case False
    with Suc have "(pre @ CHR ''/'' # seg @ r) ! Suc n = seg ! (n - length pre)" "n - length pre < length seg"
      by (auto simp: nth_append)
    with Suc False show ?thesis by (auto simp: in_set_conv_nth)
  qed (simp add: nth_append)
qed simp

lemma remove_trailing_dotdot_path:
  assumes "list_all segment ss" "file_name nm"
  shows "remove_trailing_dotdot (path_of ss nm) =
    (if nm = ''..'' then path_of (butlast ss) [] else path_of ss nm)"
proof (cases "nm = ''..''")
  case False
  have "\<not> suffix ''/..'' (path_of ss nm)"
    using False assms(2) suffix_slash [of nm "''..''"] by (auto simp: path_of_split file_name_def)
  then show ?thesis
    using False suffix_drop_iff [of "''/..''" "path_of ss nm"]
    by (auto simp: remove_trailing_dotdot_def Let_def numeral_3_eq_3)
next
  case True
  show ?thesis
  proof (cases ss rule: rev_cases)
    case Nil
    then show ?thesis using True by (simp add: remove_trailing_dotdot_def Let_def numeral_eq_Suc)
  next
    case (snoc st t)
    let ?pre = "concat (map (Cons CHR ''/'') st)"
    have t: "CHR ''/'' \<notin> set t" "t \<noteq> []" using assms(1) snoc by (auto simp: segment_def)
    have p: "path_of ss nm = ?pre @ CHR ''/'' # t @ ''/..''" by (simp add: snoc True path_of_append)
    have "back_to_slash (?pre @ CHR ''/'' # t @ ''/..'') (length ?pre + length t) = length ?pre"
      using t by (intro back_to_slash_segment) auto
    then show ?thesis
      using t True unfolding p by (simp add: remove_trailing_dotdot_def Let_def snoc path_of_split numeral_eq_Suc nth_append)
  qed
qed

lemma remove_trailing_dot_path:
  assumes "list_all segment ss" "file_name nm"
  shows "remove_trailing_dot (path_of ss nm) =
    (if nm = ''.'' \<and> ss \<noteq> [] then path_of ss [] else path_of ss nm)"
proof (cases "nm = ''.'' \<and> ss \<noteq> []")
  case False
  then show ?thesis
    using assms(2) suffix_slash [of nm "''.''" "concat (map (Cons CHR ''/'') ss)"]
      suffix_drop_iff [of "''/.''" "path_of ss nm"]
    by (auto simp: remove_trailing_dot_def Let_def numeral_2_eq_2 path_of_split file_name_def)
next
  case True
  then show ?thesis by (cases ss) (auto simp: remove_trailing_dot_def Let_def path_of_split)
qed

text \<open>The tilde pass is one scan.\<close>

lemma tilde_id: "\<not> has ''%7E'' s \<Longrightarrow> tilde s = s"
  by (induction s) (auto simp: sublist_Cons_right)

lemma tilde_first:
  "\<not> has ''%7E'' (pre @ ''%7'') \<Longrightarrow>
     tilde (pre @ ''%7E'' @ rest) = pre @ CHR ''~'' # tilde rest \<and>
     tilde (pre @ CHR ''~'' # rest) = pre @ CHR ''~'' # tilde rest"
proof (induction pre)
  case Nil
  then show ?case by (simp add: numeral_2_eq_2)
next
  case (Cons c pre)
  then have np: "\<not> prefix ''%7E'' (c # pre @ ''%7'')" "\<not> has ''%7E'' (pre @ ''%7'')"
    by (auto simp: sublist_Cons_right)
  then have "\<not> prefix ''%7E'' (c # pre @ ''%7E'' @ rest)" "\<not> prefix ''%7E'' (c # pre @ CHR ''~'' # rest)"
    by (cases pre; cases "tl pre"; auto)+
  with Cons.IH [OF np(2)] show ?case by (simp only: append_Cons tilde.simps if_False)
qed

lemma c_strstr_Some_first:
  "c_strstr s pat = Some (a, b) \<Longrightarrow> pat \<noteq> [] \<Longrightarrow> \<not> has pat (a @ butlast pat)"
proof (induction s arbitrary: a)
  case (Cons c s)
  show ?case
  proof (cases "prefix pat (c # s)")
    case True
    have "\<not> has pat (butlast pat)" using Cons.prems(2) by (cases pat) (auto dest!: sublist_length_le)
    with True Cons.prems(1) show ?thesis by simp
  next
    case False
    then obtain a' where a: "a = c # a'" "c_strstr s pat = Some (a', b)" using Cons.prems(1) by auto
    from c_strstr_Some [OF this(2)] obtain r where "s = a' @ pat @ r" by (auto simp: prefix_def)
    then have "prefix (a @ butlast pat) (c # s)"
      using a(1) Cons.prems(2) by (simp add: prefix_def) (metis append.assoc append_Cons append_Nil append_butlast_last_id)
    with False have "\<not> prefix pat (a @ butlast pat)" by (blast intro: prefix_order.trans)
    with Cons.IH [OF a(2) Cons.prems(2)] a(1) show ?thesis by (auto simp: sublist_Cons_right)
  qed
qed simp

lemma replace_7E_tilde: "replace_7E s = tilde s"
  unfolding replace_7E_def
proof (induction "length s" arbitrary: s rule: less_induct)
  case less
  show ?case
  proof (cases "c_strstr s ''%7E''")
    case None
    then have "\<not> has ''%7E'' s" by (simp add: c_strstr_None_iff)
    with None show ?thesis by (subst strstr_loop.simps) (simp add: tilde_id)
  next
    case (Some x)
    obtain pre rest where x: "x = (pre, ''%7E'' @ rest)" "s = pre @ ''%7E'' @ rest"
      using c_strstr_Some [of s "''%7E''"] Some by (cases x) (auto simp: prefix_def)
    have f: "\<not> has ''%7E'' (pre @ ''%7'')" using c_strstr_Some_first [of s "''%7E''"] Some x(1) by simp
    have "strstr_loop ''%7E'' length ''~'' 3 s = strstr_loop ''%7E'' length ''~'' 3 (pre @ CHR ''~'' # rest)"
      using Some x(1) by (subst strstr_loop.simps) (simp add: numeral_3_eq_3)
    also have "\<dots> = tilde (pre @ CHR ''~'' # rest)" by (rule less) (simp add: x(2))
    also have "\<dots> = tilde s" using tilde_first [OF f, of rest] unfolding x(2) by simp
    finally show ?thesis .
  qed
qed

section \<open>The normaliser computes the reference\<close>

lemma list_all_butlast: "list_all P xs \<Longrightarrow> list_all P (butlast xs)"
  by (auto simp: list_all_iff dest: in_set_butlastD)

lemma resolve_parents_segments: "list_all P (stack @ ss) \<Longrightarrow> list_all P (resolve_parents stack ss)"
proof (induction ss arbitrary: stack)
  case (Cons s ss)
  then show ?case using Cons.IH [of "if s = ''..'' then butlast stack else stack @ [s]"] list_all_butlast [of P stack]
    by simp
qed simp

lemma path_no_query:
  "list_all segment ss \<Longrightarrow> file_name nm \<Longrightarrow> CHR ''?'' \<notin> set (path_of ss nm)"
  by (induction ss) (auto simp: segment_def file_name_def)

lemma normalize_segments_reference:
  assumes "list_all segment dirs" "file_name nm"
  shows "normalize_segments (path_of dirs nm) = reference_path dirs nm"
proof -
  define stack where "stack = resolve_parents [] dirs"
  define st where "st = (if nm = ''..'' then butlast stack else stack)"
  define nm1 where "nm1 = (if nm = ''..'' then [] else nm)"
  have "list_all segment stack" unfolding stack_def by (rule resolve_parents_segments) (use assms(1) in simp)
  then have st: "list_all segment stack" "list_all segment st" "list_all segment (filter (\<lambda>s. s \<noteq> ''.'') st)"
    using list_all_butlast [of segment stack] by (auto simp: st_def list_all_iff)
  have nm1: "file_name nm1" using assms(2) by (simp add: nm1_def file_name_def)
  let ?rest = "filter (\<lambda>s. s \<noteq> ''.'') st"
  let ?nm = "if nm1 = ''.'' \<and> ?rest \<noteq> [] then [] else nm1"
  have "remove_dotdot (path_of dirs nm) = path_of stack nm"
    using remove_dotdot_path [OF assms(2), of "[]" dirs] assms(1) by (simp add: stack_def)
  moreover have "remove_trailing_dotdot (path_of stack nm) = path_of st nm1"
    using remove_trailing_dotdot_path [OF st(1) assms(2)] by (simp add: st_def nm1_def)
  moreover have "remove_dot (path_of st nm1) = path_of ?rest nm1"
    using remove_dot_path [OF nm1, of "[]" st] st(2) by simp
  moreover have "remove_trailing_dot (path_of ?rest nm1) = path_of ?rest ?nm"
    using remove_trailing_dot_path [OF st(3) nm1] by simp
  moreover have "remove_double_slash (path_of ?rest ?nm) = path_of ?rest ?nm"
    using remove_double_slash_path [OF st(3)] nm1 by (simp add: file_name_def)
  ultimately have "normalize_segments (path_of dirs nm) = tilde (path_of ?rest ?nm)"
    by (simp add: normalize_segments_def replace_7E_tilde)
  also have "?nm = (if nm = ''..'' \<or> nm = ''.'' \<and> ?rest \<noteq> [] then [] else nm)" by (simp add: nm1_def)
  finally show ?thesis by (simp add: reference_path_def Let_def stack_def st_def)
qed

text \<open>
  C20. The path normaliser on a path of non-empty segments, with any file name and query string, is the
  reference: each ``..'' takes the segment before it away, or nothing at the top, a final ``..''
  as well; then the ``.'' segments go, a final ``.'' as well unless the path has come down to it, and
  each escaped tilde is replaced. The query string is kept as it is, an empty one is dropped.
\<close>

theorem DpsURLNormalizePath_reference:
  "list_all (\<lambda>s. s \<noteq> [] \<and> CHR ''/'' \<notin> set s \<and> CHR ''?'' \<notin> set s) dirs \<Longrightarrow>
   CHR ''/'' \<notin> set nm \<Longrightarrow> CHR ''?'' \<notin> set nm \<Longrightarrow>
   DpsURLNormalizePath (path_of dirs nm) = reference_path dirs nm \<and>
   DpsURLNormalizePath (path_of dirs nm @ CHR ''?'' # query) =
     reference_path dirs nm @ (if query = [] then [] else CHR ''?'' # query)"
proof -
  assume a: "list_all (\<lambda>s. s \<noteq> [] \<and> CHR ''/'' \<notin> set s \<and> CHR ''?'' \<notin> set s) dirs"
    "CHR ''/'' \<notin> set nm" "CHR ''?'' \<notin> set nm"
  then have s: "list_all segment dirs" "file_name nm" by (simp_all add: segment_def [abs_def] file_name_def)
  note q = path_no_query [OF s]
  from q have "c_strchr (path_of dirs nm) CHR ''?'' = None" by (simp add: c_strchr_None)
  moreover have "c_strchr (path_of dirs nm @ CHR ''?'' # query) CHR ''?'' = Some (path_of dirs nm, CHR ''?'' # query)"
    by (rule c_strchr_append [OF q])
  ultimately show ?thesis
    by (simp add: DpsURLNormalizePath_def normalize_segments_reference [OF s])
qed

theorem DpsURLNormalizePath_reference_witness:
  "DpsURLNormalizePath ''/../a/b/../../c/./%7Ed/e/..?x/../y'' = ''/c/~d/?x/../y'' \<and>
   DpsURLNormalizePath ''/a/./../b/.?'' = ''/a/b/''"
  using DpsURLNormalizePath_reference [of "[''..'', ''a'', ''b'', ''..'', ''..'', ''c'', ''.'', ''%7Ed'', ''e'']" "''..''" "''x/../y''"]
    DpsURLNormalizePath_reference [of "[''a'', ''.'', ''..'', ''b'']" "''.''" "[]"]
  by (simp add: reference_path_def Let_def numeral_2_eq_2)

end
