(* ===== verification/Dps_Str.thy ===== *)
theory Dps_Str
  imports Dps_Chars
begin

text \<open>
  The string routines of \<^verbatim>\<open>src/utils.c\<close>: trimming, the two tokenisers, removal of
  separator characters, the expansion of \<^verbatim>\<open>$n\<close> parameters, and the old parent-directory
  remover. Each works in place in the code; the model returns the string the buffer holds
  afterwards, and for a tokeniser also what \<^verbatim>\<open>*last\<close> points to.
\<close>

section \<open>Trimming\<close>

fun rtrim_len :: "string \<Rightarrow> string \<Rightarrow> nat \<Rightarrow> nat" where
  "rtrim_len p delim 0 = 0"
| "rtrim_len p delim (Suc len) = (if p ! len \<in> set delim then rtrim_len p delim len else Suc len)"

definition DpsRTrim :: "string \<Rightarrow> string \<Rightarrow> string" where
  "DpsRTrim p delim = take (rtrim_len p delim (length p)) p"

definition DpsTrim :: "string \<Rightarrow> string \<Rightarrow> string" where
  "DpsTrim p delim = dropWhile (\<lambda>c. c \<in> set delim) (DpsRTrim p delim)"

lemma rtrim_len_le: "rtrim_len p delim n \<le> n"
  by (induction n) auto

lemma DpsRTrim_Nil [simp]: "DpsRTrim [] delim = []"
  by (simp add: DpsRTrim_def)

lemma rtrim_len_append: "n \<le> length p \<Longrightarrow> rtrim_len (p @ q) delim n = rtrim_len p delim n"
  by (induction n) (auto simp: nth_append)

lemma DpsRTrim_snoc:
  "DpsRTrim (p @ [c]) delim = (if c \<in> set delim then DpsRTrim p delim else p @ [c])"
  using rtrim_len_le [of p delim "length p"]
  by (simp add: DpsRTrim_def rtrim_len_append nth_append)

lemma DpsRTrim_rev: "DpsRTrim p delim = rev (dropWhile (\<lambda>c. c \<in> set delim) (rev p))"
  by (induction p rule: rev_induct) (auto simp: DpsRTrim_snoc)

lemma DpsRTrim_prefix: "prefix (DpsRTrim p delim) p"
  by (simp add: DpsRTrim_def take_is_prefix)

section \<open>dps_strtok_r\<close>

text \<open>
  One call on the string \<open>s\<close> (the argument, or \<^verbatim>\<open>*last\<close> with the overwritten delimiter put
  back, which is not part of what the call reads): the token, what \<^verbatim>\<open>*last\<close> becomes, and the
  delimiter that was replaced by NUL (\<^verbatim>\<open>*save\<close>).
\<close>

fun strtok_span :: "string \<Rightarrow> string \<Rightarrow> string \<times> (char \<times> string) option" where
  "strtok_span delim [] = ([], None)"
| "strtok_span delim (c # s) =
     (if c \<in> set delim then ([], Some (c, s))
      else (case strtok_span delim s of (tok, r) \<Rightarrow> (c # tok, r)))"

definition dps_strtok_r :: "string \<Rightarrow> string \<Rightarrow> (string \<times> (char \<times> string) option) option" where
  "dps_strtok_r delim s =
    (case dropWhile (\<lambda>c. c \<in> set delim) s of
       [] \<Rightarrow> None
     | t \<Rightarrow> Some (strtok_span delim t))"

lemma strtok_span_eq:
  "strtok_span delim s =
     (takeWhile (\<lambda>c. c \<notin> set delim) s,
      case dropWhile (\<lambda>c. c \<notin> set delim) s of [] \<Rightarrow> None | c # r \<Rightarrow> Some (c, r))"
  by (induction s) auto

lemma strtok_span_length: "strtok_span delim s = (tok, Some (c, r)) \<Longrightarrow> length r < length s"
  by (induction s arbitrary: tok) (auto split: if_splits prod.splits)

text \<open>The caller's loop: all tokens of a string.\<close>

function strtok_all :: "string \<Rightarrow> string \<Rightarrow> string list" where
  "strtok_all delim s =
    (case dps_strtok_r delim s of
       None \<Rightarrow> []
     | Some (tok, None) \<Rightarrow> [tok]
     | Some (tok, Some (c, r)) \<Rightarrow> tok # strtok_all delim r)"
  by pat_completeness auto
termination
proof (relation "measure (\<lambda>(delim, s). length s)", goal_cases)
  case (2 delim s x tok y p c r)
  then have "strtok_span delim (dropWhile (\<lambda>c. c \<in> set delim) s) = (tok, Some (c, r))"
    by (auto simp: dps_strtok_r_def split: list.splits)
  then have "length r < length (dropWhile (\<lambda>c. c \<in> set delim) s)"
    by (rule strtok_span_length)
  also have "\<dots> \<le> length s" by (rule length_dropWhile_le)
  finally show ?case by simp
qed simp

declare strtok_all.simps [simp del]

section \<open>DpsGetStrToken\<close>

text \<open>
  The tokeniser for configuration lines: words, and tokens quoted with \<open>'\<close> or \<open>"\<close>. The
  loop over the token, with the characters already kept; \<open>lch\<close> is the character that ends it (a
  space stands for any white space). A backslash before \<open>lch\<close> is deleted in place and the next
  character is kept.
\<close>

fun str_token_loop :: "char \<Rightarrow> string \<Rightarrow> string \<Rightarrow> string \<times> string option" where
  "str_token_loop lch acc [] = (acc, None)"
| "str_token_loop lch acc (c # s) =
     (if c = CHR 0x5C then
        (case s of
           d # s' \<Rightarrow> if d = lch then str_token_loop lch (acc @ [d]) s'
                    else str_token_loop lch (acc @ [c]) s
         | [] \<Rightarrow> str_token_loop lch (acc @ [c]) s)
      else if c = CHR 0x22 \<or> c = CHR 0x27 then
        (if lch = c then (acc, Some s) else str_token_loop lch (acc @ [c]) s)
      else if c = CHR '' '' \<or> c = CHR 0x0D \<or> c = CHR 0x0A \<or> c = CHR 0x09 then
        (if lch = CHR '' '' then (acc, Some s) else str_token_loop lch (acc @ [c]) s)
      else str_token_loop lch (acc @ [c]) s)"

definition DpsGetStrToken :: "string \<Rightarrow> (string \<times> string option) option" where
  "DpsGetStrToken s =
    (case dropWhile (\<lambda>c. c \<in> set [CHR '' '', CHR 0x0D, CHR 0x0A, CHR 0x09]) s of
       [] \<Rightarrow> None
     | c # t \<Rightarrow>
         if c = CHR 0x27 \<or> c = CHR 0x22 then Some (str_token_loop c [] t)
         else Some (str_token_loop (CHR '' '') [] (c # t)))"

section \<open>Removing separators\<close>

text \<open>
  \<^verbatim>\<open>DpsStrRemoveChars\<close> and \<^verbatim>\<open>DpsStrRemoveDoubleChars\<close> remember the start of a run of
  separators (\<open>has_sep\<close>) and close the gap at the next other character; \<open>acc\<close> is the buffer
  up to \<^verbatim>\<open>e\<close> or up to \<^verbatim>\<open>s\<close>.
\<close>

fun remove_chars_loop :: "string \<Rightarrow> bool \<Rightarrow> string \<Rightarrow> string \<Rightarrow> string" where
  "remove_chars_loop sep has_sep acc [] = acc"
| "remove_chars_loop sep has_sep acc (c # s) =
     (if c \<in> set sep then remove_chars_loop sep True acc s
      else remove_chars_loop sep False (acc @ [c]) s)"

definition DpsStrRemoveChars :: "string \<Rightarrow> string \<Rightarrow> string" where
  "DpsStrRemoveChars str sep = remove_chars_loop sep False [] str"

fun remove_double_loop :: "string \<Rightarrow> bool \<Rightarrow> string \<Rightarrow> string \<Rightarrow> string" where
  "remove_double_loop sep has_sep acc [] = acc"
| "remove_double_loop sep has_sep acc (c # s) =
     (if c \<in> set sep then remove_double_loop sep True acc s
      else remove_double_loop sep False ((if has_sep then acc @ '' '' else acc) @ [c]) s)"

definition DpsStrRemoveDoubleChars :: "string \<Rightarrow> string \<Rightarrow> string" where
  "DpsStrRemoveDoubleChars str sep =
     remove_double_loop sep False [] (dropWhile (\<lambda>c. c \<in> set sep) str)"

definition uni_is_space :: "u32 \<Rightarrow> bool" where
  "uni_is_space u \<longleftrightarrow> u = 0x20 \<or> u = 0x09 \<or> u = 0x0D \<or> u = 0x0A \<or> u = 0xA0"

fun uni_double_loop :: "bool \<Rightarrow> ustring \<Rightarrow> ustring \<Rightarrow> ustring" where
  "uni_double_loop addspace e [] = e"
| "uni_double_loop addspace e (u # us) =
     (if uni_is_space u then uni_double_loop True e us
      else uni_double_loop False ((if addspace \<and> e \<noteq> [] then e @ [0x20] else e) @ [u]) us)"

definition DpsUniRemoveDoubleSpaces :: "ustring \<Rightarrow> ustring" where
  "DpsUniRemoveDoubleSpaces ustr = uni_double_loop False [] ustr"

section \<open>Parameters and parents\<close>

text \<open>
  \<^verbatim>\<open>DpsBuildParamStr\<close> with a destination of \<open>len\<close> bytes: \<open>d\<close> is what has been written,
  its length the code's \<^verbatim>\<open>curlen\<close>. Running out of room ends the loop with what is there.
\<close>

function (sequential) build_param_loop :: "nat \<Rightarrow> string list \<Rightarrow> string \<Rightarrow> string \<Rightarrow> string" where
  "build_param_loop len argv d [] = d"
| "build_param_loop len argv d (c # s) =
     (if c = CHR ''$'' then
        (let argn = c_atoi s; s' = dropWhile c_isdigit s in
         if argn \<le> int (length argv) \<and> 0 < argn then
           (let arg = argv ! nat (argn - 1) in
            if length arg + length d + 1 < len then build_param_loop len argv (d @ arg) s' else d)
         else build_param_loop len argv d s')
      else if c = CHR 0x5C then
        (case s of
           [] \<Rightarrow> d
         | x # s' \<Rightarrow> if length d + 2 < len then build_param_loop len argv (d @ [x]) s' else d)
      else if length d + 2 < len then build_param_loop len argv (d @ [c]) s else d)"
  by pat_completeness auto
termination
  by (relation "measure (\<lambda>(len, argv, d, s). length s)") (auto simp: le_imp_less_Suc length_dropWhile_le)

definition DpsBuildParamStr :: "nat \<Rightarrow> string \<Rightarrow> string list \<Rightarrow> string" where
  "DpsBuildParamStr len src argv = build_param_loop len argv [] src"

function DpsRemove2Dot :: "string \<Rightarrow> string" where
  "DpsRemove2Dot path =
    (case c_strstr path ''../'' of
       None \<Rightarrow> path
     | Some (pre, d) \<Rightarrow>
         if pre = [] then path
         else
           (let tail = drop 2 d;
                head = (case c_strrchr (butlast pre) CHR ''/'' of None \<Rightarrow> [] | Some (h, _) \<Rightarrow> h)
            in DpsRemove2Dot (head @ tail)))"
  by pat_completeness auto
termination
proof (relation "measure length", goal_cases)
  case (2 path x pre d tail head)
  then have "length d \<ge> 3" "length pre + length d = length path"
    by (auto dest!: c_strstr_length)
  moreover have "length head \<le> length pre"
    using 2 by (auto split: option.splits dest!: c_strrchr_Some)
      (metis le_add1 length_append length_butlast diff_le_self order_trans)
  ultimately show ?case using 2 by (simp add: Let_def)
qed simp

declare DpsRemove2Dot.simps [simp del]

section \<open>What the routines compute\<close>

fun words_by :: "('c \<Rightarrow> bool) \<Rightarrow> 'c list \<Rightarrow> 'c list \<Rightarrow> 'c list list" where
  "words_by sep w [] = (if w = [] then [] else [w])"
| "words_by sep w (c # s) =
     (if sep c then (if w = [] then words_by sep [] s else w # words_by sep [] s)
      else words_by sep (w @ [c]) s)"

fun join_with :: "'c \<Rightarrow> 'c list list \<Rightarrow> 'c list" where
  "join_with x [] = []"
| "join_with x [w] = w"
| "join_with x (w # ws) = w @ x # join_with x ws"

lemma join_with_Cons: "ws \<noteq> [] \<Longrightarrow> join_with x (w # ws) = w @ x # join_with x ws"
  by (cases ws) auto

lemma words_by_dropWhile: "words_by sep [] (dropWhile sep s) = words_by sep [] s"
  by (induction s) auto

lemma words_by_takeWhile:
  "takeWhile (\<lambda>c. \<not> sep c) s \<noteq> [] \<or> w \<noteq> [] \<Longrightarrow>
     words_by sep w s = (w @ takeWhile (\<lambda>c. \<not> sep c) s) #
       (case dropWhile (\<lambda>c. \<not> sep c) s of [] \<Rightarrow> [] | c # r \<Rightarrow> words_by sep [] r)"
  by (induction s arbitrary: w) auto

lemma strtok_all_words: "strtok_all delim s = words_by (\<lambda>c. c \<in> set delim) [] s"
proof (induction delim s rule: strtok_all.induct)
  case (1 delim s)
  let ?sep = "\<lambda>c. c \<in> set delim"
  let ?t = "dropWhile ?sep s"
  show ?case
  proof (cases ?t)
    case Nil
    then show ?thesis
      using words_by_dropWhile [of ?sep s]
      by (subst strtok_all.simps) (simp add: dps_strtok_r_def del: dropWhile_eq_Nil_conv)
  next
    case (Cons c t)
    then have c: "c \<notin> set delim" by (metis hd_dropWhile list.distinct(1) list.sel(1))
    have "words_by ?sep [] s = words_by ?sep [] ?t" by (simp only: words_by_dropWhile)
    also have "\<dots> = takeWhile (\<lambda>c. c \<notin> set delim) ?t #
        (case dropWhile (\<lambda>c. c \<notin> set delim) ?t of [] \<Rightarrow> [] | c # r \<Rightarrow> words_by ?sep [] r)"
      using words_by_takeWhile [of ?sep ?t "[]"] Cons c by simp
    also have "\<dots> = strtok_all delim s"
    proof (cases "dropWhile (\<lambda>c. c \<notin> set delim) ?t")
      case Nil
      then show ?thesis
        by (subst strtok_all.simps) (simp add: dps_strtok_r_def strtok_span_eq Cons)
    next
      case (Cons x r)
      have d: "dps_strtok_r delim s = Some (takeWhile (\<lambda>c. c \<notin> set delim) ?t, Some (x, r))"
        using Cons \<open>?t = c # t\<close> by (simp add: dps_strtok_r_def strtok_span_eq)
      show ?thesis
        using 1 [OF d refl refl refl] Cons by (simp add: strtok_all.simps [of delim s] d)
    qed
    finally show ?thesis by simp
  qed
qed

lemma words_by_nonempty: "w \<noteq> [] \<Longrightarrow> words_by sep w s \<noteq> []"
  by (induction s arbitrary: w) auto

lemma remove_double_loop_words:
  "w \<noteq> [] \<Longrightarrow> remove_double_loop sep False (acc @ w) s =
     acc @ join_with CHR '' '' (words_by (\<lambda>c. c \<in> set sep) w s)"
  "remove_double_loop sep True acc s =
     acc @ (let ws = words_by (\<lambda>c. c \<in> set sep) [] s in
            if ws = [] then [] else CHR '' '' # join_with CHR '' '' ws)"
proof (induction s arbitrary: acc w)
  case (Cons c s)
  {
    case 1
    with Cons.IH(1) [of "w @ [c]" acc] Cons.IH(2) [of "acc @ w"] show ?case
      by (auto simp: Let_def join_with_Cons)
  next
    case 2
    with Cons.IH(1) [of "[c]" "acc @ '' ''"] Cons.IH(2) [of acc] show ?case
      by (auto simp: Let_def words_by_nonempty)
  }
qed auto

lemma uni_double_loop_words:
  "w \<noteq> [] \<Longrightarrow> uni_double_loop False (acc @ w) s = acc @ join_with 0x20 (words_by uni_is_space w s)"
  "acc \<noteq> [] \<Longrightarrow> uni_double_loop True acc s =
     acc @ (let ws = words_by uni_is_space [] s in if ws = [] then [] else 0x20 # join_with 0x20 ws)"
proof (induction s arbitrary: acc w)
  case (Cons c s)
  {
    case 1
    with Cons.IH(1) [of "w @ [c]" acc] Cons.IH(2) [of "acc @ w"] show ?case
      by (auto simp: Let_def join_with_Cons)
  next
    case 2
    with Cons.IH(1) [of "[c]" "acc @ [0x20]"] Cons.IH(2) [of acc] show ?case
      by (auto simp: Let_def words_by_nonempty)
  }
qed auto

lemma uni_double_loop_leading:
  "uni_double_loop sp [] s = join_with 0x20 (words_by uni_is_space [] s)"
proof (induction s arbitrary: sp)
  case (Cons c s)
  then show ?case
    using uni_double_loop_words(1) [of "[c]" "[]" s] by simp
qed simp

lemma remove_chars_loop_filter:
  "remove_chars_loop sep has_sep acc s = acc @ filter (\<lambda>c. c \<notin> set sep) s"
  by (induction s arbitrary: has_sep acc) auto

lemma build_param_loop_bound:
  "d = [] \<or> length d + 1 < len \<Longrightarrow>
     build_param_loop len argv d s = [] \<or> length (build_param_loop len argv d s) + 1 < len"
proof (induction len argv d s rule: build_param_loop.induct)
  case (2 len argv d c s)
  let ?argn = "c_atoi s"
  consider (dollar) "c = CHR ''$''" | (bs) "c \<noteq> CHR ''$''" "c = CHR 0x5C"
    | (plain) "c \<noteq> CHR ''$''" "c \<noteq> CHR 0x5C" by blast
  then show ?case
  proof cases
    case dollar
    show ?thesis
    proof (cases "?argn \<le> int (length argv) \<and> 0 < ?argn")
      case True
      let ?a = "argv ! nat (?argn - 1)"
      show ?thesis
      proof (cases "length ?a + length d + 1 < len")
        case fits: True
        then have "d @ ?a = [] \<or> length (d @ ?a) + 1 < len" by simp
        from 2(1) [OF dollar refl refl True refl fits this] show ?thesis
          using dollar True fits by (simp add: Let_def)
      next
        case False
        then show ?thesis using dollar True 2(5) by (simp add: Let_def)
      qed
    next
      case False
      then have "build_param_loop len argv d (c # s) = build_param_loop len argv d (dropWhile c_isdigit s)"
        using dollar by (auto simp: Let_def)
      with 2(2) [OF dollar refl refl False 2(5)] show ?thesis by metis
    qed
  next
    case bs
    then show ?thesis using 2(3) [OF bs] 2(5) by (cases s) auto
  next
    case plain
    then show ?thesis using 2(4) [OF plain] 2(5) by auto
  qed
qed simp

section \<open>Properties\<close>

text \<open>
  \<^verbatim>\<open>DpsStrRemoveDoubleChars\<close> yields the tokens that \<^verbatim>\<open>dps_strtok_r\<close> finds with the
  same separators, joined by single spaces: leading and trailing separators go, each inner run
  becomes one space, and no other character is touched.
\<close>

theorem DpsStrRemoveDoubleChars_tokens:
  "DpsStrRemoveDoubleChars str sep = join_with CHR '' '' (strtok_all sep str)"
proof (cases "dropWhile (\<lambda>c. c \<in> set sep) str")
  case Nil
  then have "words_by (\<lambda>c. c \<in> set sep) [] str = []"
    using words_by_dropWhile [of "\<lambda>c. c \<in> set sep" str] by (simp del: dropWhile_eq_Nil_conv)
  with Nil show ?thesis
    by (simp add: DpsStrRemoveDoubleChars_def strtok_all_words del: dropWhile_eq_Nil_conv)
next
  case (Cons c t)
  then have "c \<notin> set sep" by (metis hd_dropWhile list.distinct(1) list.sel(1))
  with Cons show ?thesis
    using words_by_dropWhile [of "\<lambda>c. c \<in> set sep" str] remove_double_loop_words(1) [of "[c]" sep "[]" t]
    by (simp add: DpsStrRemoveDoubleChars_def strtok_all_words)
qed

text \<open>
  \<^verbatim>\<open>DpsUniRemoveDoubleSpaces\<close> splits the text at white space (no-break space included) and
  joins the words with single spaces.
\<close>

theorem DpsUniRemoveDoubleSpaces_words:
  "DpsUniRemoveDoubleSpaces ustr = join_with 0x20 (words_by uni_is_space [] ustr)"
  by (simp add: DpsUniRemoveDoubleSpaces_def uni_double_loop_leading)

text \<open>
  Expanding \<open>$n\<close> parameters never overruns the destination of \<open>len\<close> bytes, whatever the
  template and the arguments: the result is empty or leaves room for its terminator.
\<close>

theorem DpsBuildParamStr_bound:
  "DpsBuildParamStr len src argv = [] \<or> length (DpsBuildParamStr len src argv) + 1 < len"
  unfolding DpsBuildParamStr_def by (rule build_param_loop_bound) simp

text \<open>The quoting that \<^verbatim>\<open>DpsGetStrToken\<close> undoes: a backslash before each quote.\<close>

fun quote_esc :: "char \<Rightarrow> string \<Rightarrow> string" where
  "quote_esc q [] = []"
| "quote_esc q (c # s) = (if c = q then CHR 0x5C # c # quote_esc q s else c # quote_esc q s)"

lemma str_token_loop_quoted:
  assumes "q = CHR 0x22 \<or> q = CHR 0x27"
  shows "(t = [] \<or> last t \<noteq> CHR 0x5C) \<Longrightarrow>
     str_token_loop q acc (quote_esc q t @ q # r) = (acc @ t, Some r)"
proof (induction t arbitrary: acc)
  case Nil
  then show ?case using assms by auto
next
  case (Cons c t)
  have l: "t = [] \<or> last t \<noteq> CHR 0x5C" using Cons.prems by auto
  show ?case
  proof (cases "c = CHR 0x5C")
    case True
    with Cons.prems assms have "t \<noteq> []" by auto
    then have "\<exists>d v. quote_esc q t = d # v \<and> d \<noteq> q"
      using assms by (cases t) auto
    then obtain d v where "quote_esc q t = d # v" and "d \<noteq> q" by blast
    with True assms Cons.IH [OF l, of "acc @ [c]"] show ?thesis by auto
  next
    case False
    with assms Cons.IH [OF l, of "acc @ [c]"] show ?thesis by auto
  qed
qed

text \<open>
  A configuration argument written between quotes, with a backslash before each quote inside,
  is read back by \<^verbatim>\<open>DpsGetStrToken\<close> unchanged, and parsing goes on after the closing quote.
  A backslash as its last character is the one thing that cannot be written.
\<close>

theorem DpsGetStrToken_quoted:
  assumes "q = CHR 0x22 \<or> q = CHR 0x27" and "t = [] \<or> last t \<noteq> CHR 0x5C"
  shows "DpsGetStrToken (q # quote_esc q t @ q # r) = Some (t, Some r)"
  using str_token_loop_quoted [OF assms, of "[]" r] assms(1)
  by (auto simp: DpsGetStrToken_def)

theorem DpsGetStrToken_quoted_witness:
  "DpsGetStrToken (CHR 0x27 # quote_esc CHR 0x27 [CHR 0x69, CHR 0x27, CHR 0x73] @ CHR 0x27 # '' next'') =
     Some ([CHR 0x69, CHR 0x27, CHR 0x73], Some '' next'')"
  using DpsGetStrToken_quoted [of "CHR 0x27" "[CHR 0x69, CHR 0x27, CHR 0x73]" "'' next''"] by simp

end
