(* ===== verification/Dps_UrlParse.thy ===== *)
theory Dps_UrlParse
  imports Dps_Url Dps_Str
begin

text \<open>
  \<^verbatim>\<open>DpsURLParse\<close> (\<^verbatim>\<open>src/url.c\<close>), which splits a URL into the fields of \<^verbatim>\<open>DPS_URL\<close>,
  and the part of \<^verbatim>\<open>RelLink\<close> that resolves a parsed reference against a parsed base, for
  \<^verbatim>\<open>ReverseAliasFlag = 0\<close>. A NULL field is \<open>None\<close>. A URL that is refused
  (\<^verbatim>\<open>DPS_URL_BAD\<close>) is \<open>Inl URL_BAD\<close>; what the code leaves in the structure then is not kept.
\<close>

section \<open>The structure\<close>

datatype url_error = URL_BAD

record dps_url =
  u_schema :: "string option"
  u_specific :: "string option"
  u_hostinfo :: "string option"
  u_auth :: "string option"
  u_hostname :: "string option"
  u_path :: "string option"
  u_directory :: "string option"
  u_filename :: "string option"
  u_anchor :: "string option"
  u_query_string :: "string option"
  u_port :: int
  u_default_port :: int
  u_charset_id :: int
  u_domain_level :: nat
  u_len :: nat

text \<open>What the call resets first; the character set and the domain level are left alone.\<close>

definition url_reset :: "dps_url \<Rightarrow> dps_url" where
  "url_reset u = u\<lparr>u_schema := None, u_specific := None, u_hostinfo := None, u_hostname := None,
     u_anchor := None, u_auth := None, u_port := 0, u_default_port := 0, u_path := None,
     u_directory := None, u_filename := None, u_query_string := None\<rparr>"

section \<open>The steps of DpsURLParse\<close>

text \<open>The schema and what follows its colon, when all before the first colon is alphanumeric.\<close>

definition split_schema :: "string \<Rightarrow> (string \<times> string) option" where
  "split_schema s =
    (case c_strchr s CHR '':'' of
       None \<Rightarrow> None
     | Some (pre, rest) \<Rightarrow> if list_all c_isalnum pre then Some (pre, tl rest) else None)"

definition schema_default_port :: "string \<Rightarrow> int" where
  "schema_default_port schema =
    (if c_strcaseeq schema ''http'' then 80
     else if c_strcaseeq schema ''https'' then 443
     else if c_strcaseeq schema ''nntp'' then 119
     else if c_strcaseeq schema ''news'' then 119
     else if c_strcaseeq schema ''ftp'' then 21
     else 0)"

text \<open>
  The authority, for \<open>s2\<close> the text after the two slashes: host information up to the first slash
  or question mark, the path, the part before the last \<open>@\<close>, the host name and the port. The code
  has this block twice, with and without a schema.
\<close>

definition parse_authority :: "dps_url \<Rightarrow> string \<Rightarrow> dps_url" where
  "parse_authority u s2 =
    (let (hostinfo, path) =
           (case c_strchr s2 CHR ''/'' of
              Some (h, p) \<Rightarrow> (h, p)
            | None \<Rightarrow>
                (case c_strchr s2 CHR ''?'' of
                   Some (h, _) \<Rightarrow> (h, ''/'')
                 | None \<Rightarrow> (s2, ''/'')));
         (auth, host) =
           (case c_strrchr hostinfo CHR ''@'' of
              Some (a, h) \<Rightarrow> (Some a, tl h)
            | None \<Rightarrow> (None, hostinfo));
         (hostname, port) =
           (case c_strchr host CHR '':'' of
              Some (h, p) \<Rightarrow> (h, c_atoi (tl p))
            | None \<Rightarrow> (host, 0))
     in u\<lparr>u_hostinfo := Some hostinfo, u_path := Some path, u_auth := auth,
          u_hostname := Some hostname, u_port := port\<rparr>)"

text \<open>A schema without an authority.\<close>

definition parse_no_host :: "dps_url \<Rightarrow> string \<Rightarrow> string \<Rightarrow> url_error + dps_url" where
  "parse_no_host u schema specific =
    (if c_strcaseeq schema ''mailto'' \<or> c_strcaseeq schema ''javascript'' \<or> c_strcaseeq schema ''feed''
     then Inl URL_BAD
     else if c_strcaseeq schema ''file'' then Inr (u\<lparr>u_path := Some specific\<rparr>)
     else if c_strcaseeq schema ''exec'' then Inr (u\<lparr>u_path := Some specific\<rparr>)
     else if c_strcaseeq schema ''cgi'' then Inr (u\<lparr>u_path := Some specific\<rparr>)
     else if c_strcaseeq schema ''htdb'' then Inr (u\<lparr>u_path := Some specific\<rparr>)
     else if c_strcaseeq schema ''news''
     then Inr (u\<lparr>u_hostname := Some ''localhost'', u_path := Some (CHR ''/'' # specific), u_default_port := 119\<rparr>)
     else Inl URL_BAD)"

definition parse_schema_host :: "dps_url \<Rightarrow> string \<Rightarrow> url_error + dps_url" where
  "parse_schema_host u s =
    (case split_schema s of
       Some (schema, specific) \<Rightarrow>
         (let u1 = u\<lparr>u_schema := Some schema, u_specific := Some specific,
                     u_default_port := schema_default_port schema\<rparr> in
          if take 2 specific = ''//'' then Inr (parse_authority u1 (drop 2 specific))
          else parse_no_host u1 schema specific)
     | None \<Rightarrow>
         if take 2 s = ''//''
         then Inr (parse_authority (u\<lparr>u_specific := Some s\<rparr>) (drop 2 s))
         else Inr (u\<lparr>u_path := Some s\<rparr>))"

text \<open>The anchor is cut off the path, with its \<open>#\<close>.\<close>

definition cut_anchor :: "dps_url \<Rightarrow> string \<Rightarrow> dps_url \<times> string" where
  "cut_anchor u path =
    (case c_strchr path CHR ''#'' of
       Some (p, a) \<Rightarrow> (u\<lparr>u_anchor := Some a\<rparr>, p)
     | None \<Rightarrow> (u, path))"

text \<open>A path that is not full goes to the file name.\<close>

definition cut_relative :: "dps_url \<Rightarrow> string \<Rightarrow> dps_url \<times> string" where
  "cut_relative u path =
    (if path \<noteq> [] \<and> char_at path 0 \<noteq> CHR ''/'' \<and> char_at path 0 \<noteq> CHR ''?'' \<and> char_at path 1 \<noteq> CHR '':''
     then (u\<lparr>u_filename := Some (if take 2 path = ''./'' then drop 2 path else path)\<rparr>, [])
     else (u, path))"

text \<open>The query string: from the last \<open>?\<close> of the path, else of the specific part.\<close>

definition cut_query :: "dps_url \<Rightarrow> string \<Rightarrow> dps_url \<times> string" where
  "cut_query u path =
    (case c_strrchr path CHR ''?'' of
       Some (p, q) \<Rightarrow> (u\<lparr>u_query_string := Some q\<rparr>, p)
     | None \<Rightarrow>
         (case c_strrchr (case u_specific u of None \<Rightarrow> [] | Some sp \<Rightarrow> sp) CHR ''?'' of
            Some (_, q) \<Rightarrow> (u\<lparr>u_query_string := Some q\<rparr>, path)
          | None \<Rightarrow> (u, path)))"

definition cut_filename :: "dps_url \<Rightarrow> string \<Rightarrow> dps_url \<times> string" where
  "cut_filename u path =
    (case c_strrchr path CHR ''/'' of
       Some (p, f) \<Rightarrow> if f \<noteq> ''/'' then (u\<lparr>u_filename := Some (tl f)\<rparr>, p @ ''/'') else (u, path)
     | None \<Rightarrow> (u, path))"

text \<open>
  The backward scan for the last directory name, from the position before the last slash (at
  position \<open>k\<close>) down to a slash or to the start, then one forward.
\<close>

fun directory_start :: "string \<Rightarrow> nat \<Rightarrow> nat" where
  "directory_start path 0 = 0"
| "directory_start path (Suc file) =
     (if 0 < file \<and> path ! file \<noteq> CHR ''/'' then directory_start path file else Suc file)"

definition set_directory :: "dps_url \<Rightarrow> string \<Rightarrow> dps_url" where
  "set_directory u path =
    (case c_strrchr path CHR ''/'' of
       Some (p, _) \<Rightarrow> u\<lparr>u_directory := Some (drop (directory_start path (length p)) p)\<rparr>
     | None \<Rightarrow> u)"

text \<open>
  The host name loses trailing dots and is lower-cased in place while its labels are counted; a
  quote, a comma or a semicolon refuses the URL.
\<close>

fun scan_hostname :: "string \<Rightarrow> nat \<Rightarrow> (string \<times> nat) option" where
  "scan_hostname [] level = Some ([], level)"
| "scan_hostname (c # s) level =
    (let d = dps_tolower c;
         level' = (if d = CHR ''.'' then level + 1 else level) in
     if d \<in> {CHR '','', CHR 0x27, CHR 0x22, CHR '';''} then None
     else map_option (\<lambda>(t, l). (d # t, l)) (scan_hostname s level'))"

definition finish_hostname :: "dps_url \<Rightarrow> url_error + dps_url" where
  "finish_hostname u =
    (case u_hostname u of
       None \<Rightarrow> Inr u
     | Some h \<Rightarrow>
         (case scan_hostname (DpsRTrim h ''.'') 1 of
            None \<Rightarrow> Inl URL_BAD
          | Some (h', level) \<Rightarrow> Inr (u\<lparr>u_hostname := Some h', u_domain_level := level\<rparr>)))"

definition lower_hostinfo :: "string \<Rightarrow> string" where
  "lower_hostinfo h =
    (let h = DpsRTrim h ''.'' in
     case c_strrchr h CHR ''@'' of
       None \<Rightarrow> dps_strtolower h
     | Some (a, r) \<Rightarrow> a @ CHR ''@'' # dps_strtolower (tl r))"

definition DpsURLParse :: "dps_url \<Rightarrow> string \<Rightarrow> url_error + dps_url" where
  "DpsURLParse url s =
    (case parse_schema_host (url_reset url\<lparr>u_len := length s\<rparr>) s of
       Inl e \<Rightarrow> Inl e
     | Inr u1 \<Rightarrow>
         (let path = (case u_path u1 of None \<Rightarrow> [] | Some p \<Rightarrow> p);
              (u2, path) = cut_anchor u1 path;
              (u3, path) = cut_relative u2 path;
              (u4, path) = cut_query u3 path;
              path = DpsURLNormalizePath path;
              (u5, path) = cut_filename u4 path;
              u6 = set_directory (u5\<lparr>u_path := Some path\<rparr>) path
          in case finish_hostname u6 of
               Inl e \<Rightarrow> Inl e
             | Inr u7 \<Rightarrow>
                 Inr (u7\<lparr>u_hostinfo := map_option lower_hostinfo (u_hostinfo u7),
                         u_schema := map_option dps_strtolower (u_schema u7)\<rparr>)))"

section \<open>RelLink\<close>

definition null2empty :: "string option \<Rightarrow> string" where
  "null2empty p = (case p of None \<Rightarrow> [] | Some s \<Rightarrow> s)"

abbreviation nonempty_opt :: "string option \<Rightarrow> bool" where
  "nonempty_opt p \<equiv> null2empty p \<noteq> []"

definition rel_pathfile :: "dps_url \<Rightarrow> dps_url \<Rightarrow> bool \<Rightarrow> string" where
  "rel_pathfile curURL newURL ConfFlag =
    (let path = (if nonempty_opt (u_path newURL) then u_path newURL else u_path curURL);
         fname = (if nonempty_opt (u_filename newURL) \<or> nonempty_opt (u_path newURL)
                  then u_filename newURL else u_filename curURL);
         query_string = (if u_query_string newURL \<noteq> None \<or> \<not> ConfFlag
                         then u_query_string newURL else u_query_string curURL)
     in DpsURLNormalizePath
          (CHR ''/'' # null2empty path @ null2empty fname @ null2empty query_string @
           null2empty (u_anchor newURL)))"

text \<open>The string the reference resolves to, and the character set the new URL takes over.\<close>

definition RelLink :: "dps_url \<Rightarrow> dps_url \<Rightarrow> bool \<Rightarrow> dps_url \<times> string" where
  "RelLink curURL newURL ConfFlag =
    (let schema = null2empty (if u_schema newURL \<noteq> None then u_schema newURL else u_schema curURL);
         hostname = null2empty (if u_hostname newURL \<noteq> None then u_hostname newURL else u_hostname curURL);
         auth = (if u_hostname newURL = None
                 then (if u_auth newURL \<noteq> None then u_auth newURL else u_auth curURL)
                 else u_auth newURL);
         newURL' = (if u_hostinfo newURL = None then newURL\<lparr>u_charset_id := u_charset_id curURL\<rparr> else newURL);
         pathfile = rel_pathfile curURL newURL ConfFlag;
         str =
           (if c_strcaseeq schema ''mailto'' \<or> c_strcaseeq schema ''javascript'' \<or> c_strcaseeq schema ''feed''
            then schema @ '':'' @ null2empty (u_specific newURL)
            else if c_strcaseeq schema ''htdb'' then schema @ '':'' @ pathfile
            else schema @ ''://'' @ (case auth of None \<Rightarrow> [] | Some a \<Rightarrow> a @ ''@'') @ hostname @ pathfile);
         str = (if take 6 str = ''ftp://'' \<and> c_strstr str '';type='' \<noteq> None
                then (case c_strstr str '';type'' of Some (a, _) \<Rightarrow> a | None \<Rightarrow> str) else str);
         str = (case c_strchr str CHR ''#'' of Some (a, _) \<Rightarrow> a | None \<Rightarrow> str)
     in (newURL', str))"

section \<open>Lemmas\<close>

abbreviation bad_host_char :: "char \<Rightarrow> bool" where
  "bad_host_char c \<equiv> c \<in> {CHR '','', CHR 0x27, CHR 0x22, CHR '';''}"

lemma dps_tolower_bad: "bad_host_char (dps_tolower c) \<longleftrightarrow> bad_host_char c"
  by (simp add: dps_tolower_eq_iff c_islower_def c_isupper_def)

lemma dps_tolower_dot: "dps_tolower c = CHR ''.'' \<longleftrightarrow> c = CHR ''.''"
  by (simp add: dps_tolower_eq_iff c_islower_def c_isupper_def)

lemma scan_hostname_eq:
  "scan_hostname s n =
     (if list_ex bad_host_char s then None
      else Some (map dps_tolower s, n + length (filter (\<lambda>c. c = CHR ''.'') s)))"
proof (induction s arbitrary: n)
  case (Cons c s)
  then show ?case
    using dps_tolower_bad [of c] by (auto simp: Let_def dps_tolower_dot)
qed simp

lemma DpsRTrim_last: "DpsRTrim p delim \<noteq> [] \<Longrightarrow> last (DpsRTrim p delim) \<notin> set delim"
proof (induction p rule: rev_induct)
  case (snoc c p)
  then show ?case by (auto simp: DpsRTrim_snoc split: if_splits)
qed simp

lemma DpsRTrim_id: "p = [] \<or> last p \<notin> set delim \<Longrightarrow> DpsRTrim p delim = p"
  by (cases p rule: rev_cases) (auto simp: DpsRTrim_snoc)

lemma dps_tolower_not_upper: "\<not> c_isupper (dps_tolower c)"
  by (auto simp: ord_dps_tolower c_isupper_def)

text \<open>A run of ordinary characters is not split by the searches for separators.\<close>

lemma split_schema_scheme:
  "list_all c_isalnum schema \<Longrightarrow> split_schema (schema @ CHR '':'' # r) = Some (schema, r)"
proof -
  assume a: "list_all c_isalnum schema"
  then have "CHR '':'' \<notin> set schema"
    by (auto simp: list_all_iff ctype_defs)
  then show ?thesis
    using a c_strchr_append [of "CHR '':''" schema r] by (simp add: split_schema_def)
qed

lemma parse_authority_port:
  assumes "CHR ''/'' \<notin> set (host @ pt)" "CHR ''@'' \<notin> set (host @ pt)" "CHR '':'' \<notin> set host"
  shows "parse_authority u (host @ '':'' @ pt @ CHR ''/'' # p) =
     u\<lparr>u_hostinfo := Some (host @ '':'' @ pt), u_path := Some (CHR ''/'' # p), u_auth := None,
       u_hostname := Some host, u_port := c_atoi pt\<rparr>"
proof -
  have "c_strchr ((host @ '':'' @ pt) @ CHR ''/'' # p) CHR ''/'' = Some (host @ '':'' @ pt, CHR ''/'' # p)"
    by (rule c_strchr_append) (use assms in auto)
  moreover have "c_strrchr (host @ '':'' @ pt) CHR ''@'' = None"
    using assms by (simp add: c_strrchr_None)
  moreover have "c_strchr (host @ CHR '':'' # pt) CHR '':'' = Some (host, CHR '':'' # pt)"
    using assms by (intro c_strchr_append)
  ultimately show ?thesis by (simp add: parse_authority_def)
qed

lemma parse_authority_plain:
  assumes "CHR ''/'' \<notin> set host" "CHR ''@'' \<notin> set host" "CHR '':'' \<notin> set host"
  shows "parse_authority u (host @ CHR ''/'' # p) =
     u\<lparr>u_hostinfo := Some host, u_path := Some (CHR ''/'' # p), u_auth := None,
       u_hostname := Some host, u_port := 0\<rparr>"
proof -
  have "c_strchr (host @ CHR ''/'' # p) CHR ''/'' = Some (host, CHR ''/'' # p)"
    by (rule c_strchr_append) (use assms in auto)
  moreover have "c_strrchr host CHR ''@'' = None" "c_strchr host CHR '':'' = None"
    using assms by (simp_all add: c_strrchr_None c_strchr_None)
  ultimately show ?thesis by (simp add: parse_authority_def)
qed

lemma normalize_path_id:
  "normal_path p \<Longrightarrow> CHR ''?'' \<notin> set p \<Longrightarrow> DpsURLNormalizePath p = p"
  using c_strchr_None [of p "CHR ''?''"] by (simp add: DpsURLNormalizePath_def normalize_segments_id)

lemma cut_filename_dir:
  "CHR ''/'' \<notin> set file \<Longrightarrow> file \<noteq> [] \<Longrightarrow>
     cut_filename u (d @ CHR ''/'' # file) = (u\<lparr>u_filename := Some file\<rparr>, d @ ''/'')"
  using c_strrchr_append [of "CHR ''/''" "file" d] by (simp add: cut_filename_def)

lemma set_directory_path:
  "u_path (set_directory u p) = u_path u" "u_filename (set_directory u p) = u_filename u"
  "u_hostname (set_directory u p) = u_hostname u" "u_schema (set_directory u p) = u_schema u"
  "u_port (set_directory u p) = u_port u" "u_default_port (set_directory u p) = u_default_port u"
  "u_query_string (set_directory u p) = u_query_string u" "u_anchor (set_directory u p) = u_anchor u"
  "u_auth (set_directory u p) = u_auth u" "u_hostinfo (set_directory u p) = u_hostinfo u"
  "u_specific (set_directory u p) = u_specific u"
  by (auto simp: set_directory_def split: option.split)

section \<open>Properties\<close>

text \<open>
  C22. The host name of a URL that is accepted is in canonical form: no upper-case letter, no
  trailing dot, none of the characters comma, quote and semicolon, and the domain level is one more than its
  number of dots.
\<close>

theorem DpsURLParse_hostname:
  assumes "DpsURLParse url s = Inr u" and "u_hostname u = Some h"
  shows "list_all (\<lambda>c. \<not> c_isupper c \<and> c \<notin> {CHR '','', CHR 0x27, CHR 0x22, CHR '';''}) h \<and>
    (h = [] \<or> last h \<noteq> CHR ''.'') \<and> u_domain_level u = 1 + length (filter (\<lambda>c. c = CHR ''.'') h)"
proof -
  have "\<exists>u6 u7. finish_hostname u6 = Inr u7 \<and> u_hostname u7 = Some h \<and> u_domain_level u = u_domain_level u7"
    using assms by (auto simp: DpsURLParse_def Let_def split: sum.splits prod.splits) (intro exI conjI; simp)
  then obtain u6 u7 where f: "finish_hostname u6 = Inr u7" and h7: "u_hostname u7 = Some h"
    and l: "u_domain_level u = u_domain_level u7" by blast
  then obtain h0 where h0: "u_hostname u6 = Some h0"
    by (auto simp: finish_hostname_def split: option.splits)
  let ?t = "DpsRTrim h0 ''.''"
  have ok: "\<not> list_ex bad_host_char ?t" and h: "h = map dps_tolower ?t"
    and lev: "u_domain_level u7 = 1 + length (filter (\<lambda>c. c = CHR ''.'') ?t)"
    using f h7 h0 by (auto simp: finish_hostname_def scan_hostname_eq split: if_splits)
  have "length (filter (\<lambda>c. c = CHR ''.'') h) = length (filter (\<lambda>c. c = CHR ''.'') ?t)"
    unfolding h by (simp add: filter_map comp_def dps_tolower_dot)
  moreover have "h = [] \<or> last h \<noteq> CHR ''.''"
    using DpsRTrim_last [of h0 "''.''"] unfolding h by (auto simp: last_map dps_tolower_dot)
  moreover have "list_all (\<lambda>c. \<not> c_isupper c \<and> \<not> bad_host_char c) h"
    unfolding list_all_iff
  proof
    fix c assume "c \<in> set h"
    then obtain c0 where "c0 \<in> set ?t" and c: "c = dps_tolower c0" using h by auto
    then have "\<not> bad_host_char c0" using ok unfolding list_ex_iff by blast
    then show "\<not> c_isupper c \<and> \<not> bad_host_char c"
      unfolding c by (simp only: dps_tolower_bad dps_tolower_not_upper) simp
  qed
  ultimately show ?thesis using l lev by simp
qed

definition empty_url :: dps_url where
  "empty_url = \<lparr>u_schema = None, u_specific = None, u_hostinfo = None, u_auth = None, u_hostname = None,
     u_path = None, u_directory = None, u_filename = None, u_anchor = None, u_query_string = None,
     u_port = 0, u_default_port = 0, u_charset_id = 0, u_domain_level = 0, u_len = 0\<rparr>"

lemma DpsURLParse_example:
  "DpsURLParse empty_url ''http://WWW.Ex.ORG.:81/a/x?b'' =
     Inr (empty_url\<lparr>u_schema := Some ''http'', u_specific := Some ''//WWW.Ex.ORG.:81/a/x?b'',
       u_hostinfo := Some ''www.ex.org.:81'', u_hostname := Some ''www.ex.org'', u_path := Some ''/a/'',
       u_directory := Some ''a'', u_filename := Some ''x'', u_query_string := Some ''?b'', u_port := 81,
       u_default_port := 80, u_domain_level := 3, u_len := 27\<rparr>)"
  by code_simp

theorem DpsURLParse_hostname_witness:
  "list_all (\<lambda>c. \<not> c_isupper c \<and> c \<notin> {CHR '','', CHR 0x27, CHR 0x22, CHR '';''}) ''www.ex.org'' \<and>
     3 = 1 + length (filter (\<lambda>c. c = CHR ''.'') ''www.ex.org'')"
  using DpsURLParse_hostname [OF DpsURLParse_example, of "''www.ex.org''"] by (simp add: empty_url_def)

abbreviation plain_host :: "string \<Rightarrow> bool" where
  "plain_host h \<equiv> list_all (\<lambda>c. c_isalnum c \<or> c = CHR ''-'' \<or> c = CHR ''.'') h"

lemma plain_host_separators:
  "plain_host h \<Longrightarrow> CHR ''/'' \<notin> set h \<and> CHR ''@'' \<notin> set h \<and> CHR '':'' \<notin> set h \<and>
     \<not> list_ex bad_host_char h"
  by (auto simp: list_all_iff list_ex_iff ctype_defs)

text \<open>
  C28. An absolute URL made of a schema, a plain host name, a normal path and a query string is split
  into just these parts.
\<close>

theorem DpsURLParse_absolute:
  assumes "list_all c_isalnum schema" and "plain_host host" and "last host \<noteq> CHR ''.''"
    and "d = [] \<or> hd d = CHR ''/''" and "normal_path (d @ ''/'' @ f)"
    and "f \<noteq> []" and "CHR ''/'' \<notin> set f" and "set (d @ f) \<inter> {CHR ''?'', CHR ''#''} = {}"
    and "set q \<inter> {CHR ''?'', CHR ''#''} = {}"
  shows "\<exists>u. DpsURLParse url (schema @ ''://'' @ host @ d @ ''/'' @ f @ ''?'' @ q) = Inr u \<and>
    u_schema u = Some (dps_strtolower schema) \<and> u_hostname u = Some (dps_strtolower host) \<and>
    u_path u = Some (d @ ''/'') \<and> u_filename u = Some f \<and> u_query_string u = Some (CHR ''?'' # q) \<and>
    u_port u = 0 \<and> u_default_port u = schema_default_port schema \<and> u_auth u = None \<and> u_anchor u = None"
proof -
  let ?u = "url_reset url\<lparr>u_len := length (schema @ ''://'' @ host @ d @ ''/'' @ f @ ''?'' @ q)\<rparr>"
  let ?sp = "''//'' @ host @ d @ ''/'' @ f @ ''?'' @ q"
  note h = plain_host_separators [OF assms(2)]
  obtain p where p: "d @ ''/'' @ f @ ''?'' @ q = CHR ''/'' # p"
    using assms(4) by (cases d) auto
  define u1 where "u1 = parse_authority
    (?u\<lparr>u_schema := Some schema, u_specific := Some ?sp, u_default_port := schema_default_port schema\<rparr>)
    (host @ d @ ''/'' @ f @ ''?'' @ q)"
  have "parse_schema_host ?u (schema @ ''://'' @ host @ d @ ''/'' @ f @ ''?'' @ q) = Inr u1"
    using split_schema_scheme [OF assms(1), of ?sp] by (simp add: parse_schema_host_def u1_def)
  moreover have u1: "u1 = ?u\<lparr>u_schema := Some schema, u_specific := Some ?sp,
      u_default_port := schema_default_port schema, u_hostinfo := Some host,
      u_path := Some (d @ ''/'' @ f @ ''?'' @ q), u_auth := None, u_hostname := Some host, u_port := 0\<rparr>"
    unfolding u1_def p using h by (subst parse_authority_plain) auto
  have "cut_anchor u (d @ ''/'' @ f @ ''?'' @ q) = (u, d @ ''/'' @ f @ ''?'' @ q)" for u
  proof -
    have "c_strchr (d @ ''/'' @ f @ ''?'' @ q) CHR ''#'' = None"
      using assms(8,9) by (auto simp: c_strchr_None)
    then show ?thesis by (simp add: cut_anchor_def)
  qed
  moreover have "cut_relative u (d @ ''/'' @ f @ ''?'' @ q) = (u, d @ ''/'' @ f @ ''?'' @ q)" for u
    unfolding p by (simp add: cut_relative_def char_at_def)
  moreover have "cut_query u (d @ ''/'' @ f @ ''?'' @ q) =
      (u\<lparr>u_query_string := Some (CHR ''?'' # q)\<rparr>, d @ ''/'' @ f)" for u
    using c_strrchr_append [of "CHR ''?''" q "d @ ''/'' @ f"] assms(9) by (simp add: cut_query_def)
  moreover have "DpsURLNormalizePath (d @ ''/'' @ f) = d @ ''/'' @ f"
    by (rule normalize_path_id) (use assms(5,8) in auto)
  moreover have "cut_filename u (d @ ''/'' @ f) = (u\<lparr>u_filename := Some f\<rparr>, d @ ''/'')" for u
    using cut_filename_dir [OF assms(7,6)] by simp
  moreover have "finish_hostname u =
      Inr (u\<lparr>u_hostname := Some (map dps_tolower host),
             u_domain_level := 1 + length (filter (\<lambda>c. c = CHR ''.'') host)\<rparr>)"
    if "u_hostname u = Some host" for u :: dps_url
    using that h assms(3) DpsRTrim_id [of host "''.''"] by (simp add: finish_hostname_def scan_hostname_eq)
  ultimately show ?thesis
    by (simp add: DpsURLParse_def u1 set_directory_path dps_strtolower_map url_reset_def)
qed

lemma absolute_example_parts:
  "list_all c_isalnum ''HTTP''" "plain_host ''ex.Org''" "normal_path (''/a'' @ ''/'' @ ''x'')"
  by (simp_all add: ctype_defs normal_path_def sublist_Cons_right suffix_Cons)

lemma dps_strtolower_example: "dps_strtolower ''HTTP'' = ''http''"
  by code_simp

lemma absolute_example:
  "isl (DpsURLParse empty_url (''HTTP'' @ ''://'' @ ''ex.Org'' @ ''/a'' @ ''/'' @ ''x'' @ ''?'' @ ''b=1'')) = False"
  by code_simp

theorem DpsURLParse_absolute_witness:
  "\<exists>u. DpsURLParse empty_url (''HTTP'' @ ''://'' @ ''ex.Org'' @ ''/a'' @ ''/'' @ ''x'' @ ''?'' @ ''b=1'') = Inr u \<and>
    u_schema u = Some (dps_strtolower ''HTTP'') \<and> u_hostname u = Some (dps_strtolower ''ex.Org'') \<and>
    u_path u = Some (''/a'' @ ''/'') \<and> u_filename u = Some ''x'' \<and> u_query_string u = Some (CHR ''?'' # ''b=1'') \<and>
    u_port u = 0 \<and> u_default_port u = schema_default_port ''HTTP'' \<and> u_auth u = None \<and> u_anchor u = None"
  by (rule DpsURLParse_absolute) (simp_all only: absolute_example_parts, simp_all)

section \<open>Resolving a relative reference\<close>

lemma DpsURLParse_relative_name:
  assumes "f \<noteq> []" and "set f \<inter> {CHR '':'', CHR ''/'', CHR ''?'', CHR ''#''} = {}"
  shows "DpsURLParse url f = Inr (url_reset url\<lparr>u_len := length f, u_filename := Some f, u_path := Some []\<rparr>)"
proof -
  obtain c t where f: "f = c # t" and c: "c \<noteq> CHR ''/''" "c \<noteq> CHR ''?''"
    using assms by (cases f) auto
  have "char_at f 1 \<noteq> CHR '':''"
    using assms(2) by (auto simp: char_at_def) (metis nth_mem)
  then have "cut_relative u f = (u\<lparr>u_filename := Some f\<rparr>, [])" for u
    using c assms(2) unfolding f by (cases t) (auto simp: cut_relative_def char_at_def)
  moreover have "split_schema f = None" "\<And>u. cut_anchor u f = (u, f)"
    using assms(2) by (auto simp: split_schema_def cut_anchor_def c_strchr_def)
  moreover have "take 2 f \<noteq> ''//''" using c f by simp
  ultimately show ?thesis
    by (simp add: DpsURLParse_def parse_schema_host_def cut_query_def cut_filename_def set_directory_def
        c_strrchr_def DpsURLNormalizePath_def c_strchr_def normalize_segments_id normal_path_def
        finish_hostname_def url_reset_def)
qed

lemma normalize_extra_slash:
  assumes "normal_path p" and "hd p = CHR ''/''" and "2 < length p"
  shows "normalize_segments (CHR ''/'' # p) = p"
proof -
  obtain c d t where p: "p = CHR ''/'' # c # d # t"
    using assms(2,3) by (cases p; cases "tl p"; cases "tl (tl p)") auto
  have "\<not> has ''/../'' (CHR ''/'' # p)" "\<not> has ''/./'' (CHR ''/'' # p)"
    "\<not> suffix ''/..'' (CHR ''/'' # p)" "\<not> suffix ''/.'' (CHR ''/'' # p)"
    using assms(1) by (auto simp: normal_path_def p sublist_Cons_right suffix_Cons)
  then have "normalize_segments (CHR ''/'' # p) = replace_7E (remove_double_slash (CHR ''/'' # p))"
    by (simp add: normalize_segments_def pass_id trailing_passes_id)
  also have "remove_double_slash (CHR ''/'' # p) = remove_double_slash p"
    unfolding remove_double_slash_def by (subst strstr_loop.simps) (simp add: p)
  also have "replace_7E (remove_double_slash p) = p"
    using assms(1) by (simp add: normal_path_def pass_id)
  finally show ?thesis .
qed

text \<open>
  Following a plain link: resolving the file name \<open>g\<close> against a page of the same directory
  gives that directory's URL with \<open>g\<close> in place of the page's name, and drops the page's query.
\<close>

theorem RelLink_sibling:
  assumes "list_all c_isalnum schema" and "plain_host host" and "last host \<noteq> CHR ''.''"
    and "d = [] \<or> hd d = CHR ''/''" and "normal_path (d @ ''/'' @ f)"
    and "f \<noteq> []" and "CHR ''/'' \<notin> set f" and "set (d @ f) \<inter> {CHR ''?'', CHR ''#''} = {}"
    and "set q \<inter> {CHR ''?'', CHR ''#''} = {}"
    and "length g > 1" and "set g \<inter> {CHR '':'', CHR ''/'', CHR ''?'', CHR ''#''} = {}"
    and "normal_path (d @ ''/'' @ g)"
    and "dps_strtolower schema \<in> {''http'', ''https''}"
    and "DpsURLParse url1 (schema @ ''://'' @ host @ d @ ''/'' @ f @ ''?'' @ q) = Inr base"
    and "DpsURLParse url2 g = Inr ref"
  shows "snd (RelLink base ref False) = dps_strtolower schema @ ''://'' @ dps_strtolower host @ d @ ''/'' @ g"
proof -
  from DpsURLParse_absolute [OF assms(1-9), of url1] assms(14)
  have base: "u_schema base = Some (dps_strtolower schema)" "u_hostname base = Some (dps_strtolower host)"
    "u_path base = Some (d @ ''/'')" "u_auth base = None" by auto
  have "g \<noteq> []" using assms(10) by auto
  from DpsURLParse_relative_name [OF this assms(11), of url2] assms(15)
  have ref: "u_schema ref = None" "u_hostname ref = None" "u_path ref = Some []" "u_filename ref = Some g"
    "u_query_string ref = None" "u_anchor ref = None" "u_auth ref = None"
    by (auto simp: url_reset_def)
  have nq: "CHR ''?'' \<notin> set (d @ ''/'' @ g)" "CHR ''#'' \<notin> set (d @ ''/'' @ g)"
    using assms(8,11) by auto
  have "rel_pathfile base ref False = DpsURLNormalizePath (CHR ''/'' # d @ ''/'' @ g)"
    using \<open>g \<noteq> []\<close> by (simp add: rel_pathfile_def base ref null2empty_def)
  also have "\<dots> = normalize_segments (CHR ''/'' # d @ ''/'' @ g)"
    using nq c_strchr_None [of "CHR ''/'' # d @ ''/'' @ g" "CHR ''?''"]
    by (simp add: DpsURLNormalizePath_def)
  also have "\<dots> = d @ ''/'' @ g"
    by (rule normalize_extra_slash) (use assms(4,10,12) in \<open>cases d; auto\<close>)+
  finally have pf: "rel_pathfile base ref False = d @ ''/'' @ g" .
  have "CHR ''#'' \<notin> set (dps_strtolower host)"
  proof -
    have "CHR ''#'' = dps_tolower c \<longleftrightarrow> c = CHR ''#''" for c
      by (subst eq_commute) (simp add: dps_tolower_eq_iff c_islower_def c_isupper_def)
    moreover have "CHR ''#'' \<notin> set host" using assms(2) by (auto simp: list_all_iff ctype_defs)
    ultimately show ?thesis by (simp add: dps_strtolower_map image_iff)
  qed
  then have "c_strchr (dps_strtolower schema @ ''://'' @ dps_strtolower host @ d @ ''/'' @ g) CHR ''#'' = None"
    using nq assms(13) unfolding c_strchr_None by auto
  with assms(13) show ?thesis
    by (auto simp: RelLink_def pf base ref null2empty_def c_strcaseeq_def c_tolower_def c_isupper_def)
qed

theorem RelLink_sibling_witness:
  "snd (RelLink (projr (DpsURLParse empty_url (''HTTP'' @ ''://'' @ ''ex.Org'' @ ''/a'' @ ''/'' @ ''x'' @ ''?'' @ ''b=1'')))
      (projr (DpsURLParse empty_url ''next.html'')) False) =
     dps_strtolower ''HTTP'' @ ''://'' @ dps_strtolower ''ex.Org'' @ ''/a'' @ ''/'' @ ''next.html''"
proof (rule RelLink_sibling [where f = "''x''" and q = "''b=1''" and ?url1.0 = empty_url and ?url2.0 = empty_url])
  show "DpsURLParse empty_url (''HTTP'' @ ''://'' @ ''ex.Org'' @ ''/a'' @ ''/'' @ ''x'' @ ''?'' @ ''b=1'') =
      Inr (projr (DpsURLParse empty_url (''HTTP'' @ ''://'' @ ''ex.Org'' @ ''/a'' @ ''/'' @ ''x'' @ ''?'' @ ''b=1'')))"
    by (subst sum.collapse(2)) (use absolute_example in auto)
  show "DpsURLParse empty_url ''next.html'' = Inr (projr (DpsURLParse empty_url ''next.html''))"
    by (simp add: DpsURLParse_relative_name)
  show "normal_path (''/a'' @ ''/'' @ ''next.html'')"
    by (simp add: normal_path_def sublist_Cons_right suffix_Cons)
qed (simp_all only: absolute_example_parts dps_strtolower_example, simp_all)

end
