(* ===== verification/Dps_Codec.thy ===== *)
theory Dps_Codec
  imports Dps_Str
begin

text \<open>
  The byte codecs of \<^verbatim>\<open>src/utils.c\<close>: hexadecimal digits, base 64, the RFC 1522 header decoder,
  and the escaping of URLs. A byte is a \<^typ>\<open>char\<close> (its code is the \<^verbatim>\<open>unsigned char\<close>). The
  decoders can write NUL bytes; the model returns all bytes written before the final terminator.
\<close>

section \<open>Hexadecimal digits\<close>

definition DpsHex2Int :: "char \<Rightarrow> nat" where
  "DpsHex2Int h =
    (if 48 \<le> ord h \<and> ord h \<le> 57 then ord h - 48
     else if 65 \<le> ord h \<and> ord h \<le> 70 then ord h - 65 + 10
     else if 97 \<le> ord h \<and> ord h \<le> 102 then ord h - 97 + 10
     else 0)"

definition DpsInt2Hex :: "int \<Rightarrow> char" where
  "DpsInt2Hex i =
    (if 0 \<le> i \<and> i \<le> 9 then chr (nat i + 48)
     else if 10 \<le> i \<and> i \<le> 15 then chr (nat i + 65 - 10)
     else CHR ''0'')"

section \<open>Base 64\<close>

definition base64 :: string where
  "base64 = ''ABCDEFGHIJKLMNOPQRSTUVWXYZabcdefghijklmnopqrstuvwxyz0123456789+/''"

text \<open>
  \<^verbatim>\<open>p = strchr (base64, c); p ? p - base64 : 0\<close>; the search for NUL finds the terminator.
\<close>

definition base64_index :: "char \<Rightarrow> nat" where
  "base64_index c =
    (if c = CHR 0x00 then length base64
     else case c_strchr base64 c of Some (pre, _) \<Rightarrow> length pre | None \<Rightarrow> 0)"

text \<open>
  \<open>s i\<close> is the byte at \<^verbatim>\<open>src[i]\<close>, also past \<open>len\<close>, where the last round reads up to two
  bytes. The loop returns what it has written and the final \<^verbatim>\<open>i\<close>.
\<close>

function base64_encode_loop :: "(nat \<Rightarrow> char) \<Rightarrow> nat \<Rightarrow> nat \<Rightarrow> string \<times> nat" where
  "base64_encode_loop s len i =
    (if i < len then
       (let s0 = ord (s i); s1 = ord (s (i + 1)); s2 = ord (s (i + 2));
            (p, i') = base64_encode_loop s len (i + 3)
        in ([base64 ! drop_bit 2 s0,
             base64 ! (push_bit 4 (s0 AND 3) + drop_bit 4 s1),
             base64 ! (push_bit 2 (s1 AND 0xF) + drop_bit 6 s2),
             base64 ! (s2 AND 0x3F)] @ p, i'))
     else ([], i))"
  by pat_completeness auto
termination by (relation "measure (\<lambda>(s, len, i). len - i)") auto

declare base64_encode_loop.simps [simp del]

definition dps_base64_encode :: "(nat \<Rightarrow> char) \<Rightarrow> nat \<Rightarrow> string" where
  "dps_base64_encode src len =
    (let (p, i) = base64_encode_loop src len 0; n = length p in
     if i = len + 1 then p[n - 1 := CHR ''='']
     else if i = len + 2 then p[n - 2 := CHR ''='', n - 1 := CHR ''='']
     else p)"

text \<open>The three bytes of a group of four indices, and the decoder; \<open>len\<close> bounds the output.\<close>

definition base64_res :: "nat \<Rightarrow> nat \<Rightarrow> nat \<Rightarrow> nat \<Rightarrow> nat" where
  "base64_res b0 b1 b2 b3 = b3 + b2 * 64 + b1 * 64 * 64 + b0 * 64 * 64 * 64"

definition base64_bytes :: "nat \<Rightarrow> string" where
  "base64_bytes res = [chr (drop_bit 16 res AND 0xFF), chr (drop_bit 8 res AND 0xFF), chr (res AND 0xFF)]"

fun base64_decode_loop :: "nat list \<Rightarrow> string \<Rightarrow> nat \<Rightarrow> string" where
  "base64_decode_loop b [] len = []"
| "base64_decode_loop b (c # src) len =
     (if len > 3 then
        (let b' = b @ [base64_index c] in
         if length b' = 4
         then base64_bytes (base64_res (b' ! 0) (b' ! 1) (b' ! 2) (b' ! 3)) @ base64_decode_loop [] src (len - 3)
         else base64_decode_loop b' src len)
      else [])"

definition dps_base64_decode :: "string \<Rightarrow> nat \<Rightarrow> string" where
  "dps_base64_decode src len = base64_decode_loop [] src len"

section \<open>RFC 1522 headers\<close>

text \<open>
  The two body decoders, on the text from \<^verbatim>\<open>data\<close> on; \<open>n\<close> is \<^verbatim>\<open>e - data\<close>, 0 once
  \<^verbatim>\<open>data\<close> has reached or passed \<^verbatim>\<open>e\<close>.
\<close>

fun rfc1522_q :: "string \<Rightarrow> nat \<Rightarrow> string" where
  "rfc1522_q data 0 = []"
| "rfc1522_q data (Suc n) =
     (if char_at data 0 = CHR ''=''
      then chr (DpsHex2Int (char_at data 1) * 16 + DpsHex2Int (char_at data 2)) # rfc1522_q (drop 3 data) (n - 2)
      else char_at data 0 # rfc1522_q (drop 1 data) n)"

fun rfc1522_b :: "string \<Rightarrow> nat \<Rightarrow> string" where
  "rfc1522_b data 0 = []"
| "rfc1522_b data (Suc n) =
     base64_bytes (base64_res (base64_index (char_at data 0)) (base64_index (char_at data 1))
        (base64_index (char_at data 2)) (base64_index (char_at data 3))) @ rfc1522_b (drop 4 data) (n - 3)"

text \<open>
  The main loop; \<open>d\<close> is what has been written. The result is \<open>None\<close> when \<^verbatim>\<open>data = schema + 2\<close>
  lies past the terminator of the source, where the search that follows reads beyond it.
\<close>

lemma rfc1522_shrink:
  assumes "c_strstr s ''=?'' = Some (pre, e)" and "c_strchr (drop 2 e) CHR ''?'' = Some (cs, q)"
    and "c_strstr (drop 2 (tl q)) ''?='' = Some (body, e')"
  shows "length (drop 2 e') < length s"
proof -
  from assms(1,3) have "2 \<le> length e" "length e \<le> length s" "length e' \<le> length q" "2 \<le> length e'"
    by (auto dest!: c_strstr_length)
  moreover have "length q \<le> length e"
    using c_strchr_Some [OF assms(2)] by (metis diff_le_self le_add2 length_append length_drop order_trans)
  ultimately show ?thesis by simp
qed

function rfc1522_loop :: "string \<Rightarrow> string \<Rightarrow> string option" where
  "rfc1522_loop d s =
    (if s = [] then Some d
     else
       (case c_strstr s ''=?'' of
          None \<Rightarrow> Some (d @ s)
        | Some (pre, e) \<Rightarrow>
            (case c_strchr (drop 2 e) CHR ''?'' of
               None \<Rightarrow> Some (d @ pre)
             | Some (cs, q) \<Rightarrow>
                 (let schema = tl q; data = drop 2 schema in
                  if length schema < 2 then None
                  else
                    (case c_strstr data ''?='' of
                       None \<Rightarrow> Some (d @ pre)
                     | Some (body, e') \<Rightarrow>
                         if hd schema = CHR ''Q'' \<or> hd schema = CHR ''q''
                         then rfc1522_loop (d @ pre @ rfc1522_q data (length body)) (drop 2 e')
                         else if hd schema = CHR ''B'' \<or> hd schema = CHR ''b''
                         then rfc1522_loop (d @ pre @ rfc1522_b data (length body)) (drop 2 e')
                         else Some (d @ pre))))))"
  by pat_completeness auto
termination
  by (relation "measure (\<lambda>(d, s). length s)") (auto dest: rfc1522_shrink)

declare rfc1522_loop.simps [simp del]

definition dps_rfc1522_decode :: "string \<Rightarrow> string option" where
  "dps_rfc1522_decode src = rfc1522_loop [] src"

section \<open>Escaping\<close>

text \<open>A digit of an escape as \<^verbatim>\<open>DpsUnescapeCGIQuery\<close> reads it: any character stands for some value.\<close>

definition unescape_digit :: "char \<Rightarrow> nat" where
  "unescape_digit c =
    (if c \<in> set ''0123456789'' then ord c - 48
     else nat ((int (ord (dps_tolower c)) - 97 + 10) mod 16))"

fun DpsUnescapeCGIQuery :: "string \<Rightarrow> string" where
  "DpsUnescapeCGIQuery [] = []"
| "DpsUnescapeCGIQuery (c # s) =
     (if c = CHR ''%'' then
        (case s of
           [] \<Rightarrow> []
         | [h] \<Rightarrow> []
         | h # l # s' \<Rightarrow> chr (unescape_digit h * 16 + unescape_digit l) # DpsUnescapeCGIQuery s')
      else if c = CHR ''+'' then CHR '' '' # DpsUnescapeCGIQuery s
      else c # DpsUnescapeCGIQuery s)"

definition escape_digit :: "nat \<Rightarrow> char" where
  "escape_digit dig = (if dig < 10 then chr (48 + dig) else chr (65 + (dig - 10)))"

definition escape_byte :: "char \<Rightarrow> string" where
  "escape_byte c = [CHR ''%'', escape_digit (drop_bit 4 (ord c AND 0xF0)), escape_digit (ord c AND 0xF)]"

definition url_specials :: string where
  "url_specials = ''%&<>+[](){}/?#'' @ [CHR 0x27, CHR 0x22, CHR 0x5C] @ '';,:@=''"

fun DpsEscapeURL :: "string \<Rightarrow> string" where
  "DpsEscapeURL [] = []"
| "DpsEscapeURL (c # s) =
     (if ord c = 2 \<or> ord c = 3 then DpsEscapeURL s
      else if 0x80 \<le> ord c \<or> ord c = 0x7F \<or> ord c < 0x20 \<or> c \<in> set url_specials
      then escape_byte c @ DpsEscapeURL s
      else if c = CHR '' '' then CHR ''+'' # DpsEscapeURL s
      else c # DpsEscapeURL s)"

fun DpsEscapeURI :: "string \<Rightarrow> string" where
  "DpsEscapeURI [] = []"
| "DpsEscapeURI (c # s) =
     (if 0x80 \<le> ord c \<or> ord c = 0x7F \<or> ord c < 0x20
      then escape_byte c @ DpsEscapeURI s
      else c # DpsEscapeURI s)"

section \<open>Hexadecimal lemmas\<close>

lemma hex_digit_table:
  "list_all (\<lambda>n. unescape_digit (escape_digit n) = n \<and> c_isxdigit (escape_digit n) \<and>
     DpsHex2Int (escape_digit n) = n) [0..<16]"
  by code_simp

lemma hex_digit:
  "n < 16 \<Longrightarrow> unescape_digit (escape_digit n) = n"
  "n < 16 \<Longrightarrow> c_isxdigit (escape_digit n)"
  "n < 16 \<Longrightarrow> DpsHex2Int (escape_digit n) = n"
  using hex_digit_table by (auto simp: list_all_iff)

lemma and_mod [simp]:
  "(n :: nat) AND 0xF = n mod 16" "n AND 0x3F = n mod 64" "n AND 0xFF = n mod 256" "n AND 3 = n mod 4"
  using take_bit_eq_mask [of 4 n] take_bit_eq_mask [of 6 n] take_bit_eq_mask [of 8 n] take_bit_eq_mask [of 2 n]
  by (simp_all add: mask_eq_exp_minus_1 take_bit_eq_mod)

lemma high_nibble: "drop_bit 4 (ord c AND 0xF0) = ord c div 16"
proof -
  have "drop_bit 4 (ord c AND 0xF0) = drop_bit 4 (ord c) AND 0xF" by simp
  also have "\<dots> = ord c div 16 mod 16" by (simp add: drop_bit_eq_div)
  also have "\<dots> = ord c div 16" using ord_less_256 [of c] by (simp add: less_mult_imp_div_less)
  finally show ?thesis .
qed

lemma escape_byte_eq: "escape_byte c = [CHR ''%'', escape_digit (ord c div 16), escape_digit (ord c mod 16)]"
  unfolding escape_byte_def high_nibble by simp

lemma DpsUnescapeCGIQuery_escape:
  "DpsUnescapeCGIQuery (escape_byte c @ s) = c # DpsUnescapeCGIQuery s"
  using ord_less_256 [of c] by (simp add: escape_byte_eq hex_digit less_mult_imp_div_less)

section \<open>Base 64 lemmas\<close>

lemma base64_index_table: "list_all (\<lambda>x. base64_index (base64 ! x) = x) [0..<64]"
  by code_simp

lemma base64_index_nth: "x < 64 \<Longrightarrow> base64_index (base64 ! x) = x"
  using base64_index_table by (simp add: list_all_iff)

lemma base64_index_pad: "base64_index CHR ''='' = 0"
  by code_simp

lemma base64_length: "length base64 = 64"
  by (simp add: base64_def)

lemma base64_sum:
  "(c0 :: nat) + (b0 * 4 + c1) * 64 + (a0 * 16 + b1) * 4096 + a1 * 262144 =
     (4 * a1 + a0) * 65536 + (16 * b1 + b0) * 256 + (64 * c1 + c0)"
  by (simp add: algebra_simps)

lemma chr_0: "chr 0 = CHR 0x00"
  by (rule ord_inject [THEN iffD1]) simp

text \<open>The four digits of three bytes put the bytes back together.\<close>

lemma base64_group:
  assumes "a < 256" "b < 256" "c < (256 :: nat)"
  shows "base64_bytes (base64_res (drop_bit 2 a) (push_bit 4 (a AND 3) + drop_bit 4 b)
      (push_bit 2 (b AND 0xF) + drop_bit 6 c) (c AND 0x3F)) = [chr a, chr b, chr c]"
proof -
  have "base64_res (drop_bit 2 a) (push_bit 4 (a AND 3) + drop_bit 4 b)
      (push_bit 2 (b AND 0xF) + drop_bit 6 c) (c AND 0x3F) =
      c mod 64 + (b mod 16 * 4 + c div 64) * 64 + (a mod 4 * 16 + b div 16) * 4096 + a div 4 * 262144"
    by (simp add: base64_res_def drop_bit_eq_div push_bit_eq_mult)
  also have "\<dots> = a * 65536 + b * 256 + c"
    using base64_sum [of "c mod 64" "b mod 16" "c div 64" "a mod 4" "b div 16" "a div 4"]
    unfolding mult_div_mod_eq .
  finally have "base64_res (drop_bit 2 a) (push_bit 4 (a AND 3) + drop_bit 4 b)
      (push_bit 2 (b AND 0xF) + drop_bit 6 c) (c AND 0x3F) = a * 65536 + b * 256 + c" .
  moreover have "(a * 65536 + b * 256 + c) div 65536 mod 256 = a"
  proof -
    have "b * 256 + c < 65536" using assms by simp
    then have "(b * 256 + c) div 65536 = 0" by (rule div_less)
    then have "(a * 65536 + (b * 256 + c)) div 65536 = a"
      by simp
    with assms(1) show ?thesis by (simp add: add.assoc)
  qed
  moreover have "(a * 65536 + b * 256 + c) div 256 mod 256 = b" "(a * 65536 + b * 256 + c) mod 256 = c"
  proof -
    have e: "a * 65536 + b * 256 + c = (a * 256 + b) * 256 + c" by simp
    have "((a * 256 + b) * 256 + c) div 256 = a * 256 + b"
      using assms(3) by (subst div_mult_self3) simp_all
    moreover have "((a * 256 + b) * 256 + c) mod 256 = c"
      using assms(3) by (subst mod_mult_self3) simp
    ultimately have f: "((a * 256 + b) * 256 + c) div 256 = a * 256 + b" "((a * 256 + b) * 256 + c) mod 256 = c"
      by blast+
    show "(a * 65536 + b * 256 + c) div 256 mod 256 = b" "(a * 65536 + b * 256 + c) mod 256 = c"
      using assms(2) by (simp_all only: e f) simp
  qed
  ultimately show ?thesis
    by (simp only: base64_bytes_def drop_bit_eq_div and_mod) simp
qed

definition base64_pad :: "nat \<Rightarrow> string \<times> nat \<Rightarrow> string" where
  "base64_pad len r =
    (let (p, i) = r; n = length p in
     if i = len + 1 then p[n - 1 := CHR ''='']
     else if i = len + 2 then p[n - 2 := CHR ''='', n - 1 := CHR ''='']
     else p)"

lemma dps_base64_encode_pad: "dps_base64_encode s len = base64_pad len (base64_encode_loop s len 0)"
  by (simp add: dps_base64_encode_def base64_pad_def)

lemma base64_pad_append:
  "2 \<le> length q \<Longrightarrow> base64_pad len (p @ q, i) = p @ base64_pad len (q, i)"
  by (auto simp: base64_pad_def list_update_append Let_def)

lemma base64_digit_less:
  assumes "a < (256 :: nat)" "b < 256"
  shows "drop_bit 2 a < 64" "push_bit 4 (a AND 3) + drop_bit 4 b < 64"
    "push_bit 2 (a AND 0xF) + drop_bit 6 b < 64" "a AND 0x3F < 64"
proof -
  have "a div 4 < 64" "b div 16 < 16" "b div 64 < 4" "a mod 4 < 4" "a mod 16 < 16"
    using assms by (simp_all add: less_mult_imp_div_less)
  then show "drop_bit 2 a < 64" "push_bit 4 (a AND 3) + drop_bit 4 b < 64"
    "push_bit 2 (a AND 0xF) + drop_bit 6 b < 64" "a AND 0x3F < 64"
    by (simp_all add: drop_bit_eq_div push_bit_eq_mult)
qed

lemma base64_encode_step:
  assumes "i < len"
  obtains c0 c1 c2 c3 where
    "base64_encode_loop s len i = ([c0, c1, c2, c3] @ fst (base64_encode_loop s len (i + 3)),
       snd (base64_encode_loop s len (i + 3)))"
    "base64_bytes (base64_res (base64_index c0) (base64_index c1) (base64_index c2) (base64_index c3)) =
       [s i, s (i + 1), s (i + 2)]"
    "s (i + 2) = CHR 0x00 \<Longrightarrow>
       base64_bytes (base64_res (base64_index c0) (base64_index c1) (base64_index c2) 0) = [s i, s (i + 1), CHR 0x00]"
    "s (i + 1) = CHR 0x00 \<Longrightarrow>
       base64_bytes (base64_res (base64_index c0) (base64_index c1) 0 0) = [s i, CHR 0x00, CHR 0x00]"
proof -
  let ?a = "ord (s i)" and ?b = "ord (s (i + 1))" and ?c = "ord (s (i + 2))"
  have d: "base64_index (base64 ! (drop_bit 2 ?a)) = drop_bit 2 ?a"
    "base64_index (base64 ! (push_bit 4 (?a AND 3) + drop_bit 4 ?b)) = push_bit 4 (?a AND 3) + drop_bit 4 ?b"
    "base64_index (base64 ! (push_bit 2 (?b AND 0xF) + drop_bit 6 ?c)) = push_bit 2 (?b AND 0xF) + drop_bit 6 ?c"
    "base64_index (base64 ! (?c AND 0x3F)) = ?c AND 0x3F"
    by (intro base64_index_nth base64_digit_less [where b = 0] base64_digit_less ord_less_256; simp)+
  show ?thesis
  proof (rule that [of "base64 ! drop_bit 2 ?a" "base64 ! (push_bit 4 (?a AND 3) + drop_bit 4 ?b)"
        "base64 ! (push_bit 2 (?b AND 0xF) + drop_bit 6 ?c)" "base64 ! (?c AND 0x3F)"], goal_cases)
    case 1
    then show ?case
      using assms by (subst base64_encode_loop.simps) (simp add: Let_def split_beta)
  next
    case 2
    then show ?case unfolding d using base64_group [of ?a ?b ?c] by simp
  next
    case 3
    then show ?case unfolding d using base64_group [of ?a ?b 0] by (simp add: chr_0)
  next
    case 4
    then show ?case unfolding d using base64_group [of ?a 0 0] by (simp add: chr_0)
  qed
qed

lemma base64_encode_stop: "\<not> i < len \<Longrightarrow> base64_encode_loop s len i = ([], i)"
  by (subst base64_encode_loop.simps) simp

lemma base64_encode_loop_ge: "i \<le> snd (base64_encode_loop s len i)"
proof (induction s len i rule: base64_encode_loop.induct)
  case (1 s len i)
  show ?case
  proof (cases "i < len")
    case True
    with 1 have "i + 3 \<le> snd (base64_encode_loop s len (i + 3))" by simp
    with True show ?thesis by (elim base64_encode_step [of i len s]) simp
  qed (simp add: base64_encode_stop)
qed

lemma base64_encode_loop_length:
  "i < len \<Longrightarrow> 4 \<le> length (fst (base64_encode_loop s len i))"
  by (erule base64_encode_step [of i len s]) simp

lemma base64_decode_group:
  "3 < L \<Longrightarrow> base64_decode_loop [] (c0 # c1 # c2 # c3 # p) L =
     base64_bytes (base64_res (base64_index c0) (base64_index c1) (base64_index c2) (base64_index c3)) @
     base64_decode_loop [] p (L - 3)"
  by simp

lemma base64_roundtrip_loop:
  "s len = CHR 0x00 \<Longrightarrow> i \<le> len \<Longrightarrow> snd (base64_encode_loop s len i) - i < L \<Longrightarrow>
     base64_decode_loop [] (base64_pad len (base64_encode_loop s len i)) L =
     map s [i..<len] @ replicate (snd (base64_encode_loop s len i) - len) (CHR 0x00)"
proof (induction s len i arbitrary: L rule: base64_encode_loop.induct)
  case (1 s len i)
  show ?case
  proof (cases "i < len")
    case False
    with 1(3) show ?thesis by (simp add: base64_encode_stop base64_pad_def)
  next
    case True
    obtain p i' where r: "base64_encode_loop s len (i + 3) = (p, i')" by fastforce
    obtain c0 c1 c2 c3 where e: "base64_encode_loop s len i = ([c0, c1, c2, c3] @ p, i')"
      and d3: "base64_bytes (base64_res (base64_index c0) (base64_index c1) (base64_index c2) (base64_index c3)) =
         [s i, s (i + 1), s (i + 2)]"
      and d2: "s (i + 2) = CHR 0x00 \<Longrightarrow>
         base64_bytes (base64_res (base64_index c0) (base64_index c1) (base64_index c2) 0) = [s i, s (i + 1), CHR 0x00]"
      and d1: "s (i + 1) = CHR 0x00 \<Longrightarrow>
         base64_bytes (base64_res (base64_index c0) (base64_index c1) 0 0) = [s i, CHR 0x00, CHR 0x00]"
      by (rule base64_encode_step [OF True, of s]) (simp add: r)
    have i': "i + 3 \<le> i'" using base64_encode_loop_ge [of "i + 3" s len] r by simp
    then have L: "3 < L" using 1(4) e by simp
    consider (more) "i + 3 < len" | (last) "i + 3 \<ge> len" "p = []" "i' = i + 3"
      using base64_encode_stop [of "i + 3" len s] r by force
    then show ?thesis
    proof cases
      case more
      then have "base64_pad len ([c0, c1, c2, c3] @ p, i') = [c0, c1, c2, c3] @ base64_pad len (p, i')"
        using base64_encode_loop_length [OF more, of s] r by (intro base64_pad_append) simp
      moreover have "[i..<len] = i # (i + 1) # (i + 2) # [i + 3..<len]"
        using more by (simp add: upt_conv_Cons numeral_3_eq_3)
      moreover have "base64_decode_loop [] (base64_pad len (p, i')) (L - 3) =
          map s [i + 3..<len] @ replicate (i' - len) (CHR 0x00)"
        using 1(1) [where L = "L - 3", OF True refl refl refl] 1(2,4) more r e i' by simp
      ultimately show ?thesis using e d3 L by simp
    next
      case last
      then consider "len = i + 3" | "len = i + 2" | "len = i + 1" using True by linarith
      then show ?thesis
        using e d3 d2 d1 1(2) L last
        by cases (simp_all add: base64_pad_def base64_index_pad upt_conv_Cons numeral_2_eq_2 numeral_3_eq_3)
    qed
  qed
qed

section \<open>Properties\<close>

text \<open>
  C23. Base 64 decoding undoes encoding: with a destination big enough for the groups, the decoder
  gives back the bytes, followed by the NULs the padding stands for. The byte after the source has
  to be NUL, as after a C string, since the encoder reads it.
\<close>

theorem dps_base64_roundtrip:
  assumes "s len = CHR 0x00" and "3 * ((len + 2) div 3) < L"
  shows "dps_base64_decode (dps_base64_encode s len) L =
    map s [0..<len] @ replicate (3 * ((len + 2) div 3) - len) (CHR 0x00)"
proof -
  have end_eq: "snd (base64_encode_loop s len i) = i + 3 * ((len - i + 2) div 3)" if "i \<le> len + 2" for i
    using that
  proof (induction s len i rule: base64_encode_loop.induct)
    case (1 s len i)
    show ?case
    proof (cases "i < len")
      case True
      then have "(len - i + 2) div 3 = (len - (i + 3) + 2) div 3 + 1"
      proof (cases "i + 3 \<le> len")
        case True
        then obtain k where "len = i + 3 + k" using le_Suc_ex by blast
        then show ?thesis by simp
      next
        case False
        with True have "len = i + 1 \<or> len = i + 2" by linarith
        then show ?thesis by (elim disjE) simp_all
      qed
      with True 1 show ?thesis by (elim base64_encode_step [of i len s]) simp
    next
      case False
      then have "len - i = 0" by simp
      with False show ?thesis by (simp add: base64_encode_stop)
    qed
  qed
  show ?thesis
    using base64_roundtrip_loop [of s len 0 L] end_eq [of 0] assms
    by (simp add: dps_base64_decode_def dps_base64_encode_pad)
qed

theorem dps_base64_roundtrip_witness:
  "dps_base64_decode (dps_base64_encode (char_at ''ab'') 2) 10 = map (char_at ''ab'') [0..<2] @ replicate (3 * ((2 + 2) div 3) - 2) (CHR 0x00)"
  by (rule dps_base64_roundtrip) (simp_all add: char_at_def)

lemma base64_decode_loop_bound:
  "length (base64_decode_loop b src L) < L \<or> base64_decode_loop b src L = []"
proof (induction b src L rule: base64_decode_loop.induct)
  case (2 b c src len)
  then show ?case by (auto simp: Let_def base64_bytes_def)
qed simp

text \<open>
  The decoder keeps to its destination: what it writes, with the terminator, fits in \<open>L\<close> bytes
  unless nothing is written, for any source.
\<close>

theorem dps_base64_decode_bound:
  "length (dps_base64_decode src L) < L \<or> dps_base64_decode src L = []"
  unfolding dps_base64_decode_def by (rule base64_decode_loop_bound)

text \<open>
  C24. \<^verbatim>\<open>DpsUnescapeCGIQuery\<close> undoes \<^verbatim>\<open>DpsEscapeURL\<close> on every string, up to the control
  characters 2 and 3 (the highlighting marks) that escaping drops.
\<close>

theorem DpsUnescapeCGIQuery_DpsEscapeURL:
  "DpsUnescapeCGIQuery (DpsEscapeURL s) = filter (\<lambda>c. ord c \<noteq> 2 \<and> ord c \<noteq> 3) s"
proof (induction s)
  case (Cons c s)
  have "CHR ''%'' \<in> set url_specials" "CHR ''+'' \<in> set url_specials"
    by (simp_all add: url_specials_def)
  with Cons show ?case
    by (cases "c = CHR '' ''") (auto simp: DpsUnescapeCGIQuery_escape)
qed simp

lemma escape_byte_safe:
  "x \<in> set (escape_byte c) \<Longrightarrow> x = CHR ''%'' \<or> c_isxdigit x"
  using ord_less_256 [of c] by (auto simp: escape_byte_eq hex_digit less_mult_imp_div_less)

lemma DpsEscapeURL_all_safe:
  "list_all (\<lambda>c. 0x20 < ord c \<and> ord c < 0x7F \<and>
     (c = CHR ''%'' \<or> c = CHR ''+'' \<or> c \<notin> set url_specials)) (DpsEscapeURL s)"
proof (induction s)
  case (Cons c s)
  have x: "0x20 < ord x \<and> ord x < 0x7F \<and> (x = CHR ''%'' \<or> x = CHR ''+'' \<or> x \<notin> set url_specials)"
    if "x \<in> set (escape_byte c)" for x
    using escape_byte_safe [OF that] by (auto simp: ctype_defs url_specials_def)
  have "c \<noteq> CHR '' '' \<Longrightarrow> ord c \<noteq> 0x20"
    using ord_inject [of c "CHR '' ''"] by simp
  with Cons x show ?case
    unfolding DpsEscapeURL.simps list_all_iff
    by (cases "c = CHR '' ''") (simp_all add: url_specials_def ball_Un)
qed simp

text \<open>
  An escaped URL has only printable ASCII in it, and of the characters with a meaning in URLs
  and in HTML just the escape sign and the plus sign: it can be put into a page as it is.
\<close>

theorem DpsEscapeURL_safe:
  "set (DpsEscapeURL s) \<subseteq>
     {c. 0x20 < ord c \<and> ord c < 0x7F} - (set url_specials - {CHR ''%'', CHR ''+''})"
  using DpsEscapeURL_all_safe [of s] by (auto simp: list_all_iff)

fun q_encode :: "string \<Rightarrow> string" where
  "q_encode [] = []"
| "q_encode (c # t) =
     (if c_isalnum c then c # q_encode t
      else [CHR ''='', escape_digit (ord c div 16), escape_digit (ord c mod 16)] @ q_encode t)"

lemma escape_digit_plain: "n < 16 \<Longrightarrow> escape_digit n \<noteq> CHR ''?''"
  using hex_digit(2) [of n] by (auto simp: ctype_defs)

lemma q_encode_no_mark: "CHR ''?'' \<notin> set (q_encode t)"
proof (induction t)
  case (Cons c t)
  have "ord c div 16 < 16" using ord_less_256 [of c] by (simp add: less_mult_imp_div_less)
  with Cons escape_digit_plain [of "ord c div 16"] escape_digit_plain [of "ord c mod 16"] show ?case
    by (auto simp: ctype_defs)
qed simp

lemma rfc1522_q_encode: "rfc1522_q (q_encode t @ r) (length (q_encode t)) = t"
proof (induction t)
  case (Cons c t)
  have "ord c div 16 < 16" using ord_less_256 [of c] by (simp add: less_mult_imp_div_less)
  with Cons show ?case
    by (auto simp: char_at_def hex_digit numeral_2_eq_2 numeral_3_eq_3 ctype_defs)
qed simp

lemma no_mark_early: "c \<notin> set b \<Longrightarrow> \<not> sublist [c, d] (b @ [c])"
  by (induction b) (auto simp: sublist_Cons_right)

lemma rfc1522_word:
  assumes "CHR ''?'' \<notin> set cs" and "CHR ''?'' \<notin> set body" and "CHR ''?'' \<noteq> k"
  shows "rfc1522_loop d (''=?'' @ cs @ ''?'' @ [k] @ ''?'' @ body @ ''?='') =
    (if k = CHR ''Q'' \<or> k = CHR ''q'' then Some (d @ rfc1522_q (body @ ''?='') (length body))
     else if k = CHR ''B'' \<or> k = CHR ''b'' then Some (d @ rfc1522_b (body @ ''?='') (length body))
     else Some d)"
proof -
  have "c_strchr (cs @ CHR ''?'' # [k] @ ''?'' @ body @ ''?='') CHR ''?'' =
      Some (cs, CHR ''?'' # [k] @ ''?'' @ body @ ''?='')"
    by (rule c_strchr_append [OF assms(1)])
  moreover have "c_strstr (body @ ''?='' @ []) ''?='' = Some (body, ''?='' @ [])"
    by (rule c_strstr_first) (use no_mark_early [OF assms(2)] in simp_all)
  ultimately show ?thesis
    by (subst rfc1522_loop.simps) (simp add: Let_def rfc1522_loop.simps [of _ "[]"])
qed

text \<open>
  A header with a Q-encoded word decodes to the text: hexadecimal escapes for everything that is
  not alphanumeric, between \<^verbatim>\<open>=?charset?Q?\<close> and \<^verbatim>\<open>?=\<close>.
\<close>

theorem dps_rfc1522_decode_q:
  assumes "CHR ''?'' \<notin> set cs"
  shows "dps_rfc1522_decode (''=?'' @ cs @ ''?'' @ ''Q'' @ ''?'' @ q_encode t @ ''?='') = Some t"
  using rfc1522_word [OF assms q_encode_no_mark, of "CHR ''Q''" "[]" t]
  by (simp add: dps_rfc1522_decode_def rfc1522_q_encode)

theorem dps_rfc1522_decode_q_witness:
  "dps_rfc1522_decode (''=?'' @ ''koi8-r'' @ ''?'' @ ''Q'' @ ''?'' @ q_encode ''a b'' @ ''?='') = Some ''a b''"
  by (rule dps_rfc1522_decode_q) simp

text \<open>
  The pointer \<^verbatim>\<open>data = schema + 2\<close> of \<^verbatim>\<open>dps_rfc1522_decode\<close> is not checked against the
  end of the header: a header that stops right after the character set of an encoded word is read
  past its terminator.
\<close>

theorem dps_rfc1522_decode_overread:
  "dps_rfc1522_decode ''Subject: =?koi8-r?'' = None \<and> dps_rfc1522_decode ''=?koi8-r?B'' = None"
  by code_simp

end
