(* ===== verification/Dps_BoolOps.thy ===== *)
theory Dps_BoolOps
  imports Main "HOL-Library.Word" "HOL-Library.Multiset" "HOL-Library.Sublist"
begin

text \<open>
  The merges of \<^verbatim>\<open>src/boolean.c\<close> on lists of word occurrences. An occurrence
  (\<^verbatim>\<open>DPS_URL_CRD_DB\<close>, without multiple databases) is a document and a coordinate: position,
  section and word number packed in 32 bits. The lists are ordered by \<^verbatim>\<open>DpsCmpUrlid\<close>
  (\<^verbatim>\<open>src/searchtool.c\<close>), which is made the order of the type. A pointer \<^verbatim>\<open>pcur\<close> into a
  list is the list from it on; \<^verbatim>\<open>pcur < plast\<close> is that this list is not empty.
\<close>

unbundle bit_operations_syntax

datatype crd = Crd (url_id: "32 word") (coord: "32 word")

definition DpsCmpUrlid :: "crd \<Rightarrow> crd \<Rightarrow> int" where
  "DpsCmpUrlid s1 s2 =
    (if url_id s1 < url_id s2 then -1
     else if url_id s1 > url_id s2 then 1
     else if coord s1 < coord s2 then -1
     else if coord s1 > coord s2 then 1
     else 0)"

definition DPS_WRDSEC :: "32 word \<Rightarrow> nat" where "DPS_WRDSEC c = unat (drop_bit 8 c AND 0xFF)"
definition DPS_WRDPOS :: "32 word \<Rightarrow> nat" where "DPS_WRDPOS c = unat (drop_bit 16 c)"
definition DPS_WRDNUM :: "32 word \<Rightarrow> nat" where "DPS_WRDNUM c = unat (c AND 0xFF)"

instantiation crd :: linorder
begin

definition less_eq_crd :: "crd \<Rightarrow> crd \<Rightarrow> bool" where "a \<le> b \<longleftrightarrow> DpsCmpUrlid a b \<le> 0"
definition less_crd :: "crd \<Rightarrow> crd \<Rightarrow> bool" where "a < b \<longleftrightarrow> DpsCmpUrlid a b < 0"

instance
proof
  fix x y z :: crd
  show "(x < y) = (x \<le> y \<and> \<not> y \<le> x)"
    by (auto simp: less_eq_crd_def less_crd_def DpsCmpUrlid_def)
  show "x \<le> x" by (simp add: less_eq_crd_def DpsCmpUrlid_def)
  show "x \<le> y \<Longrightarrow> y \<le> z \<Longrightarrow> x \<le> z"
    by (auto simp: less_eq_crd_def DpsCmpUrlid_def split: if_splits)
  show "x \<le> y \<Longrightarrow> y \<le> x \<Longrightarrow> x = y"
    by (cases x; cases y) (auto simp: less_eq_crd_def DpsCmpUrlid_def split: if_splits)
  show "x \<le> y \<or> y \<le> x"
    by (auto simp: less_eq_crd_def DpsCmpUrlid_def)
qed

end

lemma crd_le_iff: "a \<le> b \<longleftrightarrow> url_id a < url_id b \<or> url_id a = url_id b \<and> coord a \<le> coord b"
  by (auto simp: less_eq_crd_def DpsCmpUrlid_def)

lemma crd_less_iff: "a < b \<longleftrightarrow> url_id a < url_id b \<or> url_id a = url_id b \<and> coord a < coord b"
  by (auto simp: less_crd_def DpsCmpUrlid_def)

section \<open>proceedOR\<close>

text \<open>
  The loop moves what is not above the other list's head, then swaps the lists; what is left when
  one list ends is copied.
\<close>

function or_loop :: "crd list \<Rightarrow> crd list \<Rightarrow> crd list" where
  "or_loop x1 x2 =
    (if x1 = [] \<or> x2 = [] then x1 @ x2
     else takeWhile (\<lambda>c. DpsCmpUrlid c (hd x2) \<le> 0) x1 @
          or_loop x2 (dropWhile (\<lambda>c. DpsCmpUrlid c (hd x2) \<le> 0) x1))"
  by pat_completeness auto
termination
proof (relation "measure (\<lambda>(x1, x2). 2 * (length x1 + length x2) +
    (if x1 \<noteq> [] \<and> x2 \<noteq> [] \<and> hd x2 < hd x1 then 1 else 0))", goal_cases)
  case (2 x1 x2)
  then obtain a y b z where x: "x1 = a # y" "x2 = b # z" by (meson list.exhaust)
  show ?case
  proof (cases "DpsCmpUrlid a b \<le> 0")
    case True
    then have "dropWhile (\<lambda>c. DpsCmpUrlid c (hd x2) \<le> 0) x1 = dropWhile (\<lambda>c. DpsCmpUrlid c b \<le> 0) y"
      by (simp add: x)
    moreover have "length (dropWhile (\<lambda>c. DpsCmpUrlid c b \<le> 0) y) \<le> length y"
      by (rule length_dropWhile_le)
    ultimately show ?thesis by (simp add: x)
  next
    case False
    then have "dropWhile (\<lambda>c. DpsCmpUrlid c (hd x2) \<le> 0) x1 = x1" by (simp add: x)
    moreover have "b < a" using False by (simp add: less_eq_crd_def [symmetric] not_le)
    ultimately show ?thesis by (simp add: x)
  qed
qed simp

declare or_loop.simps [simp del]

definition proceedOR :: "crd list \<Rightarrow> crd list \<Rightarrow> crd list" where
  "proceedOR x1 x2 = or_loop x1 x2"

section \<open>proceedSTOP\<close>

text \<open>The occurrences of a stop word are added to the documents the other operand has.\<close>

function stop_loop :: "crd list \<Rightarrow> crd list \<Rightarrow> crd list" where
  "stop_loop x stop =
    (if x = [] then []
     else
       (let s1 = dropWhile (\<lambda>s. url_id s < url_id (hd x)) stop;
            s2 = takeWhile (\<lambda>s. DpsCmpUrlid s (hd x) \<le> 0) s1;
            s3 = dropWhile (\<lambda>s. DpsCmpUrlid s (hd x) \<le> 0) s1;
            out = filter (\<lambda>s. url_id s = url_id (hd x)) s2
        in if s3 = [] then out @ x
           else out @ takeWhile (\<lambda>c. DpsCmpUrlid c (hd s3) \<le> 0) x @
                stop_loop (dropWhile (\<lambda>c. DpsCmpUrlid c (hd s3) \<le> 0) x) s3))"
  by pat_completeness auto
termination
proof (relation "measure (\<lambda>(x, stop). length x)", goal_cases)
  case (2 x stop s1 s2 s3 out)
  then have "\<not> hd s3 \<le> hd x"
    by (metis hd_dropWhile less_eq_crd_def)
  then have "DpsCmpUrlid (hd x) (hd s3) \<le> 0"
    by (metis less_eq_crd_def linear)
  with 2 show ?case
    by (cases x) (auto simp: le_imp_less_Suc length_dropWhile_le)
qed simp

declare stop_loop.simps [simp del]

definition proceedSTOP :: "crd list \<Rightarrow> crd list \<Rightarrow> crd list" where
  "proceedSTOP x stop = (if stop = [] then x else stop_loop x stop)"

section \<open>AND\<close>

text \<open>
  The entries of one document, merged by coordinate: as long as both heads are of the document
  \<open>u\<close>, then what is left of either list. The result is with the two lists after the document.
\<close>

fun doc_zip :: "32 word \<Rightarrow> crd list \<Rightarrow> crd list \<Rightarrow> crd list \<times> crd list \<times> crd list" where
  "doc_zip u (a # x1) (b # x2) =
     (if url_id a = u \<and> url_id b = u then
        (if coord a \<le> coord b
         then (case doc_zip u x1 (b # x2) of (r, y) \<Rightarrow> (a # r, y))
         else (case doc_zip u (a # x1) x2 of (r, y) \<Rightarrow> (b # r, y)))
      else ([], a # x1, b # x2))"
| "doc_zip u x1 x2 = ([], x1, x2)"

definition doc_emit :: "32 word \<Rightarrow> crd list \<Rightarrow> crd list \<Rightarrow> crd list \<times> crd list \<times> crd list" where
  "doc_emit u x1 x2 =
    (let (r, y1, y2) = doc_zip u x1 x2
     in (r @ takeWhile (\<lambda>c. url_id c = u) y1 @ takeWhile (\<lambda>c. url_id c = u) y2,
         dropWhile (\<lambda>c. url_id c = u) y1, dropWhile (\<lambda>c. url_id c = u) y2))"

lemma doc_zip_eq:
  "doc_zip u x1 x2 = (r, y1, y2) \<Longrightarrow>
     dropWhile (\<lambda>c. url_id c = u) y1 = dropWhile (\<lambda>c. url_id c = u) x1 \<and>
     dropWhile (\<lambda>c. url_id c = u) y2 = dropWhile (\<lambda>c. url_id c = u) x2 \<and>
     mset r + mset (takeWhile (\<lambda>c. url_id c = u) y1) + mset (takeWhile (\<lambda>c. url_id c = u) y2) =
     mset (takeWhile (\<lambda>c. url_id c = u) x1) + mset (takeWhile (\<lambda>c. url_id c = u) x2)"
  by (induction u x1 x2 arbitrary: r y1 y2 rule: doc_zip.induct) (auto split: if_splits prod.splits)

lemma doc_emit_eq:
  assumes "doc_emit u x1 x2 = (r, y1, y2)"
  shows "y1 = dropWhile (\<lambda>c. url_id c = u) x1" "y2 = dropWhile (\<lambda>c. url_id c = u) x2"
    "mset r = mset (takeWhile (\<lambda>c. url_id c = u) x1) + mset (takeWhile (\<lambda>c. url_id c = u) x2)"
  using assms doc_zip_eq [of u x1 x2] by (auto simp: doc_emit_def add.assoc split: prod.splits)

lemma dropWhile_hd_shorter: "l \<noteq> [] \<Longrightarrow> P (hd l) \<Longrightarrow> length (dropWhile P l) < length l"
  by (cases l) (auto simp: le_imp_less_Suc length_dropWhile_le)

lemma dropWhile_shorter: "dropWhile P l \<noteq> l \<Longrightarrow> length (dropWhile P l) < length l"
  by (metis append_Nil length_append less_add_same_cancel2 length_greater_0_conv takeWhile_dropWhile_id)

text \<open>
  The loops below swap their lists; they end because the lists get shorter, or stay and then come
  with the smaller document second.
\<close>

definition pair_measure :: "crd list \<times> crd list \<Rightarrow> nat" where
  "pair_measure = (\<lambda>(x1, x2). 2 * (length x1 + length x2) +
     (if x1 \<noteq> [] \<and> x2 \<noteq> [] \<and> url_id (hd x1) < url_id (hd x2) then 1 else 0))"

abbreviation skip_below :: "crd list \<Rightarrow> crd list \<Rightarrow> crd list" where
  "skip_below x1 x2 \<equiv> dropWhile (\<lambda>c. url_id c < url_id (hd x1)) x2"

lemma pair_measure_swap:
  assumes "x1 \<noteq> []" "skip_below x1 x2 \<noteq> []" "url_id (hd (skip_below x1 x2)) \<noteq> url_id (hd x1)"
  shows "pair_measure (skip_below x1 x2, x1) < pair_measure (x1, x2)"
proof -
  have ge: "\<not> url_id (hd (skip_below x1 x2)) < url_id (hd x1)"
    using hd_dropWhile [OF assms(2)] by simp
  show ?thesis
  proof (cases "skip_below x1 x2 = x2")
    case True
    with ge assms show ?thesis by (auto simp: pair_measure_def)
  next
    case False
    then have "length (skip_below x1 x2) < length x2"
      by (rule dropWhile_shorter)
    with ge show ?thesis by (auto simp: pair_measure_def)
  qed
qed

lemma pair_measure_emit:
  assumes "x1 \<noteq> []" "skip_below x1 x2 \<noteq> []" "url_id (hd (skip_below x1 x2)) = url_id (hd x1)"
  shows "pair_measure (dropWhile (\<lambda>c. url_id c = url_id (hd x1)) x1,
      dropWhile (\<lambda>c. url_id c = url_id (hd x1)) (skip_below x1 x2)) < pair_measure (x1, x2)"
proof -
  obtain a y where x1: "x1 = a # y" using assms(1) by (cases x1) auto
  obtain b z where x2: "skip_below x1 x2 = b # z" using assms(2) by (cases "skip_below x1 x2") auto
  have "length (dropWhile P l) \<le> length l" for P :: "crd \<Rightarrow> bool" and l by (rule length_dropWhile_le)
  then have "length (dropWhile (\<lambda>c. url_id c = url_id (hd x1)) x1) \<le> length y"
    "length (dropWhile (\<lambda>c. url_id c = url_id (hd x1)) (skip_below x1 x2)) \<le> length z"
    using assms(3) unfolding x2 by (simp_all add: x1)
  moreover have "length (b # z) \<le> length x2" using x2 by (metis length_dropWhile_le)
  ultimately show ?thesis by (simp add: pair_measure_def x1 x2)
qed

text \<open>
  AND, NEAR and ANYWORD share the loop over the documents both operands have: they differ in the
  test that decides whether the entries of the document are kept. The flag of the test records
  whether the operands are swapped. Whether or not the entries are copied, both pointers end behind
  the document (\<open>doc_emit_eq\<close>).
\<close>

type_synonym doc_test = "bool \<Rightarrow> 32 word \<Rightarrow> crd list \<Rightarrow> crd list \<Rightarrow> bool"

function pair_loop :: "doc_test \<Rightarrow> bool \<Rightarrow> crd list \<Rightarrow> crd list \<Rightarrow> crd list" where
  "pair_loop test flag x1 x2 =
    (if x1 = [] \<or> x2 = [] then []
     else
       (let x2' = skip_below x1 x2; u = url_id (hd x1) in
        if x2' = [] then []
        else if url_id (hd x2') = u
        then (if test flag u x1 x2' then fst (doc_emit u x1 x2') else []) @
             pair_loop test flag (dropWhile (\<lambda>c. url_id c = u) x1) (dropWhile (\<lambda>c. url_id c = u) x2')
        else pair_loop test (\<not> flag) x2' x1))"
  by pat_completeness auto
termination
proof (relation "measure (\<lambda>(test, flag, x1, x2). pair_measure (x1, x2))", goal_cases)
  case (2 test flag x1 x2 x2' u)
  then show ?case using pair_measure_emit [of x1 x2] by simp
next
  case (3 test flag x1 x2 x2' u)
  then show ?case using pair_measure_swap [of x1 x2] by simp
qed simp

declare pair_loop.simps [simp del]

definition and_test :: doc_test where "and_test flag u x1 x2 = True"

definition and_loop :: "crd list \<Rightarrow> crd list \<Rightarrow> crd list" where
  "and_loop x1 x2 = pair_loop and_test False x1 x2"

text \<open>
  AND with a negated second operand. The first loop copies the documents below the second list's
  head, the second loop skips those of the second list. When a list has just ended, the code still
  compares the document number in the element after its last one, which nothing has written: for
  the second list \<open>past x2\<close> stands for it (for the first list the comparison changes nothing).
\<close>

function and_not_loop :: "32 word \<Rightarrow> crd list \<Rightarrow> crd list \<Rightarrow> crd list" where
  "and_not_loop past x1 x2 =
    (if x1 = [] \<or> x2 = [] then x1
     else
       (let r = takeWhile (\<lambda>c. url_id c < url_id (hd x2)) x1;
            x1' = dropWhile (\<lambda>c. url_id c < url_id (hd x2)) x1
        in if x1' = [] then r
           else
             (let x2' = skip_below x1' x2;
                  u = url_id (hd x1');
                  u2 = (if x2' = [] then past else url_id (hd x2'))
              in if u2 = u
                 then r @ and_not_loop past (dropWhile (\<lambda>c. url_id c = u) x1') (dropWhile (\<lambda>c. url_id c = u) x2')
                 else if x2' = [] then r @ x1'
                 else r @ and_not_loop past x1' x2')))"
  by pat_completeness auto
termination
proof (relation "measure (\<lambda>(past, x1, x2). length x1 + length x2)", goal_cases)
  case (2 past x1 x2 r x1' x2' u u2)
  have "length (dropWhile (\<lambda>c. url_id c = u) x1') < length x1'"
    using 2(4,6) by (intro dropWhile_hd_shorter) simp_all
  also have "length x1' \<le> length x1" unfolding 2(3) by (rule length_dropWhile_le)
  finally show ?case
    using length_dropWhile_le [of "\<lambda>c. url_id c = u" x2'] length_dropWhile_le [of _ x2] unfolding 2(5)
    by (simp add: add_less_le_mono le_trans)
next
  case (3 past x1 x2 r x1' x2' u u2)
  have "x1' \<noteq> x1 \<or> x2' \<noteq> x2"
  proof (rule ccontr)
    assume "\<not> (x1' \<noteq> x1 \<or> x2' \<noteq> x2)"
    then have e: "x1' = x1" "x2' = x2" by simp_all
    have ne: "x1' \<noteq> []" "x2' \<noteq> []" and u: "u = url_id (hd x1')"
      and u2: "u2 = (if x2' = [] then past else url_id (hd x2'))" and d: "u2 \<noteq> u"
      using 3 by blast+
    have "\<not> url_id (hd x1') < url_id (hd x2)" "\<not> url_id (hd x2') < url_id (hd x1')"
      using hd_dropWhile [of "\<lambda>c. url_id c < url_id (hd x2)" x1] hd_dropWhile [of "\<lambda>c. url_id c < url_id (hd x1')" x2]
        ne unfolding 3(3,5) by blast+
    with d u u2 ne e show False by auto
  qed
  moreover have "length x1' \<le> length x1" "length x2' \<le> length x2"
    "x1' \<noteq> x1 \<Longrightarrow> length x1' < length x1" "x2' \<noteq> x2 \<Longrightarrow> length x2' < length x2"
    unfolding 3(3,5) by (simp_all add: length_dropWhile_le dropWhile_shorter)
  ultimately show ?case by auto
qed simp

declare and_not_loop.simps [simp del]

section \<open>NEAR and ANYWORD\<close>

definition near_pos :: "crd \<Rightarrow> crd \<Rightarrow> bool" where
  "near_pos a b =
    (let pos1 = DPS_WRDPOS (coord a); pos2 = DPS_WRDPOS (coord b)
     in if pos1 > pos2 then pos2 + 16 \<ge> pos1 else pos1 + 16 \<ge> pos2)"

text \<open>
  The search for a pair of near positions in document \<open>u\<close>: the pointer with the smaller coordinate
  moves on, until it leaves the document.
\<close>

fun near_scan :: "32 word \<Rightarrow> crd list \<Rightarrow> crd list \<Rightarrow> bool" where
  "near_scan u (a # l1) (b # l2) =
     (if near_pos a b then True
      else if coord a \<le> coord b
      then (if l1 = [] \<or> url_id (hd l1) \<noteq> u then False else near_scan u l1 (b # l2))
      else (if l2 = [] \<or> url_id (hd l2) \<noteq> u then False else near_scan u (a # l1) l2))"
| "near_scan u l1 l2 = False"

definition near_test :: "bool \<Rightarrow> doc_test" where
  "near_test neg flag u x1 x2 = (if neg then \<not> near_scan u x1 x2 else near_scan u x1 x2)"

definition near_loop :: "bool \<Rightarrow> crd list \<Rightarrow> crd list \<Rightarrow> crd list" where
  "near_loop neg x1 x2 = pair_loop (near_test neg) False x1 x2"

text \<open>
  The same search for two words with one word between. When the second pointer moves, the code
  reads the new \<^verbatim>\<open>pos2\<close> through the first pointer.
\<close>

fun anyword_scan :: "bool \<Rightarrow> 32 word \<Rightarrow> nat \<Rightarrow> nat \<Rightarrow> crd list \<Rightarrow> crd list \<Rightarrow> bool" where
  "anyword_scan flag u pos1 pos2 (a # l1) (b # l2) =
     (if (if flag then pos1 + 2 = pos2 else pos2 + 2 = pos1) then True
      else if coord a \<le> coord b
      then (if l1 = [] \<or> url_id (hd l1) \<noteq> u then False
            else anyword_scan flag u (DPS_WRDPOS (coord (hd l1))) pos2 l1 (b # l2))
      else (if l2 = [] \<or> url_id (hd l2) \<noteq> u then False
            else anyword_scan flag u pos1 (DPS_WRDPOS (coord a)) (a # l1) l2))"
| "anyword_scan flag u pos1 pos2 l1 l2 = False"

definition anyword_test :: "bool \<Rightarrow> doc_test" where
  "anyword_test neg flag u x1 x2 =
    (let found = anyword_scan flag u (DPS_WRDPOS (coord (hd x1))) (DPS_WRDPOS (coord (hd x2))) x1 x2
     in if neg then \<not> found else found)"

definition anyword_loop :: "bool \<Rightarrow> bool \<Rightarrow> crd list \<Rightarrow> crd list \<Rightarrow> crd list" where
  "anyword_loop neg flag x1 x2 = pair_loop (anyword_test neg) flag x1 x2"

section \<open>Ordered lists\<close>

abbreviation docs :: "crd list \<Rightarrow> 32 word set" where "docs x \<equiv> url_id ` set x"

lemma sorted_urls: "sorted x \<Longrightarrow> sorted (map url_id x)"
  by (induction x) (auto simp: crd_le_iff less_imp_le)

lemma sorted_url_hd: "sorted (a # x) \<Longrightarrow> c \<in> set x \<Longrightarrow> url_id a \<le> url_id c"
  by (auto simp: crd_le_iff)

lemma dropWhile_below: "sorted x \<Longrightarrow> dropWhile (\<lambda>c. url_id c < u) x = filter (\<lambda>c. u \<le> url_id c) x"
proof (induction x)
  case (Cons a x)
  show ?case
  proof (cases "url_id a < u")
    case False
    then have "\<forall>c\<in>set x. u \<le> url_id c" using sorted_url_hd [OF Cons.prems] by fastforce
    with False show ?thesis by (simp add: filter_id_conv)
  qed (use Cons in simp)
qed simp

lemma takeWhile_below: "sorted x \<Longrightarrow> takeWhile (\<lambda>c. url_id c < u) x = filter (\<lambda>c. url_id c < u) x"
proof (induction x)
  case (Cons a x)
  show ?case
  proof (cases "url_id a < u")
    case False
    then have "\<forall>c\<in>set x. \<not> url_id c < u" using sorted_url_hd [OF Cons.prems] by fastforce
    with False show ?thesis by (simp add: filter_empty_conv)
  qed (use Cons in simp)
qed simp

lemma doc_split:
  assumes "sorted x" and "x = [] \<or> u \<le> url_id (hd x)"
  shows "takeWhile (\<lambda>c. url_id c = u) x = filter (\<lambda>c. url_id c = u) x"
    and "dropWhile (\<lambda>c. url_id c = u) x = filter (\<lambda>c. u < url_id c) x"
proof -
  have "takeWhile (\<lambda>c. url_id c = u) x = filter (\<lambda>c. url_id c = u) x \<and>
      dropWhile (\<lambda>c. url_id c = u) x = filter (\<lambda>c. u < url_id c) x"
    using assms
  proof (induction x)
    case (Cons a x)
    show ?case
    proof (cases "url_id a = u")
      case True
      have "x = [] \<or> u \<le> url_id (hd x)"
        using True sorted_url_hd [OF Cons.prems(1), of "hd x"] by (cases x) simp_all
      with Cons True show ?thesis by simp
    next
      case False
      then have "\<forall>c\<in>set x. u < url_id c"
        using Cons.prems sorted_url_hd [OF Cons.prems(1)] by fastforce
      moreover from this have "filter (\<lambda>c. url_id c = u) x = []" "filter (\<lambda>c. u < url_id c) x = x"
        by (auto simp: filter_empty_conv filter_id_conv)
      ultimately show ?thesis using False Cons.prems(2) by auto
    qed
  qed simp
  then show "takeWhile (\<lambda>c. url_id c = u) x = filter (\<lambda>c. url_id c = u) x"
    and "dropWhile (\<lambda>c. url_id c = u) x = filter (\<lambda>c. u < url_id c) x" by auto
qed

lemma doc_zip_sorted:
  "sorted x1 \<Longrightarrow> sorted x2 \<Longrightarrow> sorted (fst (doc_emit u x1 x2))"
proof (induction u x1 x2 rule: doc_zip.induct)
  case (1 u a x1 b x2)
  have sub: "set (fst (doc_emit u y1 y2)) \<subseteq> set y1 \<union> set y2" for y1 y2
  proof -
    obtain r z1 z2 where "doc_emit u y1 y2 = (r, z1, z2)" by (metis prod_cases3)
    from doc_emit_eq(3) [OF this] this have "set_mset (mset r) \<subseteq> set y1 \<union> set y2"
      by (auto dest: set_takeWhileD)
    with \<open>doc_emit u y1 y2 = (r, z1, z2)\<close> show ?thesis by simp
  qed
  show ?case
  proof (cases "url_id a = u \<and> url_id b = u")
    case True
    show ?thesis
    proof (cases "coord a \<le> coord b")
      case le: True
      have "fst (doc_emit u (a # x1) (b # x2)) = a # fst (doc_emit u x1 (b # x2))"
        using True le by (simp add: doc_emit_def split: prod.splits)
      moreover have "a \<le> b" using True le by (simp add: crd_le_iff)
      ultimately show ?thesis
        using 1(1) [OF True le] 1(3,4) sub [of x1 "b # x2"] by fastforce
    next
      case gt: False
      have "fst (doc_emit u (a # x1) (b # x2)) = b # fst (doc_emit u (a # x1) x2)"
        using True gt by (simp add: doc_emit_def split: prod.splits)
      moreover have "b \<le> a" using True gt by (simp add: crd_le_iff)
      ultimately show ?thesis
        using 1(2) [OF True gt] 1(3,4) sub [of "a # x1" x2] by fastforce
    qed
  next
    case False
    then show ?thesis
      using 1(3,4) by (auto simp: doc_emit_def sorted_takeWhile dest: set_takeWhileD)
  qed
qed (auto simp: doc_emit_def sorted_takeWhile)

text \<open>What the loop keeps of a document: the test is asked about its entries alone.\<close>

definition doc_part :: "32 word \<Rightarrow> crd list \<Rightarrow> crd list" where
  "doc_part u x = filter (\<lambda>c. url_id c = u) x"

locale doc_test =
  fixes test :: doc_test
  assumes local: "x1 \<noteq> [] \<Longrightarrow> x2 \<noteq> [] \<Longrightarrow> sorted x1 \<Longrightarrow> sorted x2 \<Longrightarrow> url_id (hd x1) = u \<Longrightarrow> url_id (hd x2) = u \<Longrightarrow>
      test flag u x1 x2 = test flag u (doc_part u x1) (doc_part u x2)"
    and swap: "sorted x1 \<Longrightarrow> sorted x2 \<Longrightarrow> test (\<not> flag) u (doc_part u x2) (doc_part u x1) =
      test flag u (doc_part u x1) (doc_part u x2)"
begin

definition keep :: "bool \<Rightarrow> crd list \<Rightarrow> crd list \<Rightarrow> crd \<Rightarrow> bool" where
  "keep flag x1 x2 c \<longleftrightarrow> url_id c \<in> docs x1 \<inter> docs x2 \<and>
     test flag (url_id c) (doc_part (url_id c) x1) (doc_part (url_id c) x2)"

lemma keep_swap: "sorted x1 \<Longrightarrow> sorted x2 \<Longrightarrow> keep (\<not> flag) x2 x1 = keep flag x1 x2"
  by (auto simp: keep_def swap)

lemma doc_part_above: "u < url_id c \<Longrightarrow> doc_part (url_id c) (filter (\<lambda>c. u < url_id c) x) = doc_part (url_id c) x"
  by (auto simp: doc_part_def intro: filter_cong)

lemma keep_none: "docs x1 \<inter> docs x2 = {} \<Longrightarrow> filter (keep flag x1 x2) x1 = [] \<and> filter (keep flag x1 x2) x2 = []"
  by (auto simp: keep_def filter_empty_conv)

lemma filter_doc_split:
  assumes "\<And>c. c \<in> set x \<Longrightarrow> u \<le> url_id c"
  shows "mset (filter P x) = mset (filter P (doc_part u x)) + mset (filter P (filter (\<lambda>c. u < url_id c) x))"
proof -
  have "filter_mset P (mset x) =
      filter_mset P (filter_mset (\<lambda>c. url_id c = u) (mset x)) + filter_mset P (filter_mset (\<lambda>c. \<not> url_id c = u) (mset x))"
    by (metis filter_union_mset multiset_partition)
  moreover have "filter_mset (\<lambda>c. \<not> url_id c = u) (mset x) = filter_mset (\<lambda>c. u < url_id c) (mset x)"
    using assms by (intro filter_mset_cong) (auto simp: less_le)
  ultimately show ?thesis by (simp add: doc_part_def filter_filter_mset)
qed

lemma pair_loop_mset:
  "sorted x1 \<Longrightarrow> sorted x2 \<Longrightarrow>
     mset (pair_loop test flag x1 x2) = mset (filter (keep flag x1 x2) x1) + mset (filter (keep flag x1 x2) x2)"
proof (induction "pair_measure (x1, x2)" arbitrary: flag x1 x2 rule: less_induct)
  case less
  note srt = less.prems
  let ?x2 = "skip_below x1 x2"
  show ?case
  proof (cases "x1 = [] \<or> x2 = []")
    case True
    then have "docs x1 \<inter> docs x2 = {}" by auto
    from keep_none [OF this] True show ?thesis by (subst pair_loop.simps) auto
  next
    case False
    define u where "u = url_id (hd x1)"
    have ge: "u \<le> url_id c" if "c \<in> set x1" for c
      using that srt(1) by (cases x1) (auto simp: u_def crd_le_iff)
    have x2': "?x2 = filter (\<lambda>c. u \<le> url_id c) x2"
      using dropWhile_below [OF srt(2)] by (simp add: u_def)
    show ?thesis
    proof (cases "?x2 = []")
      case True
      then have "docs x1 \<inter> docs x2 = {}" using ge unfolding x2' by (fastforce simp: filter_empty_conv)
      from keep_none [OF this] True False show ?thesis by (subst pair_loop.simps) auto
    next
      case ne: False
      have s2: "sorted ?x2" unfolding x2' by (rule sorted_filter [where f = id, simplified]) (use srt in simp)
      have low: "keep flag x1 x2 c = False" if "c \<in> set x2" "\<not> u \<le> url_id c" for c
        using that ge by (auto simp: keep_def)
      have part2: "doc_part (url_id c) ?x2 = doc_part (url_id c) x2" if "u \<le> url_id c" for c
        unfolding x2' doc_part_def using that by (auto intro: filter_cong)
      have keep2: "keep flag x1 ?x2 c = keep flag x1 x2 c" if "u \<le> url_id c" for c
        using that part2 [OF that] by (auto simp: keep_def x2')
      have f2: "filter (keep flag x1 x2) x2 = filter (keep flag x1 ?x2) ?x2"
        unfolding x2' filter_filter using low keep2 [unfolded x2'] by (auto intro!: filter_cong)
      have f1: "filter (keep flag x1 x2) x1 = filter (keep flag x1 ?x2) x1"
        using keep2 ge by (auto intro!: filter_cong)
      show ?thesis
      proof (cases "url_id (hd ?x2) = u")
        case eq: True
        let ?r1 = "filter (\<lambda>c. u < url_id c) x1" and ?r2 = "filter (\<lambda>c. u < url_id c) ?x2"
        have h1: "x1 = [] \<or> u \<le> url_id (hd x1)" and h2: "?x2 = [] \<or> u \<le> url_id (hd ?x2)"
          using eq by (simp_all add: u_def)
        have r: "dropWhile (\<lambda>c. url_id c = u) x1 = ?r1" "dropWhile (\<lambda>c. url_id c = u) ?x2 = ?r2"
          using doc_split(2) [OF srt(1) h1] doc_split(2) [OF s2 h2] by auto
        have sr: "sorted ?r1" "sorted ?r2"
          using srt s2 sorted_filter [where f = id, simplified] by blast+
        have IH: "mset (pair_loop test flag ?r1 ?r2) =
            mset (filter (keep flag ?r1 ?r2) ?r1) + mset (filter (keep flag ?r1 ?r2) ?r2)"
          by (rule less.hyps) (use pair_measure_emit [of x1 x2] False ne eq r sr in \<open>simp_all add: u_def\<close>)
        have keepr: "keep flag ?r1 ?r2 c = keep flag x1 ?x2 c" if "u < url_id c" for c
          using that doc_part_above [of u c] by (auto simp: keep_def)
        have IH': "mset (pair_loop test flag ?r1 ?r2) =
            mset (filter (keep flag x1 ?x2) ?r1) + mset (filter (keep flag x1 ?x2) ?r2)"
          unfolding IH using keepr by (auto intro!: arg_cong2 [where f = "(+)"] filter_mset_cong)
        have ku: "keep flag x1 ?x2 c = test flag u x1 ?x2" if "url_id c = u" for c
        proof -
          have "hd x1 \<in> set x1" "hd ?x2 \<in> set ?x2"
            using False ne by (simp_all only: hd_in_set simp_thms de_Morgan_disj not_False_eq_True)
          then have "u \<in> docs x1 \<inter> docs ?x2"
            unfolding u_def using eq by (metis IntI imageI u_def)
          moreover have "test flag u x1 ?x2 = test flag u (doc_part u x1) (doc_part u ?x2)"
            by (rule local) (use False ne srt s2 eq in \<open>simp_all add: u_def\<close>)
          ultimately show ?thesis using that by (simp add: keep_def)
        qed
        have kd: "filter (keep flag x1 ?x2) (doc_part u y) = (if test flag u x1 ?x2 then doc_part u y else [])" for y
          using ku by (auto simp: doc_part_def intro!: filter_cong)
        have emit: "mset (fst (doc_emit u x1 ?x2)) = mset (doc_part u x1) + mset (doc_part u ?x2)"
          using doc_emit_eq(3) [of u x1 ?x2] doc_split(1) [OF srt(1) h1] doc_split(1) [OF s2 h2]
          by (cases "doc_emit u x1 ?x2") (simp add: doc_part_def)
        have "mset (pair_loop test flag x1 x2) =
            (if test flag u x1 ?x2 then mset (doc_part u x1) + mset (doc_part u ?x2) else {#}) +
            mset (pair_loop test flag ?r1 ?r2)"
          using False ne eq emit r by (subst pair_loop.simps) (simp add: Let_def u_def del: dropWhile_eq_Nil_conv)
        also have "\<dots> = mset (filter (keep flag x1 ?x2) x1) + mset (filter (keep flag x1 ?x2) ?x2)"
        proof -
          have e: "mset (filter (keep flag x1 ?x2) x1) =
              mset (filter (keep flag x1 ?x2) (doc_part u x1)) + mset (filter (keep flag x1 ?x2) ?r1)"
            by (rule filter_doc_split) (rule ge)
          have e': "mset (filter (keep flag x1 ?x2) ?x2) =
              mset (filter (keep flag x1 ?x2) (doc_part u ?x2)) + mset (filter (keep flag x1 ?x2) ?r2)"
            by (rule filter_doc_split) (simp add: x2')
          show ?thesis
            unfolding e e' kd IH'
            by (cases "test flag u x1 ?x2") (simp_all only: if_True if_False mset.simps(1) add_0 ac_simps)
        qed
        finally show ?thesis unfolding f1 f2 .
      next
        case ne': False
        have "mset (pair_loop test flag x1 x2) = mset (pair_loop test (\<not> flag) ?x2 x1)"
          using False ne ne' by (subst pair_loop.simps) (simp add: Let_def u_def del: dropWhile_eq_Nil_conv)
        also have "\<dots> = mset (filter (keep (\<not> flag) ?x2 x1) ?x2) + mset (filter (keep (\<not> flag) ?x2 x1) x1)"
          by (rule less.hyps) (use pair_measure_swap [of x1 x2] False ne ne' srt s2 in \<open>simp_all add: u_def\<close>)
        finally show ?thesis unfolding f1 f2 keep_swap [OF srt(1) s2] by (simp add: add.commute)
      qed
    qed
  qed
qed

lemma pair_loop_set:
  "sorted x1 \<Longrightarrow> sorted x2 \<Longrightarrow> set (pair_loop test flag x1 x2) \<subseteq> set x1 \<union> set x2"
proof -
  assume "sorted x1" "sorted x2"
  then have "set_mset (mset (pair_loop test flag x1 x2)) \<subseteq> set x1 \<union> set x2"
    unfolding pair_loop_mset [OF \<open>sorted x1\<close> \<open>sorted x2\<close>] by auto
  then show ?thesis by simp
qed

lemma pair_loop_docs:
  assumes "sorted x1" "sorted x2"
  shows "docs (pair_loop test flag x1 x2) =
    {u \<in> docs x1 \<inter> docs x2. test flag u (doc_part u x1) (doc_part u x2)}"
proof -
  have "docs (pair_loop test flag x1 x2) =
      url_id ` (set (filter (keep flag x1 x2) x1) \<union> set (filter (keep flag x1 x2) x2))"
    using arg_cong [OF pair_loop_mset [OF assms, of flag], of "\<lambda>m. url_id ` set_mset m"] by (simp add: image_Un)
  then show ?thesis by (auto simp: keep_def image_iff)
qed

lemma pair_loop_sorted:
  "sorted x1 \<Longrightarrow> sorted x2 \<Longrightarrow> sorted (pair_loop test flag x1 x2)"
proof (induction "pair_measure (x1, x2)" arbitrary: flag x1 x2 rule: less_induct)
  case less
  note srt = less.prems
  let ?x2 = "skip_below x1 x2" and ?u = "url_id (hd x1)"
  show ?case
  proof (cases "x1 = [] \<or> x2 = [] \<or> ?x2 = []")
    case True
    then show ?thesis by (subst pair_loop.simps) auto
  next
    case False
    have s2: "sorted ?x2" using srt(2) by (rule sorted_dropWhile)
    show ?thesis
    proof (cases "url_id (hd ?x2) = ?u")
      case eq: True
      let ?r1 = "filter (\<lambda>c. ?u < url_id c) x1" and ?r2 = "filter (\<lambda>c. ?u < url_id c) ?x2"
      have r: "dropWhile (\<lambda>c. url_id c = ?u) x1 = ?r1" "dropWhile (\<lambda>c. url_id c = ?u) ?x2 = ?r2"
        using doc_split(2) [OF srt(1), of ?u] doc_split(2) [OF s2, of ?u] eq by auto
      have sr: "sorted ?r1" "sorted ?r2"
        using srt s2 sorted_filter [where f = id, simplified] by blast+
      have "pair_measure (?r1, ?r2) < pair_measure (x1, x2)"
        using pair_measure_emit [of x1 x2] False eq r by simp
      from less.hyps [OF this sr] have IH: "sorted (pair_loop test flag ?r1 ?r2)" .
      have above: "?u < url_id c" if "c \<in> set (pair_loop test flag ?r1 ?r2)" for c
        using that pair_loop_set [OF sr, of flag] by auto
      have doc: "url_id c = ?u" if "c \<in> set (fst (doc_emit ?u x1 ?x2))" for c
      proof -
        obtain e y1 y2 where e: "doc_emit ?u x1 ?x2 = (e, y1, y2)" by (rule prod_cases3)
        from doc_emit_eq(3) [OF e] that
        have "c \<in># mset (takeWhile (\<lambda>c. url_id c = ?u) x1) + mset (takeWhile (\<lambda>c. url_id c = ?u) ?x2)"
          by (simp add: e flip: set_mset_mset)
        then show ?thesis by (auto dest: set_takeWhileD)
      qed
      have "sorted ((if test flag ?u x1 ?x2 then fst (doc_emit ?u x1 ?x2) else []) @ pair_loop test flag ?r1 ?r2)"
      proof (cases "test flag ?u x1 ?x2")
        case True
        have "a \<le> b" if "a \<in> set (fst (doc_emit ?u x1 ?x2))" "b \<in> set (pair_loop test flag ?r1 ?r2)" for a b
          using doc [OF that(1)] above [OF that(2)] unfolding crd_le_iff by simp
        with True IH doc_zip_sorted [OF srt(1) s2, of ?u] show ?thesis
          by (simp only: if_True sorted_append) blast
      next
        case False
        then show ?thesis using IH by (simp only: if_False append_Nil)
      qed
      then show ?thesis using False eq r by (subst pair_loop.simps) (simp add: Let_def del: dropWhile_eq_Nil_conv)
    next
      case False': False
      have "sorted (pair_loop test (\<not> flag) ?x2 x1)"
        by (rule less.hyps) (use pair_measure_swap [of x1 x2] False False' srt s2 in auto)
      then show ?thesis using False False' by (subst pair_loop.simps) (simp add: Let_def del: dropWhile_eq_Nil_conv)
    qed
  qed
qed

end

section \<open>The tests of the code as instances\<close>

interpretation and_op: doc_test and_test
  by unfold_locales (simp_all add: and_test_def)

lemma WRDPOS_mono: "a \<le> b \<Longrightarrow> DPS_WRDPOS a \<le> DPS_WRDPOS b"
  by (simp only: DPS_WRDPOS_def unat_drop_bit_eq drop_bit_eq_div [where 'a = nat] word_le_nat_alt div_le_mono)

lemma near_pos_sym: "near_pos a b = near_pos b a"
  by (auto simp: near_pos_def Let_def)

lemma near_pos_iff:
  "near_pos a b \<longleftrightarrow> \<bar>int (DPS_WRDPOS (coord a)) - int (DPS_WRDPOS (coord b))\<bar> \<le> 16"
  by (auto simp: near_pos_def Let_def)

lemma near_pos_far:
  assumes "\<not> near_pos a b" "coord a \<le> coord b" "coord b \<le> coord c"
  shows "\<not> near_pos a c"
  using assms WRDPOS_mono [OF assms(2)] WRDPOS_mono [OF assms(3)] unfolding near_pos_iff by linarith

lemma doc_part_next: "sorted (a # l) \<Longrightarrow> url_id a = u \<Longrightarrow> l = [] \<or> url_id (hd l) \<noteq> u \<Longrightarrow> doc_part u l = []"
proof -
  assume a: "sorted (a # l)" "url_id a = u" "l = [] \<or> url_id (hd l) \<noteq> u"
  show ?thesis
  proof (cases l)
    case (Cons b l')
    then have "u < url_id b" using a by (auto simp: crd_le_iff)
    moreover have "url_id b \<le> url_id c" if "c \<in> set l" for c
      using a(1) that Cons by (auto simp: crd_le_iff)
    ultimately show ?thesis by (fastforce simp: doc_part_def filter_empty_conv)
  qed (simp add: doc_part_def)
qed

lemma near_scan_iff:
  "sorted x1 \<Longrightarrow> sorted x2 \<Longrightarrow> x1 \<noteq> [] \<Longrightarrow> x2 \<noteq> [] \<Longrightarrow> url_id (hd x1) = u \<Longrightarrow> url_id (hd x2) = u \<Longrightarrow>
     near_scan u x1 x2 \<longleftrightarrow> (\<exists>a\<in>set (doc_part u x1). \<exists>b\<in>set (doc_part u x2). near_pos a b)"
proof (induction u x1 x2 rule: near_scan.induct)
  case (1 u a l1 b l2)
  have au: "url_id a = u" and bu: "url_id b = u" using "1.prems" by simp_all
  have ge1: "coord a \<le> coord c" if "c \<in> set (doc_part u (a # l1))" for c
    using that "1.prems"(1) au by (auto simp: doc_part_def crd_le_iff)
  have ge2: "coord b \<le> coord c" if "c \<in> set (doc_part u (b # l2))" for c
    using that "1.prems"(2) bu by (auto simp: doc_part_def crd_le_iff)
  have d: "doc_part u (a # l1) = a # doc_part u l1" "doc_part u (b # l2) = b # doc_part u l2"
    using au bu by (simp_all add: doc_part_def)
  show ?case
  proof (cases "near_pos a b")
    case True
    then show ?thesis unfolding d by auto
  next
    case far: False
    show ?thesis
    proof (cases "coord a \<le> coord b")
      case le: True
      have no: "\<not> near_pos a c" if "c \<in> set (doc_part u (b # l2))" for c
        using near_pos_far [OF far le ge2 [OF that]] .
      show ?thesis
      proof (cases "l1 = [] \<or> url_id (hd l1) \<noteq> u")
        case True
        with doc_part_next [OF "1.prems"(1) au True] far le no show ?thesis
          by (simp add: d)
      next
        case False
        have "near_scan u l1 (b # l2) \<longleftrightarrow> (\<exists>a\<in>set (doc_part u l1). \<exists>b\<in>set (doc_part u (b # l2)). near_pos a b)"
          by (rule 1(1) [OF far le False]) (use "1.prems" False in auto)
        with far le False no show ?thesis by (auto simp: d(1))
      qed
    next
      case gt: False
      then have le: "coord b \<le> coord a" by simp
      have far': "\<not> near_pos b a" using far by (simp add: near_pos_sym)
      have no: "\<not> near_pos c b" if "c \<in> set (doc_part u (a # l1))" for c
        using near_pos_far [OF far' le ge1 [OF that]] by (simp add: near_pos_sym)
      show ?thesis
      proof (cases "l2 = [] \<or> url_id (hd l2) \<noteq> u")
        case True
        with doc_part_next [OF "1.prems"(2) bu True] far gt no show ?thesis
          by (simp add: d)
      next
        case False
        have "near_scan u (a # l1) l2 \<longleftrightarrow> (\<exists>a\<in>set (doc_part u (a # l1)). \<exists>b\<in>set (doc_part u l2). near_pos a b)"
          by (rule 1(2) [OF far gt False]) (use "1.prems" False in auto)
        with far gt False no show ?thesis by (auto simp: d(2))
      qed
    qed
  qed
qed auto

lemma doc_part_idem: "doc_part u (doc_part u x) = doc_part u x"
  by (simp add: doc_part_def)

lemma sorted_doc_part: "sorted x \<Longrightarrow> sorted (doc_part u x)"
  unfolding doc_part_def by (rule sorted_filter [where f = id, simplified])

lemma near_scan_parts:
  "sorted x1 \<Longrightarrow> sorted x2 \<Longrightarrow> near_scan u (doc_part u x1) (doc_part u x2) \<longleftrightarrow>
     (\<exists>a\<in>set (doc_part u x1). \<exists>b\<in>set (doc_part u x2). near_pos a b)"
proof (cases "doc_part u x1 = [] \<or> doc_part u x2 = []")
  case False
  assume "sorted x1" "sorted x2"
  have "url_id (hd (doc_part u x)) = u" if "doc_part u x \<noteq> []" for x
    using hd_in_set [OF that] by (auto simp: doc_part_def)
  with False near_scan_iff [of "doc_part u x1" "doc_part u x2" u] \<open>sorted x1\<close> \<open>sorted x2\<close> show ?thesis
    by (simp add: doc_part_idem sorted_doc_part)
qed auto

interpretation near_op: doc_test "near_test neg" for neg
proof
  fix x1 x2 :: "crd list" and u :: "32 word" and flag
  show "x1 \<noteq> [] \<Longrightarrow> x2 \<noteq> [] \<Longrightarrow> sorted x1 \<Longrightarrow> sorted x2 \<Longrightarrow> url_id (hd x1) = u \<Longrightarrow> url_id (hd x2) = u \<Longrightarrow>
      near_test neg flag u x1 x2 = near_test neg flag u (doc_part u x1) (doc_part u x2)"
    by (simp add: near_test_def near_scan_iff near_scan_parts)
  show "sorted x1 \<Longrightarrow> sorted x2 \<Longrightarrow> near_test neg (\<not> flag) u (doc_part u x2) (doc_part u x1) =
      near_test neg flag u (doc_part u x1) (doc_part u x2)"
    using near_pos_sym by (simp add: near_test_def near_scan_parts) blast
qed

section \<open>OR, STOP and AND NOT\<close>

lemma mset_or_loop: "mset (or_loop x1 x2) = mset x1 + mset x2"
proof (induction x1 x2 rule: or_loop.induct)
  case (1 x1 x2)
  have "mset x1 = mset (takeWhile P x1) + mset (dropWhile P x1)" for P
    by (metis mset_append takeWhile_dropWhile_id)
  with 1 show ?case by (subst or_loop.simps) (auto simp: ac_simps)
qed

lemma sorted_or_loop: "sorted x1 \<Longrightarrow> sorted x2 \<Longrightarrow> sorted (or_loop x1 x2)"
proof (induction x1 x2 rule: or_loop.induct)
  case (1 x1 x2)
  show ?case
  proof (cases "x1 = [] \<or> x2 = []")
    case True
    with "1.prems" show ?thesis by (subst or_loop.simps) auto
  next
    case False
    let ?P = "\<lambda>c. DpsCmpUrlid c (hd x2) \<le> 0"
    have IH: "sorted (or_loop x2 (dropWhile ?P x1))"
      using 1 False by (simp add: sorted_dropWhile)
    have set_or: "set (or_loop y z) = set y \<union> set z" for y z
      by (metis mset_or_loop set_mset_mset set_mset_union)
    have "a \<le> b" if "a \<in> set (takeWhile ?P x1)" "b \<in> set (or_loop x2 (dropWhile ?P x1))" for a b
    proof -
      have a: "a \<le> hd x2" using set_takeWhileD [OF that(1)] by (simp add: less_eq_crd_def)
      from that(2) have "b \<in> set x2 \<or> b \<in> set (dropWhile ?P x1)" by (simp add: set_or)
      then show ?thesis
      proof
        assume "b \<in> set x2"
        then have "hd x2 \<le> b" using "1.prems"(2) by (cases x2) auto
        with a show ?thesis by simp
      next
        assume b: "b \<in> set (dropWhile ?P x1)"
        have "sorted (takeWhile ?P x1 @ dropWhile ?P x1)" using "1.prems"(1) by simp
        with that(1) b show ?thesis unfolding sorted_append by blast
      qed
    qed
    with IH sorted_takeWhile [OF "1.prems"(1)] False show ?thesis
      by (subst or_loop.simps) (simp add: sorted_append)
  qed
qed

lemma and_not_step:
  assumes "\<not> (x1 = [] \<or> x2 = [])" and x1': "x1' = dropWhile (\<lambda>c. url_id c < url_id (hd x2)) x1"
  shows "x1' = [] \<Longrightarrow> and_not_loop past x1 x2 = takeWhile (\<lambda>c. url_id c < url_id (hd x2)) x1"
    "x1' \<noteq> [] \<Longrightarrow> x2' = skip_below x1' x2 \<Longrightarrow> x2' = [] \<Longrightarrow> past \<noteq> url_id (hd x1') \<Longrightarrow>
       and_not_loop past x1 x2 = takeWhile (\<lambda>c. url_id c < url_id (hd x2)) x1 @ x1'"
    "x1' \<noteq> [] \<Longrightarrow> x2' = skip_below x1' x2 \<Longrightarrow> x2' \<noteq> [] \<Longrightarrow> url_id (hd x2') = url_id (hd x1') \<Longrightarrow>
       and_not_loop past x1 x2 = takeWhile (\<lambda>c. url_id c < url_id (hd x2)) x1 @
         and_not_loop past (dropWhile (\<lambda>c. url_id c = url_id (hd x1')) x1') (dropWhile (\<lambda>c. url_id c = url_id (hd x1')) x2')"
    "x1' \<noteq> [] \<Longrightarrow> x2' = skip_below x1' x2 \<Longrightarrow> x2' \<noteq> [] \<Longrightarrow> url_id (hd x2') \<noteq> url_id (hd x1') \<Longrightarrow>
       and_not_loop past x1 x2 = takeWhile (\<lambda>c. url_id c < url_id (hd x2)) x1 @ and_not_loop past x1' x2'"
  using assms(1)
  by (simp_all only: and_not_loop.simps [of past x1 x2] Let_def x1' [symmetric] if_False if_True simp_thms)

lemma not_docs_above:
  assumes "\<And>c. c \<in> set x \<Longrightarrow> u \<le> url_id c" and "u \<in> docs y"
  shows "filter (\<lambda>c. url_id c \<notin> docs (filter (\<lambda>c. u < url_id c) y)) (filter (\<lambda>c. u < url_id c) x) =
    filter (\<lambda>c. url_id c \<notin> docs y) x"
proof -
  have "(u < url_id c \<and> url_id c \<notin> docs (filter (\<lambda>c. u < url_id c) y)) = (url_id c \<notin> docs y)"
    if "c \<in> set x" for c
  proof (cases "url_id c = u")
    case False
    with assms(1) [OF that] have "u < url_id c" by simp
    then show ?thesis by auto
  qed (use assms(2) in auto)
  then show ?thesis unfolding filter_filter by (intro filter_cong) auto
qed

lemma and_not_loop_filter:
  "sorted x1 \<Longrightarrow> sorted x2 \<Longrightarrow> past \<notin> docs x1 \<Longrightarrow>
     and_not_loop past x1 x2 = filter (\<lambda>c. url_id c \<notin> docs x2) x1"
proof (induction past x1 x2 rule: and_not_loop.induct)
  case (1 past x1 x2)
  note srt = "1.prems"
  show ?case
  proof (cases "x1 = [] \<or> x2 = []")
    case True
    then show ?thesis by (subst and_not_loop.simps) auto
  next
    case False
    let ?h = "url_id (hd x2)"
    let ?r = "takeWhile (\<lambda>c. url_id c < ?h) x1" and ?x1 = "dropWhile (\<lambda>c. url_id c < ?h) x1"
    let ?u = "url_id (hd ?x1)" and ?x2 = "skip_below ?x1 x2"
    have hmin: "?h \<le> url_id c" if "c \<in> set x2" for c
      using that srt(2) by (cases x2) (auto simp: crd_le_iff)
    have r: "filter (\<lambda>c. url_id c \<notin> docs x2) ?r = ?r"
      using hmin by (fastforce simp: filter_id_conv dest: set_takeWhileD)
    have split: "filter (\<lambda>c. url_id c \<notin> docs x2) x1 = ?r @ filter (\<lambda>c. url_id c \<notin> docs x2) ?x1"
      by (metis filter_append r takeWhile_dropWhile_id)
    have s1: "sorted ?x1" and s2: "sorted ?x2" using srt by (simp_all add: sorted_dropWhile)
    have umin: "?u \<le> url_id c" if "c \<in> set ?x1" for c
      using that s1 by (cases ?x1) (auto simp: crd_le_iff)
    have x2: "?x2 = filter (\<lambda>c. ?u \<le> url_id c) x2" using dropWhile_below [OF srt(2)] by simp
    have docs2: "url_id c \<in> docs x2 \<longleftrightarrow> url_id c \<in> docs ?x2" if "c \<in> set ?x1" for c
      using umin [OF that] unfolding x2 by auto
    have f2: "filter (\<lambda>c. url_id c \<notin> docs x2) ?x1 = filter (\<lambda>c. url_id c \<notin> docs ?x2) ?x1"
      by (rule filter_cong [OF refl]) (simp only: docs2)
    show ?thesis
    proof (cases "?x1 = []")
      case True
      with False split show ?thesis by (subst and_not_loop.simps) (simp add: Let_def del: dropWhile_eq_Nil_conv)
    next
      case ne1: False
      have past: "past \<noteq> ?u"
        using srt(3) hd_in_set [OF ne1] by (metis image_eqI set_dropWhileD)
      show ?thesis
      proof (cases "?x2 = []")
        case True
        then have "filter (\<lambda>c. url_id c \<notin> docs ?x2) ?x1 = ?x1" by (simp del: dropWhile_eq_Nil_conv)
        then show ?thesis
          unfolding and_not_step(2) [OF False refl ne1 refl True past] split f2 by (simp only:)
      next
        case ne2: False
        show ?thesis
        proof (cases "url_id (hd ?x2) = ?u")
          case eq: True
          let ?y1 = "dropWhile (\<lambda>c. url_id c = ?u) ?x1" and ?y2 = "dropWhile (\<lambda>c. url_id c = ?u) ?x2"
          have y: "?y1 = filter (\<lambda>c. ?u < url_id c) ?x1" "?y2 = filter (\<lambda>c. ?u < url_id c) ?x2"
            using doc_split(2) [OF s1, of ?u] doc_split(2) [OF s2, of ?u] eq by auto
          have "set ?y1 \<subseteq> set x1" by (meson set_dropWhileD subsetI)
          then have ny: "past \<notin> docs ?y1" using srt(3) by blast
          have sy: "sorted ?y1" "sorted ?y2" using s1 s2 by (simp_all only: sorted_dropWhile)
          have c: "(if ?x2 = [] then past else url_id (hd ?x2)) = ?u" using ne2 eq by (simp only: if_False)
          have "and_not_loop past ?y1 ?y2 = filter (\<lambda>c. url_id c \<notin> docs ?y2) ?y1"
            by (rule 1(1) [OF False refl refl ne1 refl refl refl c sy ny])
          also have "\<dots> = filter (\<lambda>c. url_id c \<notin> docs ?x2) ?x1"
          proof -
            have "?u \<in> docs ?x2" by (rule image_eqI [where x = "hd ?x2"]) (rule eq [symmetric], rule hd_in_set [OF ne2])
            from not_docs_above [OF umin this] show ?thesis unfolding y .
          qed
          finally show ?thesis
            unfolding and_not_step(3) [OF False refl ne1 refl ne2 eq] split f2 by (simp only:)
        next
          case ne: False
          have "and_not_loop past ?x1 ?x2 = filter (\<lambda>c. url_id c \<notin> docs ?x2) ?x1"
          proof (rule 1(2) [OF False refl refl ne1 refl refl refl _ ne2 s1 s2])
            show "(if ?x2 = [] then past else url_id (hd ?x2)) \<noteq> ?u" using ne2 ne by (simp only: if_False not_False_eq_True)
            have "set ?x1 \<subseteq> set x1" by (meson set_dropWhileD subsetI)
            then show "past \<notin> docs ?x1" using srt(3) by blast
          qed
          then show ?thesis
            unfolding and_not_step(4) [OF False refl ne1 refl ne2 ne] split f2 by (simp only:)
        qed
      qed
    qed
  qed
qed

lemma stop_loop_set: "set (stop_loop x stop) \<subseteq> set x \<union> set stop"
proof (induction x stop rule: stop_loop.induct)
  case (1 x stop)
  define s1 where "s1 = dropWhile (\<lambda>s. url_id s < url_id (hd x)) stop"
  define s3 where "s3 = dropWhile (\<lambda>s. DpsCmpUrlid s (hd x) \<le> 0) s1"
  define out where "out = filter (\<lambda>s. url_id s = url_id (hd x)) (takeWhile (\<lambda>s. DpsCmpUrlid s (hd x) \<le> 0) s1)"
  define t where "t = takeWhile (\<lambda>c. DpsCmpUrlid c (hd s3) \<le> 0) x"
  define d where "d = dropWhile (\<lambda>c. DpsCmpUrlid c (hd s3) \<le> 0) x"
  have eq: "stop_loop x stop = (if x = [] then [] else if s3 = [] then out @ x else out @ t @ stop_loop d s3)"
    by (simp only: stop_loop.simps [of x stop] Let_def s1_def s3_def out_def t_def d_def)
  have sub: "set s1 \<subseteq> set stop" "set s3 \<subseteq> set s1" "set out \<subseteq> set s1" "set t \<subseteq> set x" "set d \<subseteq> set x"
    by (auto simp: s1_def s3_def out_def t_def d_def dest: set_takeWhileD set_dropWhileD)
  have "set (stop_loop d s3) \<subseteq> set d \<union> set s3" if "x \<noteq> []" "s3 \<noteq> []"
    by (rule 1 [OF that(1) s1_def refl s3_def refl that(2), folded d_def])
  then have "set (stop_loop d s3) \<subseteq> set x \<union> set stop" if "x \<noteq> []" "s3 \<noteq> []"
    using that sub by blast
  with sub show ?case unfolding eq by auto
qed

lemma stop_loop_docs: "docs (stop_loop x stop) = docs x \<and> mset x \<subseteq># mset (stop_loop x stop)"
proof (induction x stop rule: stop_loop.induct)
  case (1 x stop)
  define s1 where "s1 = dropWhile (\<lambda>s. url_id s < url_id (hd x)) stop"
  define s3 where "s3 = dropWhile (\<lambda>s. DpsCmpUrlid s (hd x) \<le> 0) s1"
  define out where "out = filter (\<lambda>s. url_id s = url_id (hd x)) (takeWhile (\<lambda>s. DpsCmpUrlid s (hd x) \<le> 0) s1)"
  define t where "t = takeWhile (\<lambda>c. DpsCmpUrlid c (hd s3) \<le> 0) x"
  define d where "d = dropWhile (\<lambda>c. DpsCmpUrlid c (hd s3) \<le> 0) x"
  have x: "x = t @ d" by (simp add: t_def d_def)
  have eq: "stop_loop x stop = (if x = [] then [] else if s3 = [] then out @ x else out @ t @ stop_loop d s3)"
    by (simp only: stop_loop.simps [of x stop] Let_def s1_def s3_def out_def t_def d_def)
  show ?case
  proof (cases "x = []")
    case True
    then show ?thesis unfolding eq by simp
  next
    case False
    have o: "docs out \<subseteq> docs x" using False by (auto simp: out_def)
    show ?thesis
    proof (cases "s3 = []")
      case True
      with False o show ?thesis unfolding eq by auto
    next
      case ne: False
      have IH: "docs (stop_loop d s3) = docs d \<and> mset d \<subseteq># mset (stop_loop d s3)"
        by (rule 1 [OF False s1_def refl s3_def refl ne, folded d_def])
      then have "mset (t @ d) \<subseteq># mset (t @ stop_loop d s3)" by simp
      then have "mset x \<subseteq># mset (out @ t @ stop_loop d s3)"
        unfolding x by (metis mset_append mset_subset_eq_add_right subset_mset.order_trans)
      moreover have "docs (out @ t @ stop_loop d s3) = docs x"
        using o IH x by auto
      ultimately show ?thesis using False ne unfolding eq by simp
    qed
  qed
qed

lemma stop_loop_sorted: "sorted x \<Longrightarrow> sorted stop \<Longrightarrow> sorted (stop_loop x stop)"
proof (induction x stop rule: stop_loop.induct)
  case (1 x stop)
  define s1 where "s1 = dropWhile (\<lambda>s. url_id s < url_id (hd x)) stop"
  define s3 where "s3 = dropWhile (\<lambda>s. DpsCmpUrlid s (hd x) \<le> 0) s1"
  define out where "out = filter (\<lambda>s. url_id s = url_id (hd x)) (takeWhile (\<lambda>s. DpsCmpUrlid s (hd x) \<le> 0) s1)"
  define t where "t = takeWhile (\<lambda>c. DpsCmpUrlid c (hd s3) \<le> 0) x"
  define d where "d = dropWhile (\<lambda>c. DpsCmpUrlid c (hd s3) \<le> 0) x"
  have eq: "stop_loop x stop = (if x = [] then [] else if s3 = [] then out @ x else out @ t @ stop_loop d s3)"
    by (simp only: stop_loop.simps [of x stop] Let_def s1_def s3_def out_def t_def d_def)
  have so: "sorted out"
    unfolding out_def s1_def using "1.prems"(2)
    by (intro sorted_filter [where f = id, simplified] sorted_takeWhile sorted_dropWhile)
  have s3: "sorted s3" unfolding s3_def s1_def using "1.prems"(2) by (intro sorted_dropWhile)
  have le: "a \<le> b" if "a \<in> set out" "b \<in> set x" for a b
  proof -
    have "a \<le> hd x" using that(1) by (auto simp: out_def less_eq_crd_def dest: set_takeWhileD)
    also have "hd x \<le> b" using that(2) "1.prems"(1) by (cases x) auto
    finally show ?thesis .
  qed
  show ?case
  proof (cases "x = [] \<or> s3 = []")
    case True
    with so le "1.prems"(1) show ?thesis unfolding eq by (auto simp: sorted_append)
  next
    case False
    then have ne: "x \<noteq> []" "s3 \<noteq> []" by auto
    have x: "x = t @ d" by (simp add: t_def d_def)
    have "sorted d" unfolding d_def using "1.prems"(1) by (rule sorted_dropWhile)
    have IH: "sorted (stop_loop d s3)"
      by (rule 1(1) [OF ne(1) s1_def refl s3_def refl ne(2), folded d_def, OF \<open>sorted d\<close> s3])
    have td: "a \<le> b" if "a \<in> set t" "b \<in> set (stop_loop d s3)" for a b
    proof -
      have a: "a \<le> hd s3" using that(1) by (auto simp: t_def less_eq_crd_def dest: set_takeWhileD)
      from that(2) stop_loop_set [of d s3] have "b \<in> set d \<or> b \<in> set s3" by auto
      then show ?thesis
      proof
        assume "b \<in> set d"
        with that(1) "1.prems"(1) x show ?thesis by (auto simp: sorted_append)
      next
        assume "b \<in> set s3"
        then have "hd s3 \<le> b" using s3 by (cases s3) auto
        with a show ?thesis by simp
      qed
    qed
    have od: "a \<le> b" if "a \<in> set out" "b \<in> set (stop_loop d s3)" for a b
    proof -
      have h: "a \<le> hd x" using le [OF that(1)] ne(1) by simp
      from that(2) stop_loop_set [of d s3] have "b \<in> set d \<or> b \<in> set s3" by auto
      then show ?thesis
      proof
        assume "b \<in> set d"
        with le [OF that(1)] x show ?thesis by simp
      next
        assume "b \<in> set s3"
        then have "hd s3 \<le> b" using s3 by (cases s3) auto
        moreover have "hd x \<le> hd s3"
          using hd_dropWhile [of "\<lambda>s. DpsCmpUrlid s (hd x) \<le> 0" s1] ne(2)
          by (simp add: s3_def flip: less_eq_crd_def)
        ultimately show ?thesis using h by simp
      qed
    qed
    have "sorted t" unfolding t_def using "1.prems"(1) by (rule sorted_takeWhile)
    have "set t \<subseteq> set x" using x by (metis set_append Un_upper1)
    then have ot: "a \<le> b" if "a \<in> set out" "b \<in> set t" for a b
      by (rule le [OF that(1) subsetD [OF _ that(2)]])
    have rest: "sorted (t @ stop_loop d s3)"
      unfolding sorted_append by (intro conjI ballI \<open>sorted t\<close> IH td)
    have "sorted (out @ t @ stop_loop d s3)"
      unfolding sorted_append [of out]
    proof (intro conjI ballI so rest)
      fix a b assume "a \<in> set out" "b \<in> set (t @ stop_loop d s3)"
      then show "a \<le> b" using ot [of a b] od [of a b] by (simp only: set_append Un_iff) metis
    qed
    then show ?thesis unfolding eq using ne by simp
  qed
qed

section \<open>Properties\<close>

text \<open>
  C25. \<^verbatim>\<open>proceedOR\<close> merges: the occurrences of the result are those of both operands, with
  their multiplicities, and ordered operands give an ordered result.
\<close>

theorem proceedOR_merge:
  "mset (proceedOR x1 x2) = mset x1 + mset x2 \<and>
     (sorted x1 \<and> sorted x2) \<le> sorted (proceedOR x1 x2)"
  using mset_or_loop sorted_or_loop by (auto simp: proceedOR_def)

text \<open>
  C2. AND of two ordered lists: an occurrence of an operand is in the result exactly when its
  document is in both operands, as often as it was, and the result is ordered.
\<close>

theorem and_loop_correct:
  assumes "sorted x1" and "sorted x2"
  shows "mset (and_loop x1 x2) = mset (filter (\<lambda>c. url_id c \<in> docs x2) x1) + mset (filter (\<lambda>c. url_id c \<in> docs x1) x2) \<and>
    sorted (and_loop x1 x2)"
proof -
  have "and_op.keep False x1 x2 = (\<lambda>c. url_id c \<in> docs x1 \<and> url_id c \<in> docs x2)"
    by (auto simp: and_op.keep_def and_test_def fun_eq_iff)
  moreover have "filter (\<lambda>c. url_id c \<in> docs x1 \<and> url_id c \<in> docs x2) x1 = filter (\<lambda>c. url_id c \<in> docs x2) x1"
    "filter (\<lambda>c. url_id c \<in> docs x1 \<and> url_id c \<in> docs x2) x2 = filter (\<lambda>c. url_id c \<in> docs x1) x2"
    by (auto intro: filter_cong)
  ultimately show ?thesis
    using and_op.pair_loop_mset [OF assms] and_op.pair_loop_sorted [OF assms]
    by (simp add: and_loop_def del: mset_filter)
qed

theorem and_loop_correct_witness:
  "sorted (and_loop [Crd 1 0x10000, Crd 3 0x20000] [Crd 2 5, Crd 3 7]) \<and>
     docs (and_loop [Crd 1 0x10000, Crd 3 0x20000] [Crd 2 5, Crd 3 7]) = {3}"
proof -
  have s: "sorted [Crd 1 0x10000, Crd 3 0x20000]" "sorted [Crd 2 5, Crd 3 7]"
    by (simp_all add: crd_le_iff)
  have "set (and_loop [Crd 1 0x10000, Crd 3 0x20000] [Crd 2 5, Crd 3 7]) = {Crd 3 0x20000, Crd 3 7}"
    unfolding set_mset_mset [symmetric] using and_loop_correct [OF s] by auto
  then have "docs (and_loop [Crd 1 0x10000, Crd 3 0x20000] [Crd 2 5, Crd 3 7]) = {3}"
    by (simp only:) simp
  with and_loop_correct [OF s] show ?thesis by simp
qed

text \<open>
  C26. AND with a negated operand keeps, in order, the occurrences of the other operand whose
  document the negated one does not have, provided the unwritten element that the code reads past
  the end of the negated list does not hold one of these documents.
\<close>

theorem and_not_loop_correct:
  assumes "sorted x1" and "sorted x2" and "past \<notin> docs x1"
  shows "and_not_loop past x1 x2 = filter (\<lambda>c. url_id c \<notin> docs x2) x1"
  using assms by (rule and_not_loop_filter)

theorem and_not_loop_correct_witness:
  "and_not_loop 0 [Crd 1 1, Crd 3 2] [Crd 3 7] = filter (\<lambda>c. url_id c \<notin> docs [Crd 3 7]) [Crd 1 1, Crd 3 2]"
  by (rule and_not_loop_correct) (simp_all add: crd_le_iff)

text \<open>
  Without this proviso a document is lost: the element past the end of the negated list is
  compared, and when it happens to hold the number of the next document, that document is dropped.
\<close>

theorem and_not_loop_past_end:
  "and_not_loop 5 [Crd 5 1] [Crd 3 7] = [] \<and> and_not_loop 0 [Crd 5 1] [Crd 3 7] = [Crd 5 1]"
  by code_simp

text \<open>
  C19. NEAR keeps a document exactly when both operands have it and some pair of their positions in
  it is at most 16 apart, although the scan looks at each occurrence once; the result is ordered.
\<close>

theorem near_loop_correct:
  assumes "sorted x1" and "sorted x2"
  shows "docs (near_loop False x1 x2) =
      {u. \<exists>a \<in> set x1. \<exists>b \<in> set x2. url_id a = u \<and> url_id b = u \<and>
          \<bar>int (DPS_WRDPOS (coord a)) - int (DPS_WRDPOS (coord b))\<bar> \<le> 16} \<and>
    sorted (near_loop False x1 x2)"
proof -
  have "docs (near_loop False x1 x2) =
      {u \<in> docs x1 \<inter> docs x2. \<exists>a\<in>set (doc_part u x1). \<exists>b\<in>set (doc_part u x2). near_pos a b}"
    using near_op.pair_loop_docs [OF assms, of False False] near_scan_parts [OF assms]
    by (simp add: near_loop_def near_test_def)
  also have "\<dots> = {u. \<exists>a \<in> set x1. \<exists>b \<in> set x2. url_id a = u \<and> url_id b = u \<and>
      \<bar>int (DPS_WRDPOS (coord a)) - int (DPS_WRDPOS (coord b))\<bar> \<le> 16}"
    by (auto simp: doc_part_def near_pos_iff intro: rev_image_eqI)
  finally show ?thesis
    using near_op.pair_loop_sorted [OF assms, of False False] by (simp add: near_loop_def)
qed

theorem near_loop_correct_witness:
  "docs (near_loop False [Crd 1 0x10000, Crd 3 0x20000] [Crd 3 0x90000]) =
      {u. \<exists>a \<in> set [Crd 1 0x10000, Crd 3 0x20000]. \<exists>b \<in> set [Crd 3 0x90000]. url_id a = u \<and> url_id b = u \<and>
          \<bar>int (DPS_WRDPOS (coord a)) - int (DPS_WRDPOS (coord b))\<bar> \<le> 16}"
  using near_loop_correct [of "[Crd 1 0x10000, Crd 3 0x20000]" "[Crd 3 0x90000]"] by (simp add: crd_le_iff)

text \<open>
  C27. A stop word never changes which documents match: \<^verbatim>\<open>proceedSTOP\<close> keeps every occurrence of
  the other operand, adds only occurrences in its documents, and keeps the order.
\<close>

theorem proceedSTOP_docs:
  assumes "sorted x" and "sorted stop"
  shows "docs (proceedSTOP x stop) = docs x \<and> mset x \<subseteq># mset (proceedSTOP x stop) \<and> sorted (proceedSTOP x stop)"
  using stop_loop_docs [of x stop] stop_loop_sorted [OF assms] assms by (simp add: proceedSTOP_def)

theorem proceedSTOP_docs_witness:
  "docs (proceedSTOP [Crd 2 5] [Crd 1 1, Crd 2 2]) = docs [Crd 2 5]"
  using proceedSTOP_docs [of "[Crd 2 5]" "[Crd 1 1, Crd 2 2]"] by (simp add: crd_le_iff)

text \<open>
  ANYWORD misses matches: with the first word at positions 1 and 5 and the second at position 7
  of a document, the words are one apart at 5 and 7, but after moving to position 5 the code
  compares the second word's position with itself, so the document is not found. With the first
  occurrence away, it is.
\<close>

theorem anyword_missed:
  "anyword_loop False False [Crd 1 0x70000] [Crd 1 0x10000, Crd 1 0x50000] = [] \<and>
   anyword_loop False False [Crd 1 0x70000] [Crd 1 0x50000] = [Crd 1 0x50000, Crd 1 0x70000]"
  by code_simp

end
