(* ===== verification/Dps_Boolean.thy ===== *)
theory Dps_Boolean
  imports Dps_BoolOps Dps_Prelude
begin

text \<open>
  The evaluation of a boolean query, \<^verbatim>\<open>src/boolean.c\<close>: the operator and operand stacks, the
  operations \<^verbatim>\<open>perform\<close> applies to occurrence lists, and the main loop of
  \<^verbatim>\<open>DpsCalcBoolItems\<close>; and the list of query words (\<^verbatim>\<open>src/word.c\<close>) it fills on the first
  call.

  The buffer of an item (\<^verbatim>\<open>pbegin\<close>) is \<open>None\<close> when NULL; \<open>i_count\<close> of its entries are in
  use; \<open>i_pcur\<close> is the offset of \<^verbatim>\<open>pcur\<close> from \<^verbatim>\<open>pbegin\<close>, \<open>None\<close> when the two pointers have
  nothing to do with each other. An operation whose outcome depends on such a difference, or on
  other undefined data, has no result (\<open>None\<close>).
\<close>

section \<open>Items\<close>

definition DPS_STACK_BOT :: nat where "DPS_STACK_BOT = 0"
definition DPS_STACK_LEFT :: nat where "DPS_STACK_LEFT = 1"
definition DPS_STACK_RIGHT :: nat where "DPS_STACK_RIGHT = 2"
definition DPS_STACK_PHRASE_LEFT :: nat where "DPS_STACK_PHRASE_LEFT = 3"
definition DPS_STACK_PHRASE_RIGHT :: nat where "DPS_STACK_PHRASE_RIGHT = 4"
definition DPS_STACK_OR :: nat where "DPS_STACK_OR = 5"
definition DPS_STACK_AND :: nat where "DPS_STACK_AND = 6"
definition DPS_STACK_NEAR :: nat where "DPS_STACK_NEAR = 7"
definition DPS_STACK_ANYWORD :: nat where "DPS_STACK_ANYWORD = 8"
definition DPS_STACK_NOT :: nat where "DPS_STACK_NOT = 9"
definition DPS_STACK_WORD :: nat where "DPS_STACK_WORD = 200"
definition DPS_STACK_WORD_NOT :: nat where "DPS_STACK_WORD_NOT = 256"

definition DPS_WORD_ORIGIN_QUERY :: nat where "DPS_WORD_ORIGIN_QUERY = 1"
definition DPS_WORD_ORIGIN_ACRONYM :: nat where "DPS_WORD_ORIGIN_ACRONYM = 8"
definition DPS_WORD_ORIGIN_STOP :: nat where "DPS_WORD_ORIGIN_STOP = 16"

lemmas stack_codes = DPS_STACK_BOT_def DPS_STACK_LEFT_def DPS_STACK_RIGHT_def DPS_STACK_PHRASE_LEFT_def
  DPS_STACK_PHRASE_RIGHT_def DPS_STACK_OR_def DPS_STACK_AND_def DPS_STACK_NEAR_def DPS_STACK_ANYWORD_def
  DPS_STACK_NOT_def DPS_STACK_WORD_def DPS_STACK_WORD_NOT_def

record stack_item =
  i_cmd :: nat
  i_secno :: nat
  i_origin :: nat
  i_order_origin :: nat
  i_buf :: "crd list option"
  i_pcur :: "nat option"
  i_order :: nat
  i_order_inquery :: nat
  i_wordnum :: nat
  i_count :: nat
  i_len :: nat
  i_ulen :: nat
  i_order_from :: nat
  i_order_to :: nat
  i_crcword :: u32
  i_word :: "string option"
  i_uword :: "ustring option"

text \<open>An item set to zero by \<^verbatim>\<open>bzero\<close>.\<close>

definition zero_item :: stack_item where
  "zero_item = \<lparr>i_cmd = 0, i_secno = 0, i_origin = 0, i_order_origin = 0, i_buf = None, i_pcur = Some 0,
     i_order = 0, i_order_inquery = 0, i_wordnum = 0, i_count = 0, i_len = 0, i_ulen = 0,
     i_order_from = 0, i_order_to = 0, i_crcword = 0, i_word = None, i_uword = None\<rparr>"

definition has_bits :: "nat \<Rightarrow> nat \<Rightarrow> bool" where
  "has_bits x m \<longleftrightarrow> x AND m \<noteq> 0"

definition crds_of :: "stack_item \<Rightarrow> crd list" where
  "crds_of it = (case i_buf it of None \<Rightarrow> [] | Some b \<Rightarrow> take (i_count it) b)"

section \<open>The list of query words\<close>

record wideword =
  w_order :: nat
  w_order_inquery :: nat
  w_count :: nat
  w_len :: nat
  w_ulen :: nat
  w_crcword :: u32
  w_origin :: nat
  w_word :: "string option"
  w_uword :: "ustring option"

record wwlist =
  ww_words :: "wideword list"
  ww_nuniq :: nat
  ww_maxulen :: nat

definition opt_length :: "'a list option \<Rightarrow> nat" where
  "opt_length p = (case p of None \<Rightarrow> 0 | Some s \<Rightarrow> length s)"

fun find_index :: "('a \<Rightarrow> bool) \<Rightarrow> 'a list \<Rightarrow> nat option" where
  "find_index P [] = None"
| "find_index P (x # xs) = (if P x then Some 0 else map_option Suc (find_index P xs))"

definition DpsWideWordListAdd :: "wwlist \<Rightarrow> wideword \<Rightarrow> bool \<Rightarrow> wwlist \<times> nat" where
  "DpsWideWordListAdd List Word strict =
    (let origin = w_origin Word;
         same = (if strict \<or> \<not> has_bits origin (DPS_WORD_ORIGIN_QUERY OR DPS_WORD_ORIGIN_STOP)
                 then find_index (\<lambda>w. w_len w = w_len Word \<and> w_uword w = w_uword Word) (ww_words List)
                 else None)
     in case same of
          Some i \<Rightarrow>
            (let w = (ww_words List ! i)\<lparr>w_count := w_count (ww_words List ! i) + w_count Word\<rparr>;
                 w' = (if has_bits origin DPS_WORD_ORIGIN_QUERY then
                         (if \<not> has_bits (w_origin w) DPS_WORD_ORIGIN_STOP
                          then w\<lparr>w_order := w_order Word, w_origin := origin\<rparr> else w)
                       else if has_bits origin DPS_WORD_ORIGIN_STOP
                       then w\<lparr>w_origin := w_origin w OR origin\<rparr> else w);
                 uniq = (if has_bits origin DPS_WORD_ORIGIN_QUERY \<and> \<not> has_bits (w_origin w) DPS_WORD_ORIGIN_STOP
                         then ww_nuniq List + 1 else ww_nuniq List)
             in (List\<lparr>ww_words := (ww_words List)[i := w'], ww_nuniq := uniq\<rparr>, i))
        | None \<Rightarrow>
            (let w = Word\<lparr>w_len := opt_length (w_word Word), w_ulen := opt_length (w_uword Word)\<rparr>
             in (List\<lparr>ww_words := ww_words List @ [w],
                      ww_maxulen := max (ww_maxulen List) (w_ulen w),
                      ww_nuniq := (if has_bits origin DPS_WORD_ORIGIN_QUERY then ww_nuniq List + 1 else ww_nuniq List)\<rparr>,
                 length (ww_words List))))"

section \<open>The result structure\<close>

record dps_result =
  r_items :: "stack_item list"
  r_wwlist :: wwlist
  r_ncmds :: nat
  r_max_order :: nat
  r_max_order_inquery :: nat

text \<open>Items and words past the end are in the part of the arrays that is still zero.\<close>

definition item_at :: "dps_result \<Rightarrow> nat \<Rightarrow> stack_item" where
  "item_at Res i = (if i < length (r_items Res) then r_items Res ! i else zero_item)"

definition word_order :: "dps_result \<Rightarrow> nat \<Rightarrow> nat" where
  "word_order Res n = (if n < length (ww_words (r_wwlist Res)) then w_order (ww_words (r_wwlist Res) ! n) else 0)"

section \<open>Phrases\<close>

text \<open>
  The words of the phrase that are no stop words (\<^verbatim>\<open>order_ideal\<close>), each with the distance to
  the next (\<^verbatim>\<open>gap_ahead\<close>).
\<close>

definition phrase_stop :: "dps_result \<Rightarrow> nat \<Rightarrow> bool" where
  "phrase_stop Res tt = has_bits (i_order_origin (item_at Res tt)) DPS_WORD_ORIGIN_STOP"

definition phrase_ideal :: "dps_result \<Rightarrow> nat \<Rightarrow> nat \<Rightarrow> (nat \<times> nat) list" where
  "phrase_ideal Res from to =
    map (\<lambda>tt. (tt, (if tt = to then 0 else 1) + length (takeWhile (phrase_stop Res) [tt + 1..<to + 1])))
      (filter (\<lambda>tt. \<not> phrase_stop Res tt) [from..<to + 1])"

text \<open>The ring of the last \<^verbatim>\<open>nwords\<close> positions and the word orders found there.\<close>

record phrase_ring =
  p_order :: "nat list"
  p_pos :: "nat list"
  p_ins :: nat
  p_cmp :: nat

definition phrase_put :: "dps_result \<Rightarrow> nat \<Rightarrow> phrase_ring \<Rightarrow> crd \<Rightarrow> phrase_ring" where
  "phrase_put Res nwords ring c =
    ring\<lparr>p_order := (p_order ring)[p_ins ring := word_order Res (DPS_WRDNUM (coord c))],
         p_pos := (p_pos ring)[p_ins ring := DPS_WRDPOS (coord c)],
         p_ins := (p_ins ring + 1) mod nwords, p_cmp := (p_cmp ring + 1) mod nwords\<rparr>"

definition phrase_hit :: "nat \<Rightarrow> (nat \<times> nat) list \<Rightarrow> phrase_ring \<Rightarrow> bool" where
  "phrase_hit nwords ideal ring =
    list_all (\<lambda>tt.
      (let i = (p_cmp ring + tt) mod nwords; gap = snd (ideal ! tt) in
       p_order ring ! i = fst (ideal ! tt) \<and>
       \<not> (gap \<noteq> 0 \<and> tt + gap < nwords \<and>
          p_pos ring ! i + gap \<noteq> p_pos ring ! ((p_cmp ring + tt + 1) mod nwords))))
      [0..<length ideal]"

text \<open>
  One position is taken from the list: all entries with the position of the first, whatever their
  document.
\<close>

definition same_pos_rest :: "crd list \<Rightarrow> crd list" where
  "same_pos_rest cur = dropWhile (\<lambda>c. DPS_WRDPOS (coord c) = DPS_WRDPOS (coord (hd cur))) cur"

fun phrase_fill :: "dps_result \<Rightarrow> nat \<Rightarrow> u32 \<Rightarrow> nat \<Rightarrow> phrase_ring \<Rightarrow> crd list \<Rightarrow> nat \<times> phrase_ring \<times> crd list" where
  "phrase_fill Res nwords u 0 ring cur = (0, ring, cur)"
| "phrase_fill Res nwords u (Suc n) ring cur =
     (if cur \<noteq> [] \<and> url_id (hd cur) = u
      then phrase_fill Res nwords u n (phrase_put Res nwords ring (hd cur)) (same_pos_rest cur)
      else (Suc n, ring, cur))"

lemma same_pos_rest_shorter: "cur \<noteq> [] \<Longrightarrow> length (same_pos_rest cur) < length cur"
  unfolding same_pos_rest_def by (rule dropWhile_hd_shorter) simp_all

function phrase_rest :: "dps_result \<Rightarrow> nat \<Rightarrow> (nat \<times> nat) list \<Rightarrow> u32 \<Rightarrow> phrase_ring \<Rightarrow> crd list \<Rightarrow>
    crd list \<times> phrase_ring \<times> crd list" where
  "phrase_rest Res nwords ideal u ring cur =
    (if cur \<noteq> [] \<and> url_id (hd cur) = u
     then
       (let ring' = phrase_put Res nwords ring (hd cur);
            cur' = same_pos_rest cur;
            out = (if phrase_hit nwords ideal ring' then take (length cur - length cur') cur else []);
            (out', ring'', cur'') = phrase_rest Res nwords ideal u ring' cur'
        in (out @ out', ring'', cur''))
     else ([], ring, cur))"
  by pat_completeness auto
termination
  by (relation "measure (\<lambda>(Res, nwords, ideal, u, ring, cur). length cur)") (auto simp: same_pos_rest_shorter)

declare phrase_rest.simps [simp del]

lemma phrase_fill_length: "length (snd (snd (phrase_fill Res nwords u n ring cur))) \<le> length cur"
proof (induction Res nwords u n ring cur rule: phrase_fill.induct)
  case (2 Res nwords u n ring cur)
  then show ?case using same_pos_rest_shorter [of cur] by auto
qed simp

lemma phrase_fill_shorter:
  "n \<noteq> 0 \<Longrightarrow> cur \<noteq> [] \<Longrightarrow> url_id (hd cur) = u \<Longrightarrow>
     length (snd (snd (phrase_fill Res nwords u n ring cur))) < length cur"
  using phrase_fill_length [of Res nwords u "n - 1" "phrase_put Res nwords ring (hd cur)" "same_pos_rest cur"]
    same_pos_rest_shorter [of cur]
  by (cases n) simp_all

lemma phrase_rest_length: "length (snd (snd (phrase_rest Res nwords ideal u ring cur))) \<le> length cur"
proof (induction Res nwords ideal u ring cur rule: phrase_rest.induct)
  case (1 Res nwords ideal u ring cur)
  show ?case
  proof (cases "cur \<noteq> [] \<and> url_id (hd cur) = u")
    case True
    with 1 [OF True refl refl refl] same_pos_rest_shorter [of cur] show ?thesis
      by (subst phrase_rest.simps) (simp add: Let_def split_beta)
  next
    case False
    then show ?thesis by (subst phrase_rest.simps) (auto simp: Let_def)
  qed
qed

function phrase_loop :: "dps_result \<Rightarrow> nat \<Rightarrow> (nat \<times> nat) list \<Rightarrow> phrase_ring \<Rightarrow> crd list \<Rightarrow> crd list" where
  "phrase_loop Res nwords ideal ring cur =
    (if cur = [] \<or> ideal = [] then []
     else
       (let u = url_id (hd cur); n = length ideal;
            ring0 = ring\<lparr>p_ins := 0, p_cmp := nwords - n,
                         p_pos := replicate (nwords - n) 0 @ drop (nwords - n) (p_pos ring)\<rparr>;
            (left, ring1, cur1) = phrase_fill Res nwords u n ring0 cur;
            out1 = (if left = 0 \<and> phrase_hit nwords ideal ring1 then take (length cur - length cur1) cur else []);
            (out2, ring2, cur2) = phrase_rest Res nwords ideal u ring1 cur1
        in out1 @ out2 @ phrase_loop Res nwords ideal ring2 cur2))"
  by pat_completeness auto
termination
proof (relation "measure (\<lambda>(Res, nwords, ideal, ring, cur). length cur)", goal_cases)
  case (2 Res nwords ideal ring cur u n ring0 p left q ring1 cur1 out1 r out2 s ring2 cur2)
  have "length (snd (snd (phrase_fill Res nwords u n ring0 cur))) < length cur"
    by (rule phrase_fill_shorter) (use 2 in auto)
  moreover have "phrase_fill Res nwords u n ring0 cur = (left, ring1, cur1)" using 2 by simp
  ultimately have "length cur1 < length cur" by simp
  moreover have "length cur2 \<le> length cur1"
  proof -
    have "phrase_rest Res nwords ideal u ring1 cur1 = (out2, ring2, cur2)" using 2 by simp
    then show ?thesis using phrase_rest_length [of Res nwords ideal u ring1 cur1] by simp
  qed
  ultimately show ?case by simp
qed simp

declare phrase_loop.simps [simp del]

text \<open>
  \<^verbatim>\<open>junk\<close> is what \<^verbatim>\<open>DpsMalloc\<close> leaves in the ring. The result overwrites the front of the
  operand's own buffer, and \<^verbatim>\<open>pcur\<close> ends at the end of the operand.
\<close>

definition perform_phrase :: "dps_result \<Rightarrow> (nat \<Rightarrow> nat) \<Rightarrow> stack_item \<Rightarrow> stack_item" where
  "perform_phrase Res junk x1 =
    (if i_order_from x1 \<noteq> i_order_to x1 then
       (let nwords = i_order_to x1 - i_order_from x1 + 1;
            ideal = phrase_ideal Res (i_order_from x1) (i_order_to x1);
            ring = \<lparr>p_order = map junk [0..<nwords], p_pos = map junk [0..<nwords], p_ins = 0, p_cmp = 0\<rparr>;
            out = phrase_loop Res nwords ideal ring (crds_of x1)
        in x1\<lparr>i_buf := map_option (\<lambda>b. out @ drop (length out) b) (i_buf x1), i_count := length out,
              i_pcur := Some (if ideal = [] then 0 else i_count x1)\<rparr>)
     else x1)"

section \<open>perform\<close>

text \<open>
  The operand stack, top first. \<open>past\<close> gives the document number in the element after the end of
  a list, which AND NOT reads.
\<close>

type_synonym astack = "stack_item list"

definition not_flag :: "stack_item \<Rightarrow> bool" where
  "not_flag it = has_bits (i_cmd it) DPS_STACK_WORD_NOT"

definition stop_flag :: "stack_item \<Rightarrow> bool" where
  "stop_flag it = has_bits (i_origin it) DPS_WORD_ORIGIN_STOP"

text \<open>A new result item: the buffer with the entries written, \<^verbatim>\<open>pcur\<close> behind the last.\<close>

definition result_item :: "crd list option \<Rightarrow> nat \<Rightarrow> stack_item \<Rightarrow> stack_item \<Rightarrow> stack_item" where
  "result_item buf origin x1 x2 =
    zero_item\<lparr>i_buf := buf, i_count := opt_length buf, i_pcur := Some (opt_length buf), i_origin := origin,
      i_order_from := min (i_order_from x1) (i_order_from x2),
      i_order_to := max (i_order_to x1) (i_order_to x2)\<rparr>"

definition or_origin :: "nat \<Rightarrow> nat \<Rightarrow> nat \<Rightarrow> nat" where
  "or_origin ncount x1origin x2origin =
    (let sq = DPS_WORD_ORIGIN_STOP OR DPS_WORD_ORIGIN_QUERY;
         st1 = has_bits x1origin DPS_WORD_ORIGIN_STOP; st2 = has_bits x2origin DPS_WORD_ORIGIN_STOP;
         o1 = (if x1origin AND sq = sq then x1origin
               else if x2origin AND sq = sq then x2origin
               else if (st1 \<and> st2) \<or> (ncount = 0 \<and> (st1 \<or> st2)) then DPS_WORD_ORIGIN_STOP
               else 0)
     in if has_bits x1origin DPS_WORD_ORIGIN_ACRONYM \<and> has_bits x1origin DPS_WORD_ORIGIN_ACRONYM
        then o1 OR DPS_WORD_ORIGIN_ACRONYM else o1)"

definition perform_or :: "astack \<Rightarrow> astack" where
  "perform_or s =
    (case s of
       [] \<Rightarrow> [zero_item]
     | [x] \<Rightarrow> [x]
     | x1 # x2 # s' \<Rightarrow>
         (let out = proceedOR (crds_of x1) (crds_of x2)
          in result_item (Some out) (or_origin (length out) (i_origin x1) (i_origin x2)) x1 x2 # s'))"

text \<open>
  NEAR, ANYWORD and AND on two operands, \<open>x1\<close> the top one: stop words first; nothing when both are
  negated; a negated first operand is swapped to the second place.
\<close>

definition meet_crds :: "nat \<Rightarrow> (crd list \<Rightarrow> u32) \<Rightarrow> stack_item \<Rightarrow> stack_item \<Rightarrow> crd list" where
  "meet_crds com past x1 x2 =
    (let flag = not_flag x1;
         (y1, y2) = (if flag then (x2, x1) else (x1, x2));
         neg = (not_flag y2 \<or> not_flag y1)
     in if com = DPS_STACK_NEAR then near_loop neg (crds_of y1) (crds_of y2)
        else if com = DPS_STACK_ANYWORD then anyword_loop neg flag (crds_of y1) (crds_of y2)
        else if not_flag y2 then and_not_loop (past (crds_of y2)) (crds_of y1) (crds_of y2)
        else and_loop (crds_of y1) (crds_of y2))"

definition perform_meet2 :: "nat \<Rightarrow> (crd list \<Rightarrow> u32) \<Rightarrow> stack_item \<Rightarrow> stack_item \<Rightarrow> stack_item" where
  "perform_meet2 com past x1 x2 =
    (if stop_flag x1 \<and> stop_flag x2
     then result_item (Some (proceedOR (crds_of x1) (crds_of x2))) DPS_WORD_ORIGIN_STOP x1 x2
     else if stop_flag x2 then result_item (Some (proceedSTOP (crds_of x1) (crds_of x2))) 0 x1 x2
     else if stop_flag x1 then result_item (Some (proceedSTOP (crds_of x2) (crds_of x1))) 0 x1 x2
     else if \<not> (not_flag x1 \<and> not_flag x2) then result_item (Some (meet_crds com past x1 x2)) 0 x1 x2
     else result_item None 0 x1 x2)"

text \<open>
  With one operand the item is pushed back, but its count is computed anew from the \<^verbatim>\<open>pcur\<close> it
  was left with.
\<close>

definition perform_meet :: "nat \<Rightarrow> (crd list \<Rightarrow> u32) \<Rightarrow> astack \<Rightarrow> astack option" where
  "perform_meet com past s =
    (case s of
       [] \<Rightarrow> Some [zero_item]
     | [x] \<Rightarrow> (case i_pcur x of None \<Rightarrow> None | Some k \<Rightarrow> Some [x\<lparr>i_count := k\<rparr>])
     | x1 # x2 # s' \<Rightarrow> Some (perform_meet2 com past x1 x2 # s'))"

definition perform :: "dps_result \<Rightarrow> (nat \<Rightarrow> nat) \<Rightarrow> (crd list \<Rightarrow> u32) \<Rightarrow> nat \<Rightarrow> astack \<Rightarrow> astack option" where
  "perform Res junk past com s =
    (if com = DPS_STACK_PHRASE_LEFT then
       (case s of [] \<Rightarrow> Some [zero_item] | x1 # s' \<Rightarrow> Some (perform_phrase Res junk x1 # s'))
     else if com = DPS_STACK_OR then Some (perform_or s)
     else if com = DPS_STACK_NEAR \<or> com = DPS_STACK_ANYWORD \<or> com = DPS_STACK_AND then perform_meet com past s
     else if com = DPS_STACK_NOT then
       (case s of [] \<Rightarrow> Some [] | x1 # s' \<Rightarrow> Some (x1\<lparr>i_cmd := i_cmd x1 XOR DPS_STACK_WORD_NOT\<rparr> # s'))
     else Some s)"

section \<open>DpsCalcBoolItems\<close>

text \<open>
  The first pass: a word without occurrences of its own takes those of an earlier item with the
  same hash, with its own word number, restricted to its section.
\<close>

definition renumber :: "nat \<Rightarrow> crd \<Rightarrow> crd" where
  "renumber wordnum c = Crd (url_id c) ((coord c AND 0xFFFFFF00) + (word_of_nat wordnum AND 0xFF))"

definition fill_item :: "stack_item list \<Rightarrow> stack_item \<Rightarrow> stack_item" where
  "fill_item earlier it =
    (if i_cmd it = DPS_STACK_WORD \<and> i_buf it = None \<and> \<not> stop_flag it then
       (case find_index (\<lambda>j. i_crcword j = i_crcword it \<and> i_buf j \<noteq> None \<and> (i_secno j = 0 \<or> i_secno j = i_secno it)) earlier of
          None \<Rightarrow> it
        | Some k \<Rightarrow>
            (let src = crds_of (earlier ! k);
                 out = (if i_secno it = 0 then src else filter (\<lambda>c. DPS_WRDSEC (coord c) = i_secno it) src)
             in it\<lparr>i_buf := Some (map (renumber (i_wordnum it)) out), i_count := length out, i_pcur := None\<rparr>))
     else it)"

fun fill_items :: "stack_item list \<Rightarrow> stack_item list \<Rightarrow> stack_item list" where
  "fill_items earlier [] = earlier"
| "fill_items earlier (it # its) = fill_items (earlier @ [fill_item earlier it]) its"

definition item_word :: "stack_item \<Rightarrow> wideword" where
  "item_word it = \<lparr>w_order = i_order it, w_order_inquery = i_order_inquery it, w_count = i_count it, w_len = 0,
     w_ulen = 0, w_crcword = i_crcword it, w_origin = i_origin it, w_word = i_word it, w_uword = i_uword it\<rparr>"

fun add_words :: "wwlist \<Rightarrow> stack_item list \<Rightarrow> wwlist" where
  "add_words L [] = L"
| "add_words L (it # its) =
     add_words (if i_cmd it = DPS_STACK_WORD then fst (DpsWideWordListAdd L (item_word it) False) else L) its"

text \<open>\<^verbatim>\<open>while (condition on TOPCMD (s)) perform (query, Res, s, POPCMD (s))\<close>.\<close>

fun perform_while :: "(nat \<Rightarrow> bool) \<Rightarrow> dps_result \<Rightarrow> (nat \<Rightarrow> nat) \<Rightarrow> (crd list \<Rightarrow> u32) \<Rightarrow> nat list \<Rightarrow> astack \<Rightarrow>
    (nat list \<times> astack) option" where
  "perform_while P Res junk past [] as = Some ([], as)"
| "perform_while P Res junk past (c # cs) as =
     (if c \<noteq> DPS_STACK_BOT \<and> P c then
        (case perform Res junk past c as of
           None \<Rightarrow> None
         | Some as' \<Rightarrow> perform_while P Res junk past cs as')
      else Some (c # cs, as))"

definition calc_item :: "dps_result \<Rightarrow> (nat \<Rightarrow> nat) \<Rightarrow> (crd list \<Rightarrow> u32) \<Rightarrow> stack_item \<Rightarrow> nat list \<times> astack \<Rightarrow>
    (nat list \<times> astack) option" where
  "calc_item Res junk past it s =
    (let (cs, as) = s; c = i_cmd it in
     if c = DPS_STACK_RIGHT then
       (case perform_while (\<lambda>t. t \<noteq> DPS_STACK_LEFT) Res junk past cs as of
          None \<Rightarrow> None
        | Some (cs', as') \<Rightarrow> Some (if cs' \<noteq> [] \<and> hd cs' = DPS_STACK_LEFT then tl cs' else cs', as'))
     else if c = DPS_STACK_OR \<or> c = DPS_STACK_AND \<or> c = DPS_STACK_NEAR \<or> c = DPS_STACK_ANYWORD then
       (case (if length as > 1 then perform_while (\<lambda>t. c \<le> t) Res junk past cs as else Some (cs, as)) of
          None \<Rightarrow> None
        | Some (cs', as') \<Rightarrow> Some (c # cs', as'))
     else if c = DPS_STACK_LEFT \<or> c = DPS_STACK_PHRASE_LEFT \<or> c = DPS_STACK_NOT then Some (c # cs, as)
     else if c = DPS_STACK_PHRASE_RIGHT then
       (case perform_while (\<lambda>t. t \<noteq> DPS_STACK_PHRASE_LEFT) Res junk past cs as of
          None \<Rightarrow> None
        | Some (cs', as') \<Rightarrow>
            if cs' \<noteq> [] \<and> hd cs' = DPS_STACK_PHRASE_LEFT
            then (case perform Res junk past DPS_STACK_PHRASE_LEFT as' of
                    None \<Rightarrow> None
                  | Some as'' \<Rightarrow> Some (tl cs', as''))
            else Some (cs', as'))
     else if c = DPS_STACK_WORD
       then Some (cs, it\<lparr>i_order_from := i_order it, i_order_to := i_order it\<rparr> # as)
     else Some (cs, it # as))"

fun calc_items :: "dps_result \<Rightarrow> (nat \<Rightarrow> nat) \<Rightarrow> (crd list \<Rightarrow> u32) \<Rightarrow> stack_item list \<Rightarrow> nat list \<times> astack \<Rightarrow>
    (nat list \<times> astack) option" where
  "calc_items Res junk past [] s = Some s"
| "calc_items Res junk past (it # its) s =
     (case calc_item Res junk past it s of
        None \<Rightarrow> None
      | Some s' \<Rightarrow> calc_items Res junk past its s')"

text \<open>What is left of an item that was pushed as an operand: its buffer went to the stack.\<close>

definition released_item :: "stack_item \<Rightarrow> stack_item" where
  "released_item it =
    (let c = i_cmd it in
     if c = DPS_STACK_RIGHT \<or> c = DPS_STACK_OR \<or> c = DPS_STACK_AND \<or> c = DPS_STACK_NEAR \<or> c = DPS_STACK_ANYWORD \<or>
        c = DPS_STACK_LEFT \<or> c = DPS_STACK_PHRASE_LEFT \<or> c = DPS_STACK_NOT \<or> c = DPS_STACK_PHRASE_RIGHT
     then it
     else (if c = DPS_STACK_WORD then it\<lparr>i_order_from := i_order it, i_order_to := i_order it\<rparr> else it)\<lparr>i_buf := None\<rparr>)"

text \<open>
  The whole function; the result is the structure with the words added on the first call, and the new
  coordinate list (\<^verbatim>\<open>Res->CoordList\<close>), or \<open>None\<close> where its length is left as it was: when
  there are no items, or the operand stack ends empty.
\<close>

definition DpsCalcBoolItems :: "(nat \<Rightarrow> nat) \<Rightarrow> (crd list \<Rightarrow> u32) \<Rightarrow> dps_result \<Rightarrow> (dps_result \<times> crd list option) option" where
  "DpsCalcBoolItems junk past Res =
    (if r_items Res = [] then Some (Res, None)
     else
       (let items = fill_items [] (r_items Res);
            L = (if ww_words (r_wwlist Res) = [] then add_words (r_wwlist Res) items else r_wwlist Res);
            Res' = Res\<lparr>r_items := items, r_wwlist := L\<rparr>
        in case calc_items Res' junk past items ([], []) of
             None \<Rightarrow> None
           | Some (cs, as) \<Rightarrow>
               (case perform_while (\<lambda>t. True) Res' junk past cs as of
                  None \<Rightarrow> None
                | Some (_, as') \<Rightarrow> Some (Res'\<lparr>r_items := map released_item items\<rparr>, (case as' of [] \<Rightarrow> None | res # _ \<Rightarrow> Some (crds_of res))))))"

section \<open>Expressions\<close>

text \<open>
  Boolean expressions over words, written with a pair of brackets around each operation, as a
  reference for the stack evaluation.
\<close>

datatype bexp = BWord stack_item | BAnd bexp bexp | BOr bexp bexp | BAndNot bexp bexp

definition cmd_item :: "nat \<Rightarrow> stack_item" where
  "cmd_item c = zero_item\<lparr>i_cmd := c\<rparr>"

fun render :: "bexp \<Rightarrow> stack_item list" where
  "render (BWord it) = [it]"
| "render (BAnd a b) = cmd_item DPS_STACK_LEFT # render a @ cmd_item DPS_STACK_AND # render b @ [cmd_item DPS_STACK_RIGHT]"
| "render (BOr a b) = cmd_item DPS_STACK_LEFT # render a @ cmd_item DPS_STACK_OR # render b @ [cmd_item DPS_STACK_RIGHT]"
| "render (BAndNot a b) = cmd_item DPS_STACK_LEFT # render a @ cmd_item DPS_STACK_AND # cmd_item DPS_STACK_NOT #
     render b @ [cmd_item DPS_STACK_RIGHT]"

text \<open>The documents an expression stands for.\<close>

fun bdocs :: "bexp \<Rightarrow> u32 set" where
  "bdocs (BWord it) = docs (crds_of it)"
| "bdocs (BAnd a b) = bdocs a \<inter> bdocs b"
| "bdocs (BOr a b) = bdocs a \<union> bdocs b"
| "bdocs (BAndNot a b) = bdocs a - bdocs b"

text \<open>Words with ordered occurrences, found, and no stop words.\<close>

definition plain_word :: "stack_item \<Rightarrow> bool" where
  "plain_word it \<longleftrightarrow> i_cmd it = DPS_STACK_WORD \<and> \<not> stop_flag it \<and> i_buf it \<noteq> None \<and> sorted (crds_of it)"

fun bwords :: "bexp \<Rightarrow> stack_item list" where
  "bwords (BWord it) = [it]"
| "bwords (BAnd a b) = bwords a @ bwords b"
| "bwords (BOr a b) = bwords a @ bwords b"
| "bwords (BAndNot a b) = bwords a @ bwords b"

definition value_item :: "u32 set \<Rightarrow> stack_item \<Rightarrow> bool" where
  "value_item D it \<longleftrightarrow> docs (crds_of it) = D \<and> sorted (crds_of it) \<and> \<not> stop_flag it \<and> \<not> not_flag it"

lemma calc_items_append:
  "calc_items Res junk past (xs @ ys) s =
     (case calc_items Res junk past xs s of None \<Rightarrow> None | Some s' \<Rightarrow> calc_items Res junk past ys s')"
  by (induction xs arbitrary: s) (auto split: option.split)

lemma crds_of_result [simp]: "crds_of (result_item (Some out) origin x1 x2) = out"
  by (simp add: result_item_def crds_of_def zero_item_def opt_length_def)

lemma flags_of_result:
  "not_flag (result_item buf origin x1 x2) = False" "stop_flag (result_item buf 0 x1 x2) = False"
  by (simp_all add: not_flag_def stop_flag_def has_bits_def result_item_def zero_item_def)

lemma has_bits_zero [simp]: "has_bits 0 m = False"
  by (simp add: has_bits_def)

lemma value_and:
  "value_item A x2 \<Longrightarrow> value_item B x1 \<Longrightarrow>
     value_item (A \<inter> B) (perform_meet2 DPS_STACK_AND past x1 x2)"
proof -
  assume v: "value_item A x2" "value_item B x1"
  then have s: "sorted (crds_of x1)" "sorted (crds_of x2)" by (simp_all add: value_item_def)
  have "docs (and_loop (crds_of x1) (crds_of x2)) = docs (crds_of x1) \<inter> docs (crds_of x2)"
    using and_op.pair_loop_docs [OF s, of False] by (auto simp: and_loop_def and_test_def)
  moreover have "sorted (and_loop (crds_of x1) (crds_of x2))"
    using and_op.pair_loop_sorted [OF s] by (simp add: and_loop_def)
  ultimately show ?thesis
    using v by (auto simp: value_item_def perform_meet2_def meet_crds_def stack_codes flags_of_result)
qed

lemma value_or:
  "value_item A x2 \<Longrightarrow> value_item B x1 \<Longrightarrow> \<exists>it. perform_or (x1 # x2 # s) = it # s \<and> value_item (A \<union> B) it"
proof -
  assume v: "value_item A x2" "value_item B x1"
  have st: "\<not> has_bits (i_origin x1) DPS_WORD_ORIGIN_STOP" "\<not> has_bits (i_origin x2) DPS_WORD_ORIGIN_STOP"
    using v by (simp_all add: value_item_def stop_flag_def)
  have "x AND 17 \<noteq> 17" if "x AND 16 = 0" for x :: nat
  proof
    assume "x AND 17 = 17"
    then have "(x AND 17) AND 16 = 17 AND 16" by simp
    then have "x AND 16 = 16" by (simp add: and.assoc)
    with that show False by simp
  qed
  then have "or_origin n (i_origin x1) (i_origin x2) AND 16 = 0" for n
    using st by (auto simp: or_origin_def Let_def has_bits_def DPS_WORD_ORIGIN_STOP_def DPS_WORD_ORIGIN_QUERY_def
        DPS_WORD_ORIGIN_ACRONYM_def)
  moreover have "sorted (proceedOR (crds_of x1) (crds_of x2))"
    using v sorted_or_loop by (simp add: proceedOR_def value_item_def)
  moreover have "docs (proceedOR (crds_of x1) (crds_of x2)) = docs (crds_of x1) \<union> docs (crds_of x2)"
    unfolding proceedOR_def image_Un [symmetric] by (metis mset_or_loop set_mset_mset set_mset_union)
  moreover have "stop_flag (result_item buf origin x1 x2) = has_bits origin 16" for buf origin
    by (simp add: stop_flag_def result_item_def zero_item_def DPS_WORD_ORIGIN_STOP_def)
  ultimately show ?thesis
    using v by (auto simp: perform_or_def Let_def value_item_def flags_of_result has_bits_def)
qed

lemma not_bit_toggle: "has_bits (x XOR DPS_STACK_WORD_NOT) DPS_STACK_WORD_NOT \<longleftrightarrow> \<not> has_bits x DPS_STACK_WORD_NOT"
proof -
  have h: "has_bits y DPS_STACK_WORD_NOT \<longleftrightarrow> bit y 8" for y
    using and_exp_eq_0_iff_not_bit [of y 8] by (simp add: has_bits_def DPS_STACK_WORD_NOT_def)
  show ?thesis unfolding h by (simp add: bit_xor_iff DPS_STACK_WORD_NOT_def bit_numeral_rec bit_Suc_0_iff)
qed

lemma crds_of_update [simp]:
  "crds_of (it\<lparr>i_cmd := c\<rparr>) = crds_of it"
  "crds_of (it\<lparr>i_order_from := a\<rparr>) = crds_of it"
  "crds_of (it\<lparr>i_order_to := b\<rparr>) = crds_of it"
  by (simp_all add: crds_of_def split: option.split)

lemma stop_flag_update [simp]: "stop_flag (it\<lparr>i_cmd := c\<rparr>) = stop_flag it"
  by (simp add: stop_flag_def)

lemma value_and_not:
  assumes "value_item A x2" "value_item B x1" "past (crds_of x1) \<notin> A"
  shows "value_item (A - B) (perform_meet2 DPS_STACK_AND past (x1\<lparr>i_cmd := i_cmd x1 XOR DPS_STACK_WORD_NOT\<rparr>) x2)"
proof -
  let ?y = "x1\<lparr>i_cmd := i_cmd x1 XOR DPS_STACK_WORD_NOT\<rparr>"
  have n: "not_flag ?y" using assms(2)
    by (simp add: value_item_def not_flag_def not_bit_toggle)
  have "and_not_loop (past (crds_of x1)) (crds_of x2) (crds_of x1) =
      filter (\<lambda>c. url_id c \<notin> docs (crds_of x1)) (crds_of x2)"
    using assms by (intro and_not_loop_filter) (simp_all add: value_item_def)
  with assms n show ?thesis
    by (auto simp: value_item_def perform_meet2_def meet_crds_def stack_codes flags_of_result
        intro: sorted_filter [where f = id, simplified])
qed

lemma perform_while_left:
  "perform_while (\<lambda>t. t \<noteq> DPS_STACK_LEFT) Res junk past (DPS_STACK_LEFT # cs) as = Some (DPS_STACK_LEFT # cs, as)"
  by simp

lemma calc_op_above_left:
  "c \<in> {DPS_STACK_AND, DPS_STACK_OR} \<Longrightarrow>
     calc_item Res junk past (cmd_item c) (DPS_STACK_LEFT # cs, as) = Some (c # DPS_STACK_LEFT # cs, as)"
  by (auto simp: calc_item_def cmd_item_def stack_codes)

lemma calc_left: "calc_item Res junk past (cmd_item DPS_STACK_LEFT) (cs, as) = Some (DPS_STACK_LEFT # cs, as)"
  and calc_not: "calc_item Res junk past (cmd_item DPS_STACK_NOT) (cs, as) = Some (DPS_STACK_NOT # cs, as)"
  and calc_word: "i_cmd it = DPS_STACK_WORD \<Longrightarrow>
    calc_item Res junk past it (cs, as) = Some (cs, it\<lparr>i_order_from := i_order it, i_order_to := i_order it\<rparr> # as)"
  by (simp_all add: calc_item_def cmd_item_def stack_codes)

lemma calc_right:
  "perform Res junk past c as = Some as' \<Longrightarrow> c \<noteq> DPS_STACK_LEFT \<Longrightarrow> c \<noteq> DPS_STACK_BOT \<Longrightarrow>
     calc_item Res junk past (cmd_item DPS_STACK_RIGHT) (c # DPS_STACK_LEFT # cs, as) = Some (cs, as')"
  by (simp add: calc_item_def cmd_item_def)

lemma calc_right2:
  "perform Res junk past c as = Some as' \<Longrightarrow> c \<noteq> DPS_STACK_LEFT \<Longrightarrow> c \<noteq> DPS_STACK_BOT \<Longrightarrow>
   perform Res junk past d as' = Some as'' \<Longrightarrow> d \<noteq> DPS_STACK_LEFT \<Longrightarrow> d \<noteq> DPS_STACK_BOT \<Longrightarrow>
     calc_item Res junk past (cmd_item DPS_STACK_RIGHT) (c # d # DPS_STACK_LEFT # cs, as) = Some (cs, as'')"
  by (simp add: calc_item_def cmd_item_def)

lemma bdocs_words: "bdocs e \<subseteq> (\<Union>it \<in> set (bwords e). docs (crds_of it))"
  by (induction e) auto

lemma calc_render:
  "\<forall>it \<in> set (bwords e). plain_word it \<Longrightarrow>
   \<forall>l. past l \<notin> (\<Union>it \<in> set (bwords e). docs (crds_of it)) \<Longrightarrow>
     \<exists>it. value_item (bdocs e) it \<and>
       (\<forall>cs as. calc_items Res junk past (render e) (cs, as) = Some (cs, it # as))"
proof (induction e)
  case (BWord it)
  let ?it = "it\<lparr>i_order_from := i_order it, i_order_to := i_order it\<rparr>"
  have "plain_word it" using BWord by simp
  then have "value_item (docs (crds_of it)) ?it" "i_cmd it = DPS_STACK_WORD"
    by (simp_all add: value_item_def plain_word_def stop_flag_def not_flag_def has_bits_def stack_codes)
  then show ?case using calc_word by (auto intro!: exI [of _ ?it])
next
  case (BAnd a b)
  then obtain x y where x: "value_item (bdocs a) x" "\<And>cs as. calc_items Res junk past (render a) (cs, as) = Some (cs, x # as)"
    and y: "value_item (bdocs b) y" "\<And>cs as. calc_items Res junk past (render b) (cs, as) = Some (cs, y # as)"
    by auto
  have p: "perform Res junk past DPS_STACK_AND (y # x # as) = Some (perform_meet2 DPS_STACK_AND past y x # as)" for as
    by (simp add: perform_def perform_meet_def stack_codes)
  show ?case
    using value_and [OF x(1) y(1), of past] x(2) y(2) calc_right [OF p]
    by (intro exI [of _ "perform_meet2 DPS_STACK_AND past y x"])
      (simp add: calc_items_append calc_left calc_op_above_left, simp add: stack_codes)
next
  case (BOr a b)
  then obtain x y where x: "value_item (bdocs a) x" "\<And>cs as. calc_items Res junk past (render a) (cs, as) = Some (cs, x # as)"
    and y: "value_item (bdocs b) y" "\<And>cs as. calc_items Res junk past (render b) (cs, as) = Some (cs, y # as)"
    by auto
  obtain z where z: "value_item (bdocs a \<union> bdocs b) z" "\<And>as. perform_or (y # x # as) = z # as"
    using value_or [OF x(1) y(1)] by (auto simp: perform_or_def Let_def)
  have p: "perform Res junk past DPS_STACK_OR (y # x # as) = Some (z # as)" for as
    by (simp add: perform_def z stack_codes)
  show ?case
    using z(1) x(2) y(2) calc_right [OF p]
    by (intro exI [of _ z]) (simp add: calc_items_append calc_left calc_op_above_left, simp add: stack_codes)
next
  case (BAndNot a b)
  then obtain x y where x: "value_item (bdocs a) x" "\<And>cs as. calc_items Res junk past (render a) (cs, as) = Some (cs, x # as)"
    and y: "value_item (bdocs b) y" "\<And>cs as. calc_items Res junk past (render b) (cs, as) = Some (cs, y # as)"
    by auto
  let ?y = "y\<lparr>i_cmd := i_cmd y XOR DPS_STACK_WORD_NOT\<rparr>"
  have p1: "perform Res junk past DPS_STACK_NOT (y # x # as) = Some (?y # x # as)" for as
    by (simp add: perform_def stack_codes)
  have p2: "perform Res junk past DPS_STACK_AND (?y # x # as) = Some (perform_meet2 DPS_STACK_AND past ?y x # as)" for as
    by (simp add: perform_def perform_meet_def stack_codes)
  have "past (crds_of y) \<notin> (\<Union>it \<in> set (bwords a). docs (crds_of it))" using BAndNot.prems(2) by simp
  then have "past (crds_of y) \<notin> bdocs a" using bdocs_words [of a] by blast
  then show ?case
    using value_and_not [OF x(1) y(1), of past] x(2) y(2) calc_right2 [OF p1 _ _ p2]
    by (intro exI [of _ "perform_meet2 DPS_STACK_AND past ?y x"])
      (simp add: calc_items_append calc_left calc_not calc_op_above_left, simp add: stack_codes)
qed

section \<open>Properties\<close>

lemma fill_items_found:
  "\<forall>it \<in> set its. i_cmd it = DPS_STACK_WORD \<longrightarrow> i_buf it \<noteq> None \<Longrightarrow> fill_items earlier its = earlier @ its"
  by (induction its arbitrary: earlier) (auto simp: fill_item_def)

lemma render_items: "it \<in> set (render e) \<Longrightarrow> i_cmd it = DPS_STACK_WORD \<Longrightarrow>
    \<forall>w \<in> set (bwords e). plain_word w \<Longrightarrow> i_buf it \<noteq> None"
  by (induction e) (auto simp: plain_word_def cmd_item_def stack_codes)

lemma render_nonempty: "render e \<noteq> []"
  by (cases e) auto

text \<open>
  C1. The stack machine computes what the query says: for every expression of AND, OR and AND NOT
  over found words, written with brackets, \<^verbatim>\<open>DpsCalcBoolItems\<close> ends with an ordered list of
  occurrences whose documents are the intersections, unions and differences the expression stands
  for, whatever the uninitialised memory holds, as long as it does not name one of the words'
  documents.
\<close>

theorem DpsCalcBoolItems_expression:
  assumes "r_items Res = render e" and "\<forall>it \<in> set (bwords e). plain_word it"
    and "\<forall>l. past l \<notin> (\<Union>it \<in> set (bwords e). docs (crds_of it))"
  shows "\<exists>Res' coords. DpsCalcBoolItems junk past Res = Some (Res', Some coords) \<and>
    docs coords = bdocs e \<and> sorted coords"
proof -
  have "fill_items [] (render e) = render e"
    using fill_items_found [of "render e" "[]"] render_items [of _ e] assms(2) by auto
  moreover define Res' where "Res' = Res\<lparr>r_items := render e,
    r_wwlist := (if ww_words (r_wwlist Res) = [] then add_words (r_wwlist Res) (render e) else r_wwlist Res)\<rparr>"
  moreover obtain it where "value_item (bdocs e) it"
    "\<And>cs as. calc_items Res' junk past (render e) (cs, as) = Some (cs, it # as)"
    using calc_render [OF assms(2,3), of Res' junk] by blast
  ultimately show ?thesis
    using render_nonempty [of e] by (simp add: DpsCalcBoolItems_def assms(1) Let_def value_item_def)
qed

definition word_item :: "nat \<Rightarrow> crd list \<Rightarrow> stack_item" where
  "word_item k l = zero_item\<lparr>i_cmd := DPS_STACK_WORD, i_origin := DPS_WORD_ORIGIN_QUERY, i_order := k,
     i_order_inquery := k, i_wordnum := k, i_buf := Some l, i_count := length l, i_pcur := Some 0\<rparr>"

definition query_of :: "stack_item list \<Rightarrow> dps_result" where
  "query_of items = \<lparr>r_items = items, r_wwlist = \<lparr>ww_words = [], ww_nuniq = 0, ww_maxulen = 0\<rparr>, r_ncmds = 0,
     r_max_order = 0, r_max_order_inquery = 0\<rparr>"

theorem DpsCalcBoolItems_expression_witness:
  "\<exists>Res' coords. DpsCalcBoolItems (\<lambda>_. 0) (\<lambda>_. 0)
      (query_of (render (BAnd (BWord (word_item 0 [Crd 1 9, Crd 2 9])) (BWord (word_item 1 [Crd 2 5]))))) =
        Some (Res', Some coords) \<and>
    docs coords = bdocs (BAnd (BWord (word_item 0 [Crd 1 9, Crd 2 9])) (BWord (word_item 1 [Crd 2 5]))) \<and> sorted coords"
proof (rule DpsCalcBoolItems_expression)
  show "\<forall>it \<in> set (bwords (BAnd (BWord (word_item 0 [Crd 1 9, Crd 2 9])) (BWord (word_item 1 [Crd 2 5])))). plain_word it"
    by (simp add: plain_word_def word_item_def zero_item_def crds_of_def stop_flag_def has_bits_def crd_le_iff
        DPS_WORD_ORIGIN_STOP_def DPS_WORD_ORIGIN_QUERY_def)
qed (auto simp: query_of_def word_item_def crds_of_def zero_item_def)

text \<open>
  A NOT before the first operand has no effect: \<open>~a & b\<close> is evaluated as \<open>a & b\<close>. With one
  operand on the stack the AND does not perform the pending NOT, which in the end is applied to the
  result, where nothing looks at it.
\<close>

theorem DpsCalcBoolItems_leading_not:
  "map_option snd (DpsCalcBoolItems junk past (query_of
      [cmd_item DPS_STACK_NOT, word_item 0 [Crd 1 9, Crd 2 9], cmd_item DPS_STACK_AND, word_item 1 [Crd 2 5, Crd 3 5]])) =
   map_option snd (DpsCalcBoolItems junk past (query_of
      [word_item 0 [Crd 1 9, Crd 2 9], cmd_item DPS_STACK_AND, word_item 1 [Crd 2 5, Crd 3 5]])) \<and>
   map_option snd (DpsCalcBoolItems junk past (query_of
      [cmd_item DPS_STACK_NOT, word_item 0 [Crd 1 9, Crd 2 9], cmd_item DPS_STACK_AND, word_item 1 [Crd 2 5, Crd 3 5]])) =
   Some (Some [Crd 2 5, Crd 2 9])"
  by code_simp

text \<open>
  An AND, NEAR or ANYWORD that finds one operand only loses it: its count becomes the distance
  from the start of its buffer to where \<^verbatim>\<open>pcur\<close> was left, which is 0 for a word just read.
\<close>

theorem DpsCalcBoolItems_single_operand:
  "map_option snd (DpsCalcBoolItems junk past (query_of [word_item 0 [Crd 1 9, Crd 2 9], cmd_item DPS_STACK_AND])) =
     Some (Some []) \<and>
   map_option snd (DpsCalcBoolItems junk past (query_of [word_item 0 [Crd 1 9, Crd 2 9], cmd_item DPS_STACK_OR])) =
     Some (Some [Crd 1 9, Crd 2 9])"
  by code_simp

lemma phrase_fill_suffix: "suffix (snd (snd (phrase_fill Res nwords u n ring cur))) cur"
proof (induction Res nwords u n ring cur rule: phrase_fill.induct)
  case (2 Res nwords u n ring cur)
  have "suffix (same_pos_rest cur) cur" by (simp add: same_pos_rest_def suffix_dropWhile)
  with 2 show ?case by (auto intro: suffix_order.trans)
qed simp

lemma subseq_front:
  assumes "suffix r cur" and "subseq out r'" and "suffix r' r"
  shows "subseq ((if b then take (length cur - length r) cur else []) @ out) cur"
proof -
  from assms(1) obtain p where cur: "cur = p @ r" by (auto simp: suffix_def)
  have "subseq out r" using assms(2,3) by (meson subseq_order.trans suffix_imp_subseq)
  then show ?thesis by (cases b) (simp_all add: cur list_emb_append_mono list_emb_append2)
qed

lemma phrase_rest_subseq:
  "suffix (snd (snd (phrase_rest Res nwords ideal u ring cur))) cur \<and>
   subseq (fst (phrase_rest Res nwords ideal u ring cur) @ snd (snd (phrase_rest Res nwords ideal u ring cur))) cur"
proof (induction Res nwords ideal u ring cur rule: phrase_rest.induct)
  case (1 Res nwords ideal u ring cur)
  show ?case
  proof (cases "cur \<noteq> [] \<and> url_id (hd cur) = u")
    case True
    let ?ring = "phrase_put Res nwords ring (hd cur)"
    let ?r = "phrase_rest Res nwords ideal u ?ring (same_pos_rest cur)"
    have s: "suffix (same_pos_rest cur) cur" by (simp add: same_pos_rest_def suffix_dropWhile)
    note IH = 1 [OF True refl refl refl]
    have e: "phrase_rest Res nwords ideal u ring cur =
        ((if phrase_hit nwords ideal ?ring then take (length cur - length (same_pos_rest cur)) cur else []) @ fst ?r, snd ?r)"
      using True by (subst phrase_rest.simps) (simp add: Let_def split_beta)
    show ?thesis
      unfolding e using IH s subseq_front [OF s, of "fst ?r @ snd (snd ?r)" "same_pos_rest cur"]
      by (auto intro: suffix_order.trans)
  next
    case False
    then show ?thesis by (subst (1 2 3) phrase_rest.simps) auto
  qed
qed

lemma phrase_loop_subseq: "subseq (phrase_loop Res nwords ideal ring cur) cur"
proof (induction Res nwords ideal ring cur rule: phrase_loop.induct)
  case (1 Res nwords ideal ring cur)
  show ?case
  proof (cases "cur = [] \<or> ideal = []")
    case True
    then show ?thesis by (subst phrase_loop.simps) auto
  next
    case False
    define u where "u = url_id (hd cur)"
    define ring0 where "ring0 = ring\<lparr>p_ins := 0, p_cmp := nwords - length ideal,
      p_pos := replicate (nwords - length ideal) 0 @ drop (nwords - length ideal) (p_pos ring)\<rparr>"
    obtain left ring1 cur1 where f: "phrase_fill Res nwords u (length ideal) ring0 cur = (left, ring1, cur1)"
      by (rule prod_cases3)
    obtain out2 ring2 cur2 where r: "phrase_rest Res nwords ideal u ring1 cur1 = (out2, ring2, cur2)"
      by (rule prod_cases3)
    have s1: "suffix cur1 cur" using phrase_fill_suffix [of Res nwords u "length ideal" ring0 cur] f by simp
    have s2: "subseq (out2 @ cur2) cur1" using phrase_rest_subseq [of Res nwords ideal u ring1 cur1] r by simp
    have IH: "subseq (phrase_loop Res nwords ideal ring2 cur2) cur2"
      by (rule 1 [OF False u_def refl ring0_def f [symmetric] refl refl refl r [symmetric] refl]) simp
    then have "subseq (out2 @ phrase_loop Res nwords ideal ring2 cur2) cur1"
      using s2 by (meson list_emb_append_mono subseq_order.refl subseq_order.trans)
    from subseq_front [OF s1 this] have "subseq ((if left = 0 \<and> phrase_hit nwords ideal ring1
        then take (length cur - length cur1) cur else []) @ out2 @ phrase_loop Res nwords ideal ring2 cur2) cur"
      by simp
    then show ?thesis
      using False f r by (subst phrase_loop.simps) (simp add: Let_def u_def ring0_def)
  qed
qed

text \<open>
  The phrase filter only removes: what it leaves are occurrences of its operand, in their order,
  and the buffer is never overrun, whatever the uninitialised ring holds.
\<close>

theorem perform_phrase_subseq:
  "subseq (crds_of (perform_phrase Res junk x1)) (crds_of x1) \<and>
   map_option length (i_buf (perform_phrase Res junk x1)) = map_option length (i_buf x1)"
proof (cases "i_order_from x1 \<noteq> i_order_to x1 \<and> i_buf x1 \<noteq> None")
  case True
  then obtain b where b: "i_buf x1 = Some b" by auto
  define out where "out = phrase_loop Res (i_order_to x1 - i_order_from x1 + 1)
    (phrase_ideal Res (i_order_from x1) (i_order_to x1))
    \<lparr>p_order = map junk [0..<i_order_to x1 - i_order_from x1 + 1],
     p_pos = map junk [0..<i_order_to x1 - i_order_from x1 + 1], p_ins = 0, p_cmp = 0\<rparr> (crds_of x1)"
  have s: "subseq out (crds_of x1)" unfolding out_def by (rule phrase_loop_subseq)
  then have "length out \<le> length b"
    using list_emb_length [OF s] by (simp add: crds_of_def b)
  moreover have "i_buf (perform_phrase Res junk x1) = Some (out @ drop (length out) b)"
    "i_count (perform_phrase Res junk x1) = length out"
    using True by (simp_all add: perform_phrase_def Let_def out_def b del: upt_Suc)
  ultimately show ?thesis using s by (simp add: crds_of_def b)
next
  case False
  then show ?thesis by (auto simp: perform_phrase_def Let_def crds_of_def)
qed

definition phrase_query :: "crd list \<Rightarrow> crd list \<Rightarrow> dps_result" where
  "phrase_query a b = query_of [cmd_item DPS_STACK_PHRASE_LEFT, word_item 0 a, cmd_item DPS_STACK_AND,
     word_item 1 b, cmd_item DPS_STACK_PHRASE_RIGHT]"

text \<open>
  The filter takes all entries with the same position for one place in a document, without
  looking at the document. A document that starts at the position where the one before it ended
  loses its first word: with \<open>a\<close> and \<open>b\<close> at 5 and 6 of document 2, and at 1 and 5 of document 1,
  the phrase \<open>"a b"\<close> is not found. The first word can also be counted to the document before: with
  \<open>a b\<close> at 1 and 2 of document 1, and at 2 and 9 of document 2, both are found.
\<close>

theorem phrase_crosses_documents:
  "map_option snd (DpsCalcBoolItems (\<lambda>_. 0) past (phrase_query
     [Crd 1 0x10000, Crd 2 0x50000] [Crd 1 0x50001, Crd 2 0x60001])) = Some (Some []) \<and>
   map_option snd (DpsCalcBoolItems (\<lambda>_. 0) past (phrase_query [Crd 2 0x50000] [Crd 2 0x60001])) =
     Some (Some [Crd 2 0x50000, Crd 2 0x60001]) \<and>
   map_option snd (DpsCalcBoolItems (\<lambda>_. 0) past (phrase_query
     [Crd 1 0x10000, Crd 2 0x20000] [Crd 1 0x20001, Crd 2 0x90001])) =
     Some (Some [Crd 1 0x10000, Crd 1 0x20001, Crd 2 0x20000])"
  by code_simp

end
