(* ===== verification/Dps_Base.thy ===== *)
theory Dps_Base
  imports Dps_Prelude
begin

text \<open>
  The record store of \<^verbatim>\<open>src/base.c\<close>: documents and word lists by 32-bit id, in pairs of an index
  file and a storage file. The index starts with a hash table of \<^verbatim>\<open>DPS_HASH_PRIME\<close> items; items
  with the same hash are chained by file offset, new ones go to the end. The storage file is only
  appended to or overwritten in place.

  The pair exists; a position in the index file is counted in items (the code's byte offsets are
  multiples of the item size), and \<open>it_next = 0\<close> ends a chain. \<open>bf_torn\<close> says that a part of one more
  item follows the items of the index, as after an interrupted write: reading there is a partial read.
  Seeking succeeds; writing succeeds in a file that is open for writing and fails in one that is open
  for reading. Locks and file names are not modelled.

  An operation has the value \<open>None\<close> in two cases: the chain of a damaged index does not end, so that the
  code searches for ever; or an item would go behind a part of an item, at an offset that is no multiple
  of the item size, which is outside the model. The error returns of the code are values.
\<close>

section \<open>Files\<close>

definition DPS_HASH_PRIME :: nat where "DPS_HASH_PRIME = 4093"

definition DPS_HASH :: "u32 \<Rightarrow> nat" where
  "DPS_HASH x = unat (x AND 0xFFFF) mod DPS_HASH_PRIME"

definition DPS_FILENO :: "u32 \<Rightarrow> nat \<Rightarrow> nat" where
  "DPS_FILENO x NFILES = unat (drop_bit 16 x AND 0xFFFF) mod NFILES"

record baseitem =
  it_rec_id :: u32
  it_offset :: nat
  it_next :: nat
  it_size :: nat
  it_orig_size :: nat

definition zero_baseitem :: baseitem where
  "zero_baseitem = \<lparr>it_rec_id = 0, it_offset = 0, it_next = 0, it_size = 0, it_orig_size = 0\<rparr>"

record base_file =
  bf_index :: "baseitem list"
  bf_torn :: bool
  bf_store :: string

text \<open>A new index file: the empty hash table.\<close>

definition new_base_file :: base_file where
  "new_base_file = \<lparr>bf_index = replicate DPS_HASH_PRIME zero_baseitem, bf_torn = False, bf_store = []\<rparr>"

text \<open>Writing at a position of a file: over what is there, and on past the end; a gap reads as zeros.\<close>

definition write_at :: "'a \<Rightarrow> 'a list \<Rightarrow> nat \<Rightarrow> 'a list \<Rightarrow> 'a list" where
  "write_at zero file pos data =
     take pos file @ replicate (pos - length file) zero @ data @ drop (pos + length data) file"

definition write_item :: "base_file \<Rightarrow> nat \<Rightarrow> baseitem \<Rightarrow> base_file" where
  "write_item f pos it = f\<lparr>bf_index := write_at zero_baseitem (bf_index f) pos [it]\<rparr>"

text \<open>
  How a file is open, and the handle of a \<^verbatim>\<open>DPS_BASE_PARAM\<close>: \<open>None\<close> when the pair of the
  record is not open, because none is or another one.
\<close>

datatype base_mode = DPS_READ_LOCK | DPS_WRITE_LOCK

type_synonym base_handle = "base_mode option"

datatype dps_status = DPS_OK | DPS_ERROR

text \<open>Writing an item; \<open>None\<close> is \<^verbatim>\<open>DPS_ERROR\<close>: the index is \<^verbatim>\<open>O_RDONLY\<close> when it is open for reading.\<close>

definition DpsBaseWriteItem :: "base_mode \<Rightarrow> base_file \<Rightarrow> nat \<Rightarrow> baseitem \<Rightarrow> base_file option" where
  "DpsBaseWriteItem m f pos it = (if m = DPS_READ_LOCK then None else Some (write_item f pos it))"

section \<open>Finding a record\<close>

text \<open>The state of a \<^verbatim>\<open>DPS_BASE_PARAM\<close> after a search.\<close>

record base_pos =
  bp_item :: baseitem
  bp_current :: nat
  bp_previous :: nat
  bp_mishash :: bool

text \<open>
  How a search ends: at an item; at a link that leads past the end of the file, with the position
  before; at a part of an item.
\<close>

datatype search_end = Found base_pos | Past_end base_pos | Partial_item

text \<open>Following a chain until the record or the end of the chain.\<close>

partial_function (option) chain_search ::
  "baseitem list \<Rightarrow> bool \<Rightarrow> u32 \<Rightarrow> base_pos \<Rightarrow> search_end option" where
  "chain_search idx torn r p =
    (if it_next (bp_item p) \<noteq> 0 \<and> it_rec_id (bp_item p) \<noteq> r then
       (let n = it_next (bp_item p); p' = p\<lparr>bp_previous := bp_current p, bp_current := n\<rparr> in
        if n < length idx then chain_search idx torn r (p'\<lparr>bp_item := idx ! n\<rparr>)
        else if torn \<and> n = length idx then Some Partial_item
        else Some (Past_end p'))
     else Some (Found p))"

declare chain_search.simps [code]

definition search_start :: "baseitem list \<Rightarrow> u32 \<Rightarrow> base_pos" where
  "search_start idx r =
    (let h = DPS_HASH r; it = (if h < length idx then idx ! h else zero_baseitem) in
     \<lparr>bp_item = it, bp_current = h, bp_previous = h,
      bp_mishash = (it_rec_id it \<noteq> r \<and> it_rec_id it \<noteq> 0)\<rparr>)"

definition base_search :: "baseitem list \<Rightarrow> bool \<Rightarrow> u32 \<Rightarrow> search_end option" where
  "base_search idx torn r =
    (let p = search_start idx r in if bp_mishash p then chain_search idx torn r p else Some (Found p))"

text \<open>
  The search of \<^verbatim>\<open>DpsBaseOpen\<close> in the mode \<open>m\<close>: a broken chain is cut before the break and the
  search starts again, three times at most. The position is \<open>None\<close> for \<^verbatim>\<open>DPS_ERROR\<close>: the chain
  leads to a part of an item, or it is broken and the file is open for reading.
\<close>

fun open_search :: "base_mode \<Rightarrow> nat \<Rightarrow> base_file \<Rightarrow> u32 \<Rightarrow> base_pos \<Rightarrow> (base_file \<times> base_pos option) option" where
  "open_search m 0 f r p = Some (f, Some p)"
| "open_search m (Suc z) f r p =
     (case base_search (bf_index f) (bf_torn f) r of
        None \<Rightarrow> None
      | Some (Found p) \<Rightarrow> Some (f, Some p)
      | Some Partial_item \<Rightarrow> Some (f, None)
      | Some (Past_end p) \<Rightarrow>
          (let it = (bf_index f ! bp_previous p)\<lparr>it_next := 0\<rparr>
           in case DpsBaseWriteItem m f (bp_previous p) it of
                None \<Rightarrow> Some (f, None)
              | Some f \<Rightarrow> open_search m z f r (p\<lparr>bp_item := it\<rparr>)))"

definition DpsBaseOpen :: "base_mode \<Rightarrow> base_file \<Rightarrow> u32 \<Rightarrow> (base_file \<times> base_pos option) option" where
  "DpsBaseOpen m f r = open_search m 3 f r (search_start (bf_index f) r)"

text \<open>
  The search of \<^verbatim>\<open>DpsBaseSeek\<close> in a file that is open in the mode \<open>m\<close>: an index that is shorter
  than its hash table is an error; a broken chain is cut in the same way, and the search ends there.
\<close>

definition seek_opened :: "base_mode \<Rightarrow> base_file \<Rightarrow> u32 \<Rightarrow> (base_file \<times> base_pos option) option" where
  "seek_opened m f r =
    (if length (bf_index f) \<le> DPS_HASH r then Some (f, None)
     else
       (case base_search (bf_index f) (bf_torn f) r of
          None \<Rightarrow> None
        | Some (Found p) \<Rightarrow> Some (f, Some p)
        | Some Partial_item \<Rightarrow> Some (f, None)
        | Some (Past_end p) \<Rightarrow>
            (let it = (bf_index f ! bp_previous p)\<lparr>it_next := 0\<rparr>
             in case DpsBaseWriteItem m f (bp_previous p) it of
                  None \<Rightarrow> Some (f, None)
                | Some f \<Rightarrow> Some (f, Some (p\<lparr>bp_item := it\<rparr>)))))"

text \<open>
  \<^verbatim>\<open>DpsBaseSeek\<close> opens a file that is not open, and opens one again for writing that is open for
  reading; a file that is open for writing is read as it is. The handle afterwards follows.
\<close>

definition seek_opens :: "base_handle \<Rightarrow> base_mode \<Rightarrow> bool" where
  "seek_opens h mode = (case h of None \<Rightarrow> True | Some m \<Rightarrow> m \<noteq> mode \<and> m = DPS_READ_LOCK)"

definition DpsBaseSeek :: "base_handle \<Rightarrow> base_mode \<Rightarrow> base_file \<Rightarrow> u32 \<Rightarrow> (base_file \<times> base_pos option) option" where
  "DpsBaseSeek h mode f r = (if seek_opens h mode then DpsBaseOpen mode f r else seek_opened (the h) f r)"

definition handle_after :: "base_handle \<Rightarrow> base_mode \<Rightarrow> dps_status \<Rightarrow> base_handle" where
  "handle_after h mode st =
    (if seek_opens h mode then (if st = DPS_OK then Some mode else None) else h)"

section \<open>Reading, writing, deleting\<close>

text \<open>
  The zlib parameters: \<open>None\<close> without compression, else what deflating and inflating a buffer
  give.
\<close>

type_synonym zlib = "((string \<Rightarrow> string) \<times> (string \<Rightarrow> string)) option"

text \<open>An item behind a part of an item would not be aligned.\<close>

definition unaligned :: "base_file \<Rightarrow> nat \<Rightarrow> bool" where
  "unaligned f pos \<longleftrightarrow> bf_torn f \<and> length (bf_index f) \<le> pos"

definition DpsBaseDelete :: "base_handle \<Rightarrow> base_file \<Rightarrow> u32 \<Rightarrow> (base_file \<times> dps_status) option" where
  "DpsBaseDelete h f r =
    (case DpsBaseSeek h DPS_WRITE_LOCK f r of
       None \<Rightarrow> None
     | Some (f, None) \<Rightarrow> Some (f, DPS_ERROR)
     | Some (f, Some p) \<Rightarrow>
         if it_rec_id (bp_item p) = r
         then if unaligned f (bp_current p) then None
              else Some (write_item f (bp_current p) ((bp_item p)\<lparr>it_rec_id := 0\<rparr>), DPS_OK)
         else Some (f, DPS_OK))"

text \<open>The bytes \<^verbatim>\<open>DpsBaseWrite\<close> stores for a buffer, and the original size it notes.\<close>

definition base_pack :: "zlib \<Rightarrow> string \<Rightarrow> string \<times> nat" where
  "base_pack z buffer =
    (case z of None \<Rightarrow> (buffer, 0) | Some (deflate, _) \<Rightarrow> (deflate buffer, length buffer))"

definition DpsBaseWrite ::
  "zlib \<Rightarrow> base_handle \<Rightarrow> base_file \<Rightarrow> u32 \<Rightarrow> string \<Rightarrow> (base_file \<times> dps_status) option" where
  "DpsBaseWrite z h f r buffer =
    (let (data, orig_size) = base_pack z buffer;
         sz = length data
     in case DpsBaseSeek h DPS_WRITE_LOCK f r of
          None \<Rightarrow> None
        | Some (f, None) \<Rightarrow> Some (f, DPS_ERROR)
        | Some (f, Some p) \<Rightarrow>
            (let it = bp_item p; send = length (bf_store f);
                 (f', cur, it) =
                   (if it_rec_id it = r
                    then (f, bp_current p, if it_size it < sz then it\<lparr>it_offset := send\<rparr> else it)
                    else if bp_mishash p \<and> it_rec_id it \<noteq> 0
                    then (let n = length (bf_index f)
                          in (write_item f (bp_current p) (it\<lparr>it_next := n\<rparr>), n,
                              it\<lparr>it_next := 0, it_rec_id := r, it_offset := send\<rparr>))
                    else (f, bp_current p, it\<lparr>it_rec_id := r, it_offset := send\<rparr>));
                 f' = f'\<lparr>bf_store := write_at (CHR 0x00) (bf_store f') (it_offset it) data\<rparr>
             in if unaligned f cur then None
                else Some (write_item f' cur (it\<lparr>it_size := sz, it_orig_size := orig_size\<rparr>), DPS_OK)))"

text \<open>
  \<^verbatim>\<open>DpsBaseARead\<close>: the file and the data, \<open>None\<close> when there is no record. A compressed record
  whose data cannot be read in full is deleted.
\<close>

definition read_at :: "string \<Rightarrow> nat \<Rightarrow> nat \<Rightarrow> string" where
  "read_at store offset n = take n (drop offset store)"

definition DpsBaseARead :: "zlib \<Rightarrow> base_handle \<Rightarrow> base_file \<Rightarrow> u32 \<Rightarrow> (base_file \<times> string option) option" where
  "DpsBaseARead z h f r =
    (case DpsBaseSeek h DPS_READ_LOCK f r of
       None \<Rightarrow> None
     | Some (f, None) \<Rightarrow> Some (f, None)
     | Some (f, Some p) \<Rightarrow>
         (let it = bp_item p; raw = read_at (bf_store f) (it_offset it) (it_size it) in
          if it_rec_id it = r then
            (case z of
               Some (_, inflate) \<Rightarrow>
                 if it_orig_size it \<noteq> 0 then
                   (if length raw \<noteq> it_size it
                    then (case DpsBaseDelete (handle_after h DPS_READ_LOCK DPS_OK) f r of
                            None \<Rightarrow> None | Some (f', _) \<Rightarrow> Some (f', None))
                    else Some (f, Some (inflate raw)))
                 else if length raw \<noteq> it_size it then Some (f, None)
                 else Some (f, Some raw)
             | None \<Rightarrow>
                 if length raw \<noteq> it_size it then Some (f, None) else Some (f, Some raw))
          else Some (f, None)))"

text \<open>
  \<^verbatim>\<open>DpsBaseRead\<close> into a buffer of \<open>len\<close> bytes: the bytes read, \<open>None\<close> for the error returns.
\<close>

definition DpsBaseRead :: "zlib \<Rightarrow> base_handle \<Rightarrow> base_file \<Rightarrow> u32 \<Rightarrow> nat \<Rightarrow> (base_file \<times> string option) option" where
  "DpsBaseRead z h f r len =
    (case DpsBaseSeek h DPS_READ_LOCK f r of
       None \<Rightarrow> None
     | Some (f, None) \<Rightarrow> Some (f, None)
     | Some (f, Some p) \<Rightarrow>
         (let it = bp_item p; raw = read_at (bf_store f) (it_offset it) (it_size it) in
          if it_rec_id it = r then
            if (if it_orig_size it \<noteq> 0 then it_orig_size it else it_size it) > len then Some (f, None)
            else if length raw \<noteq> it_size it then Some (f, None)
            else
              (case z of
                 Some (_, inflate) \<Rightarrow>
                   if it_orig_size it \<noteq> 0 then Some (f, Some (inflate raw)) else Some (f, Some raw)
               | None \<Rightarrow> Some (f, Some raw))
          else Some (f, None)))"

text \<open>
  \<^verbatim>\<open>DpsBaseCheckup\<close> on file \<open>i\<close> of the store: the file is opened for reading by the id \<open>i << 16\<close>
  and passed over when that fails; the ids of the index that the check does not know are collected,
  the file is closed, and they are deleted one after the other, whatever a deletion returns. The ids
  of the index are those of its file.
\<close>

definition base_lost :: "(u32 \<Rightarrow> bool) \<Rightarrow> base_file \<Rightarrow> u32 list" where
  "base_lost checkrec f =
    filter (\<lambda>r. \<not> checkrec r) (map it_rec_id (filter (\<lambda>it. it_rec_id it \<noteq> 0) (bf_index f)))"

fun base_delete_all :: "base_handle \<Rightarrow> base_file \<Rightarrow> u32 list \<Rightarrow> base_file option" where
  "base_delete_all h f [] = Some f"
| "base_delete_all h f (r # rs) =
     (case DpsBaseDelete h f r of
        None \<Rightarrow> None
      | Some (f', st) \<Rightarrow> base_delete_all (handle_after h DPS_WRITE_LOCK st) f' rs)"

definition base_checkup_file :: "(u32 \<Rightarrow> bool) \<Rightarrow> nat \<Rightarrow> base_file \<Rightarrow> base_file option" where
  "base_checkup_file checkrec i f =
     (case DpsBaseOpen DPS_READ_LOCK f (push_bit 16 (of_nat i)) of
        None \<Rightarrow> None
      | Some (f, None) \<Rightarrow> Some f
      | Some (f, Some _) \<Rightarrow> base_delete_all None f (base_lost checkrec f))"

text \<open>The file an operation leaves when it returns \<^verbatim>\<open>DPS_OK\<close>.\<close>

definition if_ok :: "('a \<times> dps_status) option \<Rightarrow> 'a option" where
  "if_ok res = (case res of Some (x, DPS_OK) \<Rightarrow> Some x | _ \<Rightarrow> None)"

end
