(* ===== verification/Dps_Store.thy ===== *)
theory Dps_Store
  imports Main
begin

text \<open>
  The contract of the two keyed stores of the program, the record files of \<^verbatim>\<open>src/base.c\<close> and
  the variable lists of \<^verbatim>\<open>src/vars.c\<close>: a state stands for a map, writing updates it at
  the key and reading looks it up. Keys that the store takes for the same one, as names in another
  case, have the same normal form.
\<close>

text \<open>
  What a client of a record store relies on: writing updates the map with the encoded buffer,
  reading decodes what the map has.
\<close>

locale record_store =
  fixes ok :: "'s \<Rightarrow> bool" and view :: "'s \<Rightarrow> 'k \<Rightarrow> 'v option" and key :: "'k \<Rightarrow> bool"
    and norm :: "'k \<Rightarrow> 'k"
    and enc :: "'b \<Rightarrow> 'v" and dec :: "'v \<Rightarrow> 'b"
    and put :: "'s \<Rightarrow> 'k \<Rightarrow> 'b \<Rightarrow> 's option" and get :: "'s \<Rightarrow> 'k \<Rightarrow> ('s \<times> 'b option) option"
  assumes put_law: "ok s \<Longrightarrow> key k \<Longrightarrow> \<exists>s'. put s k b = Some s' \<and> ok s' \<and> view s' = (view s)(norm k \<mapsto> enc b)"
    and get_law: "ok s \<Longrightarrow> key k \<Longrightarrow> get s k = Some (s, map_option dec (view s (norm k)))"

text \<open>Writing a list of records one after the other.\<close>

fun store_all :: "('s \<Rightarrow> 'k \<Rightarrow> 'b \<Rightarrow> 's option) \<Rightarrow> 's \<Rightarrow> ('k \<times> 'b) list \<Rightarrow> 's option" where
  "store_all put s [] = Some s"
| "store_all put s ((k, b) # kbs) =
     (case put s k b of None \<Rightarrow> None | Some s' \<Rightarrow> store_all put s' kbs)"

context record_store
begin

lemma store_all_view:
  "ok s \<Longrightarrow> list_all (\<lambda>(k, b). key k) kbs \<Longrightarrow>
   \<exists>s'. store_all put s kbs = Some s' \<and> ok s' \<and>
     view s' = view s ++ map_of (rev (map (\<lambda>(k, b). (norm k, enc b)) kbs))"
proof (induction kbs arbitrary: s)
  case (Cons kb kbs)
  obtain k b where kb: "kb = (k, b)" by fastforce
  obtain s1 where s1: "put s k b = Some s1" "ok s1" "view s1 = (view s)(norm k \<mapsto> enc b)"
    using put_law [OF Cons.prems(1), of k b] Cons.prems(2) kb by auto
  obtain s2 where "store_all put s1 kbs = Some s2" "ok s2"
    "view s2 = view s1 ++ map_of (rev (map (\<lambda>(k, b). (norm k, enc b)) kbs))"
    using Cons.IH [OF s1(2)] Cons.prems(2) by auto
  with s1 kb show ?case by (simp add: map_add_def fun_eq_iff split: option.splits)
qed simp

lemma store_all_get:
  assumes "ok s" "list_all (\<lambda>(k, b). key k \<and> dec (enc b) = b) kbs" "view s = Map.empty"
  shows "\<exists>s'. store_all put s kbs = Some s' \<and> ok s' \<and>
    (\<forall>k. key k \<longrightarrow> get s' k = Some (s', map_of (rev (map (\<lambda>(k, b). (norm k, b)) kbs)) (norm k)))"
proof -
  have "list_all (\<lambda>(k, b). key k) kbs" using assms(2) by (auto simp: list_all_iff)
  from store_all_view [OF assms(1) this] obtain s' where s': "store_all put s kbs = Some s'" "ok s'"
    "view s' = map_of (rev (map (\<lambda>(k, b). (norm k, enc b)) kbs))" using assms(3) by auto
  let ?kbs = "rev (map (\<lambda>(k, b). (norm k, b)) kbs)"
  have "map_of (map (\<lambda>p. (norm (fst p), enc (snd p))) xs) =
      map_option enc \<circ> map_of (map (\<lambda>p. (norm (fst p), snd p)) xs)" for xs
    by (induction xs) auto
  then have "map_of (rev (map (\<lambda>(k, b). (norm k, enc b)) kbs)) = map_option enc \<circ> map_of ?kbs"
    by (simp add: rev_map case_prod_unfold)
  moreover have "map_option (\<lambda>b. dec (enc b)) (map_of ?kbs k) = map_of ?kbs k" for k
    using assms(2) by (cases "map_of ?kbs k") (fastforce simp: list_all_iff dest: map_of_SomeD)+
  ultimately show ?thesis using s' get_law by (auto simp: option.map_comp comp_def)
qed

end

text \<open>A store with deletion, which may be restricted to some states.\<close>

locale deletable_store = record_store +
  fixes del :: "'s \<Rightarrow> 'k \<Rightarrow> 's option" and can_del :: "'s \<Rightarrow> 'k \<Rightarrow> bool"
  assumes del_law: "ok s \<Longrightarrow> key k \<Longrightarrow> can_del s k \<Longrightarrow>
      \<exists>s'. del s k = Some s' \<and> ok s' \<and> view s' = (view s)(norm k := None)"

context deletable_store
begin

lemma get_deleted:
  assumes "ok s" "key k" "can_del s k"
  shows "\<exists>s'. del s k = Some s' \<and> get s' k = Some (s', None) \<and>
    (\<forall>k'. key k' \<longrightarrow> norm k' \<noteq> norm k \<longrightarrow> get s' k' = Some (s', map_option dec (view s (norm k'))))"
proof -
  obtain s' where "del s k = Some s'" "ok s'" "view s' = (view s)(norm k := None)"
    using del_law [OF assms] by blast
  with get_law assms(2) show ?thesis by (intro exI [of _ s']) simp
qed

end

end
