(* ===== verification/Dps_BaseMap.thy ===== *)
theory Dps_BaseMap
  imports Dps_Base Dps_Store
begin

text \<open>
  The record store as a map. A file is well formed when every record is on the chain of its hash,
  no id occurs twice, no two records share storage and the index ends with a whole item; it then stands for a map from ids to stored
  bytes. The operations keep files well formed and update the map, with the exceptions the last
  sections show: deleting the first record of a longer chain, and a file with a broken chain.
\<close>

section \<open>Well-formed files\<close>

text \<open>
  The chain of a slot. In a well-formed index each \<open>it_next\<close> points forward, which is how the code
  writes them.
\<close>

function chain :: "baseitem list \<Rightarrow> nat \<Rightarrow> nat list" where
  "chain idx i =
    (if it_next (idx ! i) \<noteq> 0 \<and> i < it_next (idx ! i) \<and> it_next (idx ! i) < length idx
     then i # chain idx (it_next (idx ! i)) else [i])"
  by pat_completeness auto
termination by (relation "measure (\<lambda>(idx, i). length idx - i)") auto

declare chain.simps [simp del]

definition live :: "baseitem list \<Rightarrow> nat \<Rightarrow> bool" where
  "live idx i \<longleftrightarrow> i < length idx \<and> it_rec_id (idx ! i) \<noteq> 0"

definition extent :: "baseitem \<Rightarrow> nat set" where
  "extent it = {it_offset it..<it_offset it + it_size it}"

definition index_ok :: "baseitem list \<Rightarrow> bool" where
  "index_ok idx \<longleftrightarrow>
     DPS_HASH_PRIME \<le> length idx \<and>
     (\<forall>i < length idx. it_next (idx ! i) = 0 \<or> (i < it_next (idx ! i) \<and> DPS_HASH_PRIME \<le> it_next (idx ! i) \<and>
        it_next (idx ! i) < length idx)) \<and>
     (\<forall>i. live idx i \<longrightarrow> i \<in> set (chain idx (DPS_HASH (it_rec_id (idx ! i))))) \<and>
     (\<forall>i j. live idx i \<longrightarrow> live idx j \<longrightarrow> it_rec_id (idx ! i) = it_rec_id (idx ! j) \<longrightarrow> i = j) \<and>
     (\<forall>h < DPS_HASH_PRIME. it_rec_id (idx ! h) = 0 \<longrightarrow> it_next (idx ! h) = 0)"

definition storage_ok :: "base_file \<Rightarrow> bool" where
  "storage_ok f \<longleftrightarrow>
     (\<forall>i. live (bf_index f) i \<longrightarrow>
        it_offset (bf_index f ! i) + it_size (bf_index f ! i) \<le> length (bf_store f)) \<and>
     (\<forall>i j. live (bf_index f) i \<longrightarrow> live (bf_index f) j \<longrightarrow> i \<noteq> j \<longrightarrow>
        extent (bf_index f ! i) \<inter> extent (bf_index f ! j) = {})"

definition base_ok :: "base_file \<Rightarrow> bool" where
  "base_ok f \<longleftrightarrow> index_ok (bf_index f) \<and> storage_ok f \<and> \<not> bf_torn f"

text \<open>The map a file stands for: for each record the raw bytes stored and the original size.\<close>

definition base_map :: "base_file \<Rightarrow> u32 \<Rightarrow> (string \<times> nat) option" where
  "base_map f r =
    (if r = 0 then None
     else map_option (\<lambda>it. (read_at (bf_store f) (it_offset it) (it_size it), it_orig_size it))
            (find (\<lambda>it. it_rec_id it = r) (bf_index f)))"

lemma DPS_HASH_less: "DPS_HASH r < DPS_HASH_PRIME"
  by (simp add: DPS_HASH_def DPS_HASH_PRIME_def)

text \<open>The search in a well-formed index, from any item of a chain.\<close>

lemma chain_search_result:
  assumes "\<forall>i < length idx. it_next (idx ! i) = 0 \<or> (i < it_next (idx ! i) \<and> it_next (idx ! i) < length idx)"
  shows "i < length idx \<Longrightarrow> bp_item p = idx ! i \<Longrightarrow> bp_current p = i \<Longrightarrow>
    \<exists>q. chain_search idx torn r p = Some (Found q) \<and> bp_mishash q = bp_mishash p \<and> bp_current q \<in> set (chain idx i) \<and>
      bp_current q < length idx \<and> bp_item q = idx ! bp_current q \<and>
      (if \<exists>k \<in> set (chain idx i). it_rec_id (idx ! k) = r then it_rec_id (bp_item q) = r
       else it_next (bp_item q) = 0 \<and> it_rec_id (bp_item q) \<noteq> r)"
proof (induction "length idx - i" arbitrary: i p rule: less_induct)
  case less
  let ?it = "idx ! i" and ?n = "it_next (idx ! i)"
  show ?case
  proof (cases "?n \<noteq> 0 \<and> it_rec_id ?it \<noteq> r")
    case False
    then show ?thesis
      using less.prems by (subst chain_search.simps) (auto simp: chain.simps [of idx i])
  next
    case True
    then have n: "i < ?n" "?n < length idx" using assms less.prems(1) by auto
    let ?p = "p\<lparr>bp_previous := bp_current p, bp_current := ?n, bp_item := idx ! ?n\<rparr>"
    have c: "chain idx i = i # chain idx ?n" using True n by (subst chain.simps) simp
    have "chain_search idx torn r p = chain_search idx torn r ?p"
      using True n less.prems by (subst chain_search.simps) (simp add: Let_def)
    moreover obtain q where "chain_search idx torn r ?p = Some (Found q) \<and> bp_mishash q = bp_mishash ?p \<and>
        bp_current q \<in> set (chain idx ?n) \<and> bp_current q < length idx \<and> bp_item q = idx ! bp_current q \<and>
        (if \<exists>k \<in> set (chain idx ?n). it_rec_id (idx ! k) = r then it_rec_id (bp_item q) = r
         else it_next (bp_item q) = 0 \<and> it_rec_id (bp_item q) \<noteq> r)"
      using less.hyps [OF diff_less_mono2 [OF n(1) less.prems(1)] n(2), of ?p] by auto
    ultimately show ?thesis using True unfolding c by (intro exI [of _ q]) (auto split: if_splits)
  qed
qed

lemma chain_bounds:
  assumes "\<forall>i < length idx. it_next (idx ! i) = 0 \<or> (i < it_next (idx ! i) \<and> it_next (idx ! i) < length idx)"
  shows "i < length idx \<Longrightarrow> k \<in> set (chain idx i) \<Longrightarrow> k < length idx"
proof (induction idx i rule: chain.induct)
  case (1 idx i)
  then show ?case by (subst (asm) (2) chain.simps) (auto split: if_splits)
qed

text \<open>What a search of a well-formed file ends with, whatever the handle and the mode.\<close>

lemma base_seek_result:
  assumes "base_ok f" and "r \<noteq> 0"
  shows "\<exists>p. DpsBaseSeek h m f r = Some (f, Some p) \<and> bp_current p \<in> set (chain (bf_index f) (DPS_HASH r)) \<and>
    bp_current p < length (bf_index f) \<and> bp_item p = bf_index f ! bp_current p \<and>
    (if \<exists>k. live (bf_index f) k \<and> it_rec_id (bf_index f ! k) = r then it_rec_id (bp_item p) = r
     else it_rec_id (bp_item p) \<noteq> r \<and> it_next (bp_item p) = 0 \<and>
       (it_rec_id (bp_item p) \<noteq> 0 \<longrightarrow> bp_mishash p))"
proof -
  let ?idx = "bf_index f" and ?h = "DPS_HASH r" and ?torn = "bf_torn f"
  have ok: "?h < length ?idx"
    "\<forall>i < length ?idx. it_next (?idx ! i) = 0 \<or> (i < it_next (?idx ! i) \<and> it_next (?idx ! i) < length ?idx)"
    "\<And>i. live ?idx i \<Longrightarrow> i \<in> set (chain ?idx (DPS_HASH (it_rec_id (?idx ! i))))"
    "it_rec_id (?idx ! ?h) = 0 \<Longrightarrow> it_next (?idx ! ?h) = 0"
    using assms(1) DPS_HASH_less [of r] by (auto simp: base_ok_def index_ok_def)
  let ?p = "search_start ?idx r"
  have p: "bp_item ?p = ?idx ! ?h" "bp_current ?p = ?h"
    "bp_mishash ?p \<longleftrightarrow> it_rec_id (?idx ! ?h) \<noteq> r \<and> it_rec_id (?idx ! ?h) \<noteq> 0"
    using ok(1) by (simp_all add: search_start_def Let_def)
  have hc: "?h \<in> set (chain ?idx ?h)" by (subst chain.simps) simp
  have ex: "(\<exists>k. live ?idx k \<and> it_rec_id (?idx ! k) = r) \<longleftrightarrow> (\<exists>k \<in> set (chain ?idx ?h). it_rec_id (?idx ! k) = r)"
    using ok(3) chain_bounds [OF ok(2) ok(1)] assms(2) by (auto simp: live_def)
  have "\<exists>q. base_search ?idx ?torn r = Some (Found q) \<and> bp_current q \<in> set (chain ?idx ?h) \<and>
      bp_current q < length ?idx \<and> bp_item q = ?idx ! bp_current q \<and>
      (if \<exists>k \<in> set (chain ?idx ?h). it_rec_id (?idx ! k) = r then it_rec_id (bp_item q) = r
       else it_rec_id (bp_item q) \<noteq> r \<and> it_next (bp_item q) = 0 \<and> (it_rec_id (bp_item q) \<noteq> 0 \<longrightarrow> bp_mishash q))"
  proof (cases "bp_mishash ?p")
    case True
    obtain q where "chain_search ?idx ?torn r ?p = Some (Found q) \<and> bp_mishash q = bp_mishash ?p \<and>
        bp_current q \<in> set (chain ?idx ?h) \<and> bp_current q < length ?idx \<and> bp_item q = ?idx ! bp_current q \<and>
        (if \<exists>k \<in> set (chain ?idx ?h). it_rec_id (?idx ! k) = r then it_rec_id (bp_item q) = r
         else it_next (bp_item q) = 0 \<and> it_rec_id (bp_item q) \<noteq> r)"
      using chain_search_result [OF ok(2,1) p(1,2)] by blast
    with True show ?thesis by (auto simp: base_search_def Let_def split: if_splits)
  next
    case False
    then have "it_rec_id (?idx ! ?h) = r \<or> it_rec_id (?idx ! ?h) = 0" using p(3) by blast
    moreover have "chain ?idx ?h = [?h]" if "it_rec_id (?idx ! ?h) = 0"
      using ok(4) [OF that] by (subst chain.simps) simp
    ultimately show ?thesis
      using False p(1,2) ok(1,4) hc assms(2)
      by (intro exI [of _ ?p]) (auto simp: base_search_def Let_def)
  qed
  then obtain q where q: "base_search ?idx ?torn r = Some (Found q)" "bp_current q \<in> set (chain ?idx ?h)"
    "bp_current q < length ?idx" "bp_item q = ?idx ! bp_current q"
    "if \<exists>k \<in> set (chain ?idx ?h). it_rec_id (?idx ! k) = r then it_rec_id (bp_item q) = r
       else it_rec_id (bp_item q) \<noteq> r \<and> it_next (bp_item q) = 0 \<and> (it_rec_id (bp_item q) \<noteq> 0 \<longrightarrow> bp_mishash q)"
    by blast
  then have "DpsBaseSeek h m f r = Some (f, Some q)"
    using ok(1) by (simp add: DpsBaseSeek_def seek_opened_def DpsBaseOpen_def numeral_3_eq_3)
  with q ex show ?thesis by (intro exI [of _ q]) simp
qed

section \<open>Updating the storage and the index\<close>

lemma length_write_at: "p \<le> length s \<Longrightarrow> length (write_at z s p d) = max (length s) (p + length d)"
  by (simp add: write_at_def)

lemma read_at_write_at [simp]: "p \<le> length s \<Longrightarrow> read_at (write_at z s p d) p (length d) = d"
  by (simp add: read_at_def write_at_def)

lemma read_at_nth: "off + n \<le> length s \<Longrightarrow> k < n \<Longrightarrow> read_at s off n ! k = s ! (off + k)"
  by (simp add: read_at_def)

lemma length_read_at: "off + n \<le> length s \<Longrightarrow> length (read_at s off n) = n"
  by (simp add: read_at_def)

lemma write_at_nth:
  "p \<le> length s \<Longrightarrow> k < length s \<Longrightarrow> k \<notin> {p..<p + length d} \<Longrightarrow> write_at z s p d ! k = s ! k"
  by (auto simp: write_at_def nth_append)

lemma read_at_write_at_other:
  assumes "p \<le> length s" "off + n \<le> length s" "{off..<off + n} \<inter> {p..<p + length d} = {}"
  shows "read_at (write_at z s p d) off n = read_at s off n"
proof (rule nth_equalityI)
  show "length (read_at (write_at z s p d) off n) = length (read_at s off n)"
    using assms by (simp add: length_read_at length_write_at)
next
  fix k assume "k < length (read_at (write_at z s p d) off n)"
  then have k: "k < n" using assms by (simp add: length_read_at length_write_at)
  then have "off + k \<notin> {p..<p + length d}" using assms(3) by (auto simp: disjoint_iff)
  then show "read_at (write_at z s p d) off n ! k = read_at s off n ! k"
    using k assms by (simp add: read_at_nth length_write_at write_at_nth)
qed

lemma write_at_index: "c < length xs \<Longrightarrow> write_at z xs c [x] = xs[c := x]"
  by (simp add: write_at_def upd_conv_take_nth_drop)

lemma write_at_end: "write_at z xs (length xs) [x] = xs @ [x]"
  by (simp add: write_at_def)

text \<open>The chains after an update that keeps the links, and after one that appends an item.\<close>

lemma chain_cong:
  assumes "length idx' = length idx" "\<And>i. i < length idx \<Longrightarrow> it_next (idx' ! i) = it_next (idx ! i)"
  shows "i < length idx \<Longrightarrow> chain idx' i = chain idx i"
  using assms
proof (induction idx i rule: chain.induct)
  case (1 idx i)
  then show ?case by (subst (1 2) chain.simps) auto
qed

lemma chain_append:
  assumes idx': "idx' = idx[c := x] @ [y]" and c: "c < length idx" "it_next (idx ! c) = 0" "it_next x = length idx"
  shows "i < length idx \<Longrightarrow> set (chain idx i) \<subseteq> set (chain idx' i)
    \<and> (c \<in> set (chain idx i) \<longrightarrow> length idx \<in> set (chain idx' i))"
  using c unfolding idx'
proof (induction idx i rule: chain.induct)
  case (1 idx i)
  show ?case
  proof (cases "i = c")
    case True
    have "chain idx c = [c]" using 1 by (subst chain.simps) simp
    moreover have "length idx \<in> set (chain (idx[c := x] @ [y]) c)"
      using 1 by (subst chain.simps, subst chain.simps) (auto simp: nth_append)
    moreover have "c \<in> set (chain (idx[c := x] @ [y]) c)" by (subst chain.simps) simp
    ultimately show ?thesis using True by simp
  next
    case False
    then show ?thesis
      using 1 by (subst (1 2 3 4) chain.simps) (auto simp: nth_append split: if_splits)
  qed
qed

text \<open>\<open>put_item idx c it idx'\<close>: the item \<open>it\<close> is at \<open>c\<close>, the other records are as they were.\<close>

definition put_item :: "baseitem list \<Rightarrow> nat \<Rightarrow> baseitem \<Rightarrow> baseitem list \<Rightarrow> bool" where
  "put_item idx c it idx' \<longleftrightarrow>
     idx' ! c = it \<and> (\<forall>j. live idx' j \<longleftrightarrow> j = c \<or> live idx j) \<and>
     (\<forall>j. live idx j \<longrightarrow> j \<noteq> c \<longrightarrow> (idx' ! j)\<lparr>it_next := 0\<rparr> = (idx ! j)\<lparr>it_next := 0\<rparr>) \<and>
     (\<forall>j. live idx j \<longrightarrow> it_rec_id (idx ! j) = it_rec_id it \<longrightarrow> j = c) \<and>
     (live idx c \<longrightarrow> it_rec_id (idx ! c) = it_rec_id it)"

lemma same_item:
  assumes "(a::baseitem)\<lparr>it_next := 0\<rparr> = b\<lparr>it_next := 0\<rparr>"
  shows "it_rec_id a = it_rec_id b" "it_offset a = it_offset b" "it_size a = it_size b"
    "it_orig_size a = it_orig_size b" "extent a = extent b"
  using assms by (cases a; cases b; simp add: extent_def)+

lemma index_okD:
  assumes "index_ok idx"
  shows "DPS_HASH_PRIME \<le> length idx"
    "\<forall>i < length idx. it_next (idx ! i) = 0 \<or> (i < it_next (idx ! i) \<and> it_next (idx ! i) < length idx)"
    "\<And>i. live idx i \<Longrightarrow> i \<in> set (chain idx (DPS_HASH (it_rec_id (idx ! i))))"
    "\<And>i j. live idx i \<Longrightarrow> live idx j \<Longrightarrow> it_rec_id (idx ! i) = it_rec_id (idx ! j) \<Longrightarrow> i = j"
    "\<And>h. h < DPS_HASH_PRIME \<Longrightarrow> it_rec_id (idx ! h) = 0 \<Longrightarrow> it_next (idx ! h) = 0"
    "DPS_HASH r < length idx"
    "\<forall>i < length idx. it_next (idx ! i) = 0 \<or> (i < it_next (idx ! i) \<and> DPS_HASH_PRIME \<le> it_next (idx ! i) \<and>
       it_next (idx ! i) < length idx)"
  using assms DPS_HASH_less [of r] by (auto simp: index_ok_def)

text \<open>An item takes the place of a record, of the same one or of none.\<close>

lemma index_replace:
  assumes ok: "index_ok idx" and c: "c < length idx" "c \<in> set (chain idx (DPS_HASH r))"
    and it: "it_rec_id it = r" "r \<noteq> 0" "it_next it = it_next (idx ! c)"
    and free: "it_rec_id (idx ! c) = r \<or> (it_rec_id (idx ! c) = 0 \<and> \<not> (\<exists>k. live idx k \<and> it_rec_id (idx ! k) = r))"
  shows "put_item idx c it (idx[c := it]) \<and> index_ok (idx[c := it])"
proof -
  let ?idx = "idx[c := it]"
  note ok = index_okD [OF ok]
  have n: "it_next (?idx ! i) = it_next (idx ! i)" if "i < length idx" for i
    using it c by (cases "i = c") auto
  have ch: "chain ?idx i = chain idx i" if "i < length idx" for i
    using chain_cong [of ?idx idx i] n that by simp
  have u: "j = c" if "live idx j" "it_rec_id (idx ! j) = r" for j
  proof -
    from that free have "it_rec_id (idx ! c) = r" by blast
    then have "live idx c" using c(1) it(2) by (simp add: live_def)
    then show ?thesis using ok(4) that \<open>it_rec_id (idx ! c) = r\<close> by blast
  qed
  have l: "live ?idx j \<longleftrightarrow> j = c \<or> live idx j" for j
    using c it by (cases "j = c") (auto simp: live_def)
  have put: "put_item idx c it ?idx"
    unfolding put_item_def
  proof (intro conjI allI impI)
    show "live idx c \<Longrightarrow> it_rec_id (idx ! c) = it_rec_id it" using free it by (auto simp: live_def)
  qed (use c l u it in auto)
  have r: "it_rec_id (?idx ! j) = (if j = c then r else it_rec_id (idx ! j))" if "live ?idx j" for j
    using c it by simp
  have "index_ok ?idx"
    unfolding index_ok_def
  proof (intro conjI allI impI)
    fix i assume i: "live ?idx i"
    have "chain ?idx (DPS_HASH s) = chain idx (DPS_HASH s)" for s
      using ch [of "DPS_HASH s"] ok(1) DPS_HASH_less [of s] by simp
    then show "i \<in> set (chain ?idx (DPS_HASH (it_rec_id (?idx ! i))))"
      using r [OF i] l [of i] i c(2) ok(3) [of i] by (cases "i = c") simp_all
  next
    fix i j assume ij: "live ?idx i" "live ?idx j" "it_rec_id (?idx ! i) = it_rec_id (?idx ! j)"
    show "i = j"
    proof (cases "i = c \<or> j = c")
      case True
      then show ?thesis using r [OF ij(1)] r [OF ij(2)] ij l u by metis
    next
      case False
      then show ?thesis using r [OF ij(1)] r [OF ij(2)] ij l ok(4) by simp
    qed
  next
    fix h assume "h < DPS_HASH_PRIME" "it_rec_id (?idx ! h) = 0"
    then show "it_next (?idx ! h) = 0"
      using ok(1) ok(5) [of h] it c by (cases "h = c") auto
  qed (use ok(1,7) n in auto)
  with put show ?thesis by simp
qed

text \<open>An item is appended and linked to the end of its chain.\<close>

lemma index_append:
  assumes ok: "index_ok idx" and c: "c < length idx" "c \<in> set (chain idx (DPS_HASH r))"
    and last: "it_next (idx ! c) = 0" "it_rec_id (idx ! c) \<noteq> 0"
    and it: "it_rec_id it = r" "r \<noteq> 0" "it_next it = 0"
    and new: "\<not> (\<exists>k. live idx k \<and> it_rec_id (idx ! k) = r)"
  defines "idx' \<equiv> idx[c := (idx ! c)\<lparr>it_next := length idx\<rparr>] @ [it]"
  shows "put_item idx (length idx) it idx' \<and> index_ok idx'"
proof -
  let ?n = "length idx"
  note ok = index_okD [OF ok]
  have nth: "idx' ! j = (if j = c then (idx ! c)\<lparr>it_next := ?n\<rparr> else if j = ?n then it else idx ! j)" if "j \<le> ?n" for j
    using c that by (auto simp: idx'_def nth_append)
  have len: "length idx' = Suc ?n" by (simp add: idx'_def)
  have l: "live idx' j \<longleftrightarrow> j = ?n \<or> live idx j" for j
    using c it last nth [of j] by (cases "j \<le> ?n") (auto simp: live_def len)
  have put: "put_item idx ?n it idx'"
    unfolding put_item_def
  proof (intro conjI allI impI)
    fix j assume "live idx j"
    then show "(idx' ! j)\<lparr>it_next := 0\<rparr> = (idx ! j)\<lparr>it_next := 0\<rparr>" using nth [of j] by (auto simp: live_def)
  qed (use c l new it nth [of ?n] in \<open>auto simp: live_def\<close>)
  have r: "it_rec_id (idx' ! j) = (if j = ?n then r else it_rec_id (idx ! j))" if "live idx' j" for j
    using nth [of j] c(1) it that by (auto simp: live_def len)
  have ch: "set (chain idx i) \<subseteq> set (chain idx' i)" "c \<in> set (chain idx i) \<Longrightarrow> ?n \<in> set (chain idx' i)"
    if "i < ?n" for i
    using chain_append [OF _ c(1) last(1) _ that, of idx' "(idx ! c)\<lparr>it_next := ?n\<rparr>" it] by (simp_all add: idx'_def)
  have "index_ok idx'"
    unfolding index_ok_def
  proof (intro conjI allI impI)
    fix i assume i: "live idx' i"
    show "i \<in> set (chain idx' (DPS_HASH (it_rec_id (idx' ! i))))"
    proof (cases "i = ?n")
      case True
      then show ?thesis using r [OF i] ch(2) [OF ok(6) c(2)] by simp
    next
      case False
      then show ?thesis using r [OF i] i l ok(3) [of i] ch(1) [OF ok(6)] by auto
    qed
  next
    fix i j assume ij: "live idx' i" "live idx' j" "it_rec_id (idx' ! i) = it_rec_id (idx' ! j)"
    show "i = j"
    proof (cases "i = ?n \<or> j = ?n")
      case True
      then show ?thesis using r [OF ij(1)] r [OF ij(2)] ij l new by metis
    next
      case False
      then show ?thesis using r [OF ij(1)] r [OF ij(2)] ij l ok(4) by simp
    qed
  next
    fix h assume "h < DPS_HASH_PRIME" "it_rec_id (idx' ! h) = 0"
    then show "it_next (idx' ! h) = 0"
      using ok(1) ok(5) [of h] nth [of h] last c by (auto split: if_splits)
  next
    fix i assume i: "i < length idx'"
    then have "i \<le> ?n" by (simp add: len)
    from nth [OF this] show "it_next (idx' ! i) = 0 \<or> i < it_next (idx' ! i) \<and>
        DPS_HASH_PRIME \<le> it_next (idx' ! i) \<and> it_next (idx' ! i) < length idx'"
      using ok(1,7) c it i by (auto simp: len less_Suc_eq)
  qed (use ok(1) len in auto)
  with put show ?thesis by simp
qed

section \<open>What the operations do to the map\<close>

lemma base_map_live:
  assumes "index_ok (bf_index f)" "live (bf_index f) i"
  shows "base_map f (it_rec_id (bf_index f ! i)) =
    Some (read_at (bf_store f) (it_offset (bf_index f ! i)) (it_size (bf_index f ! i)), it_orig_size (bf_index f ! i))"
proof -
  let ?idx = "bf_index f" and ?r = "it_rec_id (bf_index f ! i)"
  have i: "i < length ?idx" "?r \<noteq> 0" using assms(2) by (auto simp: live_def)
  have "\<not> it_rec_id (?idx ! j) = ?r" if "j < i" for j
    using index_okD(4) [OF assms(1), of j i] assms(2) i that by (auto simp: live_def)
  then have "find (\<lambda>it. it_rec_id it = ?r) ?idx = Some (?idx ! i)"
    using i by (subst find_Some_iff) auto
  with i show ?thesis by (simp add: base_map_def)
qed

lemma base_map_none:
  assumes "\<And>i. live (bf_index f) i \<Longrightarrow> it_rec_id (bf_index f ! i) \<noteq> r"
  shows "base_map f r = None"
proof (cases "r = 0")
  case False
  then have "find (\<lambda>it. it_rec_id it = r) (bf_index f) = None"
    using assms by (subst find_None_iff) (auto simp: live_def in_set_conv_nth)
  then show ?thesis by (simp add: base_map_def)
qed (simp add: base_map_def)

lemma base_map_cases:
  assumes "index_ok (bf_index f)"
  obtains (none) "base_map f r = None" "\<And>i. live (bf_index f) i \<Longrightarrow> it_rec_id (bf_index f ! i) \<noteq> r"
  | (live) i where "live (bf_index f) i" "it_rec_id (bf_index f ! i) = r" "r \<noteq> 0"
      "base_map f r = Some (read_at (bf_store f) (it_offset (bf_index f ! i)) (it_size (bf_index f ! i)),
         it_orig_size (bf_index f ! i))"
  using base_map_none [of f r] base_map_live [OF assms] by (metis live_def)

lemma base_put:
  assumes ok: "base_ok f" and put: "put_item (bf_index f) c it (bf_index f')" and ok': "index_ok (bf_index f')"
    and torn: "bf_torn f' = bf_torn f"
    and len: "length (bf_store f) \<le> length (bf_store f')" "it_offset it + it_size it \<le> length (bf_store f')"
    and other: "\<And>j. live (bf_index f) j \<Longrightarrow> j \<noteq> c \<Longrightarrow> extent it \<inter> extent (bf_index f ! j) = {} \<and>
      read_at (bf_store f') (it_offset (bf_index f ! j)) (it_size (bf_index f ! j)) =
      read_at (bf_store f) (it_offset (bf_index f ! j)) (it_size (bf_index f ! j))"
  shows "base_ok f' \<and> base_map f' =
    (base_map f)(it_rec_id it \<mapsto> (read_at (bf_store f') (it_offset it) (it_size it), it_orig_size it))"
proof -
  let ?idx = "bf_index f" and ?idx' = "bf_index f'"
  have iok: "index_ok ?idx" and sok: "storage_ok f" using ok by (auto simp: base_ok_def)
  have c: "?idx' ! c = it" "live ?idx' c" and l: "\<And>j. live ?idx' j \<longleftrightarrow> j = c \<or> live ?idx j"
    and u: "\<And>j. live ?idx j \<Longrightarrow> it_rec_id (?idx ! j) = it_rec_id it \<Longrightarrow> j = c"
    and cr: "live ?idx c \<Longrightarrow> it_rec_id (?idx ! c) = it_rec_id it"
    using put unfolding put_item_def by blast+
  have same: "it_rec_id (?idx' ! j) = it_rec_id (?idx ! j)" "it_offset (?idx' ! j) = it_offset (?idx ! j)"
    "it_size (?idx' ! j) = it_size (?idx ! j)" "it_orig_size (?idx' ! j) = it_orig_size (?idx ! j)"
    "extent (?idx' ! j) = extent (?idx ! j)" if "live ?idx j" "j \<noteq> c" for j
    using same_item [of "?idx' ! j" "?idx ! j"] put that by (auto simp: put_item_def)
  have "storage_ok f'"
    unfolding storage_ok_def
  proof (intro conjI allI impI)
    fix i assume "live ?idx' i"
    then show "it_offset (?idx' ! i) + it_size (?idx' ! i) \<le> length (bf_store f')"
      using sok len l c(1) same by (cases "i = c") (auto simp: storage_ok_def intro: order_trans)
  next
    fix i j assume ij: "live ?idx' i" "live ?idx' j" "i \<noteq> j"
    then consider "i = c" "live ?idx j" "j \<noteq> c" | "j = c" "live ?idx i" "i \<noteq> c"
      | "i \<noteq> c" "j \<noteq> c" "live ?idx i" "live ?idx j" using l by metis
    then show "extent (?idx' ! i) \<inter> extent (?idx' ! j) = {}"
    proof cases
      case 3
      then show ?thesis using ij sok same by (simp add: storage_ok_def)
    qed (use other c(1) same in \<open>simp_all add: Int_commute\<close>)
  qed
  moreover have "base_map f' s = ((base_map f)(it_rec_id it \<mapsto>
      (read_at (bf_store f') (it_offset it) (it_size it), it_orig_size it))) s" for s
  proof (cases "s = it_rec_id it")
    case True
    then show ?thesis using base_map_live [OF ok' c(2)] c(1) by simp
  next
    case False
    from iok show ?thesis
    proof (cases rule: base_map_cases [where r = s])
      case none
      have "base_map f' s = None"
        using none(2) l same c(1) False by (intro base_map_none) metis
      with none False show ?thesis by simp
    next
      case (live i)
      then have "i \<noteq> c" using cr False by metis
      note i = same [OF live(1) this] conjunct2 [OF other [OF live(1) this]]
      have "live ?idx' i" using l live(1) by blast
      from base_map_live [OF ok' this] i live(2) have "base_map f' s = base_map f s"
        unfolding live(4) by simp
      with False show ?thesis by simp
    qed
  qed
  ultimately show ?thesis using ok ok' torn by (auto simp: base_ok_def)
qed

lemma extent_past_end:
  assumes "storage_ok f" "live (bf_index f) j" "it_offset it = length (bf_store f)"
  shows "extent it \<inter> extent (bf_index f ! j) = {}"
  using assms by (force simp: storage_ok_def extent_def)

lemma read_other_after_append:
  assumes "storage_ok f" "live (bf_index f) j"
  shows "read_at (write_at (CHR 0x00) (bf_store f) (length (bf_store f)) d) (it_offset (bf_index f ! j)) (it_size (bf_index f ! j)) =
    read_at (bf_store f) (it_offset (bf_index f ! j)) (it_size (bf_index f ! j))"
  using assms by (intro read_at_write_at_other) (auto simp: storage_ok_def)

text \<open>A record whose data went to the end of the storage file.\<close>

lemma base_put_append:
  assumes ok: "base_ok f" and put: "put_item (bf_index f) c it idx'" and ok': "index_ok idx'"
    and it: "it_offset it = length (bf_store f)" "it_size it = length d"
  shows "base_ok (f\<lparr>bf_index := idx', bf_store := write_at (CHR 0x00) (bf_store f) (length (bf_store f)) d\<rparr>) \<and>
    base_map (f\<lparr>bf_index := idx', bf_store := write_at (CHR 0x00) (bf_store f) (length (bf_store f)) d\<rparr>) =
    (base_map f)(it_rec_id it \<mapsto> (d, it_orig_size it))"
  using base_put [of f c it "f\<lparr>bf_index := idx', bf_store := write_at (CHR 0x00) (bf_store f) (length (bf_store f)) d\<rparr>"]
    ok put ok' it extent_past_end [of f _ it] read_other_after_append [of f _ d]
  by (simp add: base_ok_def length_write_at)

text \<open>A record whose data fitted where the old data was.\<close>

lemma base_put_over:
  assumes ok: "base_ok f" and put: "put_item (bf_index f) c it idx'" and ok': "index_ok idx'"
    and c: "live (bf_index f) c" "it_offset it = it_offset (bf_index f ! c)"
    and sz: "it_size it = length d" "length d \<le> it_size (bf_index f ! c)"
  shows "base_ok (f\<lparr>bf_index := idx', bf_store := write_at (CHR 0x00) (bf_store f) (it_offset it) d\<rparr>) \<and>
    base_map (f\<lparr>bf_index := idx', bf_store := write_at (CHR 0x00) (bf_store f) (it_offset it) d\<rparr>) =
    (base_map f)(it_rec_id it \<mapsto> (d, it_orig_size it))"
proof -
  have sok: "storage_ok f" using ok by (simp add: base_ok_def)
  then have off: "it_offset it + it_size (bf_index f ! c) \<le> length (bf_store f)"
    using c by (simp add: storage_ok_def)
  have sub: "extent it \<subseteq> extent (bf_index f ! c)"
    using c(2) sz by (auto simp: extent_def)
  have dis: "extent it \<inter> extent (bf_index f ! j) = {}" if "live (bf_index f) j" "j \<noteq> c" for j
    using sok that c(1) sub unfolding storage_ok_def by blast
  have rd: "read_at (write_at (CHR 0x00) (bf_store f) (it_offset it) d) (it_offset (bf_index f ! j)) (it_size (bf_index f ! j)) =
      read_at (bf_store f) (it_offset (bf_index f ! j)) (it_size (bf_index f ! j))"
    if "live (bf_index f) j" "j \<noteq> c" for j
    using dis [OF that] sok that(1) off sz(1)
    by (intro read_at_write_at_other) (auto simp: storage_ok_def extent_def Int_commute)
  show ?thesis
    using base_put [of f c it "f\<lparr>bf_index := idx', bf_store := write_at (CHR 0x00) (bf_store f) (it_offset it) d\<rparr>"]
      ok put ok' off sz dis rd by (simp add: length_write_at)
qed

lemma base_file_commute: "f\<lparr>bf_store := s, bf_index := i\<rparr> = f\<lparr>bf_index := i, bf_store := s\<rparr>"
  by (cases f) simp

lemma same_rec_id: "it_rec_id x = r \<Longrightarrow> x\<lparr>it_rec_id := r\<rparr> = x"
  by (cases x) simp

lemma base_write_put:
  assumes ok: "base_ok f" and r: "r \<noteq> 0"
  shows "\<exists>f'. DpsBaseWrite z h f r buffer = Some (f', DPS_OK) \<and> base_ok f' \<and>
    base_map f' = (base_map f)(r \<mapsto> base_pack z buffer)"
proof -
  let ?idx = "bf_index f" and ?s = "bf_store f"
  obtain d osz where d: "base_pack z buffer = (d, osz)" by fastforce
  have iok: "index_ok ?idx" using ok by (simp add: base_ok_def)
  obtain p where p: "DpsBaseSeek h DPS_WRITE_LOCK f r = Some (f, Some p)"
    "bp_current p \<in> set (chain ?idx (DPS_HASH r))" "bp_current p < length ?idx" "bp_item p = ?idx ! bp_current p"
    "if \<exists>k. live ?idx k \<and> it_rec_id (?idx ! k) = r then it_rec_id (bp_item p) = r
     else it_rec_id (bp_item p) \<noteq> r \<and> it_next (bp_item p) = 0 \<and> (it_rec_id (bp_item p) \<noteq> 0 \<longrightarrow> bp_mishash p)"
    using base_seek_result [OF ok r] by blast
  let ?c = "bp_current p" and ?it = "\<lambda>x at. x\<lparr>it_rec_id := r, it_offset := at, it_size := length d, it_orig_size := osz\<rparr>"
  have free: "it_rec_id (?idx ! ?c) \<noteq> r \<Longrightarrow> \<not> (\<exists>k. live ?idx k \<and> it_rec_id (?idx ! k) = r)"
    using p(4,5) by (auto split: if_splits)
  consider (found) "it_rec_id (?idx ! ?c) = r" | (chained) "it_rec_id (?idx ! ?c) \<noteq> r" "it_rec_id (?idx ! ?c) \<noteq> 0"
    | (unused) "it_rec_id (?idx ! ?c) \<noteq> r" "it_rec_id (?idx ! ?c) = 0" by blast
  then show ?thesis
  proof cases
    case found
    then have lv: "live ?idx ?c" using p(3) r by (simp add: live_def)
    let ?at = "if it_size (bp_item p) < length d then length ?s else it_offset (bp_item p)"
    let ?idx' = "?idx[?c := ?it (bp_item p) ?at]"
    have w: "DpsBaseWrite z h f r buffer = Some (f\<lparr>bf_index := ?idx', bf_store := write_at (CHR 0x00) ?s ?at d\<rparr>, DPS_OK)"
      using found p d by (simp add: DpsBaseWrite_def write_item_def unaligned_def write_at_index base_file_commute same_rec_id Let_def)
    have "put_item ?idx ?c (?it (bp_item p) ?at) ?idx' \<and> index_ok ?idx'"
      using index_replace [OF iok p(3,2)] found p(4) r by simp
    then show ?thesis
      using w d base_put_append [OF ok, of ?c "?it (bp_item p) ?at" ?idx' d]
        base_put_over [OF ok, of ?c "?it (bp_item p) ?at" ?idx' d] lv p(4) by (cases "it_size (bp_item p) < length d") simp_all
  next
    case chained
    let ?idx' = "?idx[?c := (?idx ! ?c)\<lparr>it_next := length ?idx\<rparr>] @ [?it ((bp_item p)\<lparr>it_next := 0\<rparr>) (length ?s)]"
    have last: "it_next (?idx ! ?c) = 0" "bp_mishash p"
      using chained p(4,5) by (auto split: if_splits)
    have "DpsBaseWrite z h f r buffer = Some (f\<lparr>bf_index := ?idx', bf_store := write_at (CHR 0x00) ?s (length ?s) d\<rparr>, DPS_OK)"
      using chained last p d ok write_at_end [of _ "?idx[?c := x]" for x]
      by (simp add: DpsBaseWrite_def write_item_def unaligned_def base_ok_def write_at_index base_file_commute Let_def)
    moreover have "put_item ?idx (length ?idx) (?it ((bp_item p)\<lparr>it_next := 0\<rparr>) (length ?s)) ?idx' \<and> index_ok ?idx'"
      using index_append [OF iok p(3,2) last(1) chained(2)] free chained r by simp
    ultimately show ?thesis
      using d base_put_append [OF ok, of "length ?idx" "?it ((bp_item p)\<lparr>it_next := 0\<rparr>) (length ?s)" ?idx' d] by simp
  next
    case unused
    let ?idx' = "?idx[?c := ?it (bp_item p) (length ?s)]"
    have "DpsBaseWrite z h f r buffer = Some (f\<lparr>bf_index := ?idx', bf_store := write_at (CHR 0x00) ?s (length ?s) d\<rparr>, DPS_OK)"
      using unused p d by (simp add: DpsBaseWrite_def write_item_def unaligned_def write_at_index base_file_commute Let_def)
    moreover have "put_item ?idx ?c (?it (bp_item p) (length ?s)) ?idx' \<and> index_ok ?idx'"
      using index_replace [OF iok p(3,2), of "?it (bp_item p) (length ?s)"] unused free p(4) r by simp
    ultimately show ?thesis
      using d base_put_append [OF ok, of ?c "?it (bp_item p) (length ?s)" ?idx' d] by simp
  qed
qed

lemma new_base_file_ok: "base_ok new_base_file" "base_map new_base_file = Map.empty"
  by (auto simp: base_ok_def index_ok_def storage_ok_def live_def new_base_file_def zero_baseitem_def
      base_map_def find_None_iff)

text \<open>
  What is read back for stored bytes: inflated if there is compression and an original size was
  noted. An empty buffer is noted with the original size 0, like data that is not compressed.
\<close>

definition base_unpack :: "zlib \<Rightarrow> string \<times> nat \<Rightarrow> string" where
  "base_unpack z v =
     (case z of Some (_, inflate) \<Rightarrow> if snd v \<noteq> 0 then inflate (fst v) else fst v | None \<Rightarrow> fst v)"

lemma base_unpack_pack:
  "base_unpack None (base_pack None b) = b"
  "b \<noteq> [] \<Longrightarrow> base_unpack (Some (deflate, inflate)) (base_pack (Some (deflate, inflate)) b) = inflate (deflate b)"
  "base_unpack (Some (deflate, inflate)) (base_pack (Some (deflate, inflate)) []) = deflate []"
  by (simp_all add: base_unpack_def base_pack_def)

lemma base_seek_map:
  assumes ok: "base_ok f" and r: "r \<noteq> 0"
  obtains p where "DpsBaseSeek h m f r = Some (f, Some p)"
    "it_rec_id (bp_item p) = r \<longrightarrow> length (read_at (bf_store f) (it_offset (bp_item p)) (it_size (bp_item p))) = it_size (bp_item p)"
    "base_map f r = (if it_rec_id (bp_item p) = r
       then Some (read_at (bf_store f) (it_offset (bp_item p)) (it_size (bp_item p)), it_orig_size (bp_item p)) else None)"
proof -
  let ?idx = "bf_index f" and ?s = "bf_store f"
  have iok: "index_ok ?idx" and sok: "storage_ok f" using ok by (simp_all add: base_ok_def)
  obtain p where p: "DpsBaseSeek h m f r = Some (f, Some p)"
    "bp_current p < length ?idx" "bp_item p = ?idx ! bp_current p"
    "if \<exists>k. live ?idx k \<and> it_rec_id (?idx ! k) = r then it_rec_id (bp_item p) = r
     else it_rec_id (bp_item p) \<noteq> r \<and> it_next (bp_item p) = 0 \<and> (it_rec_id (bp_item p) \<noteq> 0 \<longrightarrow> bp_mishash p)"
    using base_seek_result [OF ok r] by blast
  let ?it = "bp_item p"
  have lv: "live ?idx (bp_current p)" if "it_rec_id ?it = r" using that p r by (simp add: live_def)
  show thesis
  proof
    show "DpsBaseSeek h m f r = Some (f, Some p)" by fact
    show "it_rec_id ?it = r \<longrightarrow> length (read_at ?s (it_offset ?it) (it_size ?it)) = it_size ?it"
      using sok p(3) lv by (simp add: storage_ok_def length_read_at)
    show "base_map f r = (if it_rec_id ?it = r
       then Some (read_at ?s (it_offset ?it) (it_size ?it), it_orig_size ?it) else None)"
    proof (cases "it_rec_id ?it = r")
      case True
      then show ?thesis using base_map_live [OF iok lv [OF True]] p(3) by simp
    next
      case False
      then have "base_map f r = None" using p(4) by (intro base_map_none) (auto split: if_splits)
      with False show ?thesis by simp
    qed
  qed
qed

lemma base_aread_map:
  assumes "base_ok f" "r \<noteq> 0"
  shows "DpsBaseARead z h f r = Some (f, map_option (base_unpack z) (base_map f r))"
proof -
  obtain p where "DpsBaseSeek h DPS_READ_LOCK f r = Some (f, Some p)"
    "it_rec_id (bp_item p) = r \<longrightarrow> length (read_at (bf_store f) (it_offset (bp_item p)) (it_size (bp_item p))) = it_size (bp_item p)"
    "base_map f r = (if it_rec_id (bp_item p) = r
       then Some (read_at (bf_store f) (it_offset (bp_item p)) (it_size (bp_item p)), it_orig_size (bp_item p)) else None)"
    using base_seek_map [OF assms, of h DPS_READ_LOCK] by blast
  then show ?thesis
    by (cases z) (auto simp: DpsBaseARead_def base_unpack_def Let_def)
qed

text \<open>Only the first item of a chain is in the hash table.\<close>

lemma chain_head:
  assumes "\<forall>i < length idx. it_next (idx ! i) = 0 \<or> (i < it_next (idx ! i) \<and> DPS_HASH_PRIME \<le> it_next (idx ! i) \<and>
       it_next (idx ! i) < length idx)"
  shows "i < length idx \<Longrightarrow> k \<in> set (chain idx i) \<Longrightarrow> k = i \<or> DPS_HASH_PRIME \<le> k"
  using assms
proof (induction idx i rule: chain.induct)
  case (1 idx i)
  then have "it_next (idx ! i) \<noteq> 0 \<Longrightarrow> DPS_HASH_PRIME \<le> it_next (idx ! i)" by auto
  with 1 show ?case by (subst (asm) (2) chain.simps) (auto split: if_splits)
qed

lemma base_delete_map:
  assumes ok: "base_ok f" and r: "r \<noteq> 0"
    and head: "it_rec_id (bf_index f ! DPS_HASH r) = r \<Longrightarrow> it_next (bf_index f ! DPS_HASH r) = 0"
  shows "\<exists>f'. DpsBaseDelete h f r = Some (f', DPS_OK) \<and> base_ok f' \<and> base_map f' = (base_map f)(r := None)"
proof -
  let ?idx = "bf_index f"
  have iok: "index_ok ?idx" and sok: "storage_ok f" using ok by (simp_all add: base_ok_def)
  note okD = index_okD [OF iok]
  obtain p where p: "DpsBaseSeek h DPS_WRITE_LOCK f r = Some (f, Some p)"
    "bp_current p \<in> set (chain ?idx (DPS_HASH r))" "bp_current p < length ?idx" "bp_item p = ?idx ! bp_current p"
    "if \<exists>k. live ?idx k \<and> it_rec_id (?idx ! k) = r then it_rec_id (bp_item p) = r
     else it_rec_id (bp_item p) \<noteq> r \<and> it_next (bp_item p) = 0 \<and> (it_rec_id (bp_item p) \<noteq> 0 \<longrightarrow> bp_mishash p)"
    using base_seek_result [OF ok r] by blast
  let ?c = "bp_current p"
  let ?idx' = "?idx[?c := (?idx ! ?c)\<lparr>it_rec_id := 0\<rparr>]" let ?f = "f\<lparr>bf_index := ?idx'\<rparr>"
  show ?thesis
  proof (cases "it_rec_id (?idx ! ?c) = r")
    case False
    then have "base_map f r = None" using p(4,5) by (intro base_map_none) (auto split: if_splits)
    then show ?thesis using False p(1,4) ok by (simp add: DpsBaseDelete_def fun_upd_idem)
  next
    case True
    have del: "DpsBaseDelete h f r = Some (?f, DPS_OK)"
      using True p by (simp add: DpsBaseDelete_def write_item_def unaligned_def write_at_index)
    have c: "live ?idx ?c" using True p(3) r by (simp add: live_def)
    have l: "live ?idx' j \<longleftrightarrow> live ?idx j \<and> j \<noteq> ?c" for j
      using p(3) by (cases "j = ?c") (auto simp: live_def)
    have same: "?idx' ! j = ?idx ! j" if "j \<noteq> ?c" for j using that by simp
    have n: "it_next (?idx' ! j) = it_next (?idx ! j)" if "j < length ?idx" for j
      using p(3) by (cases "j = ?c") auto
    have ch: "chain ?idx' (DPS_HASH s) = chain ?idx (DPS_HASH s)" for s
      using chain_cong [of ?idx' ?idx "DPS_HASH s"] n okD(1) DPS_HASH_less [of s] by simp
    have hc: "h = DPS_HASH r \<and> it_next (?idx ! h) = 0" if "h < DPS_HASH_PRIME" "h = ?c" for h
    proof -
      have "DPS_HASH r = ?c" using chain_head [OF okD(7) okD(6) p(2)] that by simp
      then show ?thesis using head True that by simp
    qed
    have iok': "index_ok ?idx'"
      unfolding index_ok_def
    proof (intro conjI allI impI)
      fix i assume "live ?idx' i"
      then show "i \<in> set (chain ?idx' (DPS_HASH (it_rec_id (?idx' ! i))))"
        using l okD(3) ch by simp
    next
      fix i j assume "live ?idx' i" "live ?idx' j" "it_rec_id (?idx' ! i) = it_rec_id (?idx' ! j)"
      then show "i = j" using l okD(4) by simp
    next
      fix h assume "h < DPS_HASH_PRIME" "it_rec_id (?idx' ! h) = 0"
      then show "it_next (?idx' ! h) = 0"
        using hc [of h] okD(1) okD(5) [of h] n [of h] by (cases "h = ?c") auto
    qed (use okD(1,7) n in auto)
    have sok': "storage_ok ?f"
      using sok l unfolding storage_ok_def by simp
    have "base_map ?f s = ((base_map f)(r := None)) s" for s
      using iok
    proof (cases rule: base_map_cases [where r = s])
      case none
      then have "base_map ?f s = None" using l by (intro base_map_none) simp
      with none show ?thesis by simp
    next
      case (live i)
      show ?thesis
      proof (cases "s = r")
        case True
        then have "base_map ?f s = None" using l okD(4) [OF _ c] \<open>it_rec_id (?idx ! ?c) = r\<close> by (intro base_map_none) auto
        with True show ?thesis by simp
      next
        case False
        then have "i \<noteq> ?c" using live(2) True by auto
        then show ?thesis using base_map_live [of ?f i] iok' live l False by simp
      qed
    qed
    then show ?thesis using ok del iok' sok' by (auto simp: base_ok_def)
  qed
qed

section \<open>The store as an interface\<close>

text \<open>\<open>base_write_ok\<close> and \<open>base_delete_ok\<close>: the file the operation leaves when it returns \<^verbatim>\<open>DPS_OK\<close>.\<close>

definition base_write_ok :: "zlib \<Rightarrow> base_handle \<Rightarrow> base_file \<Rightarrow> u32 \<Rightarrow> string \<Rightarrow> base_file option" where
  "base_write_ok z h f r buffer = if_ok (DpsBaseWrite z h f r buffer)"

definition base_delete_ok :: "base_handle \<Rightarrow> base_file \<Rightarrow> u32 \<Rightarrow> base_file option" where
  "base_delete_ok h f r = if_ok (DpsBaseDelete h f r)"

lemma if_ok_Some: "if_ok res = Some x \<longleftrightarrow> res = Some (x, DPS_OK)"
  by (auto simp: if_ok_def split: option.splits dps_status.splits)

interpretation base_store: deletable_store base_ok base_map "\<lambda>r. r \<noteq> 0" "\<lambda>r. r" "base_pack z" "base_unpack z"
    "base_write_ok z h" "DpsBaseARead z h'" "base_delete_ok h''"
    "\<lambda>f r. it_rec_id (bf_index f ! DPS_HASH r) = r \<longrightarrow> it_next (bf_index f ! DPS_HASH r) = 0"
  for z h h' h''
  by unfold_locales (simp_all add: base_write_ok_def base_delete_ok_def if_ok_Some base_write_put base_aread_map base_delete_map)

section \<open>Two records of one chain\<close>

text \<open>The file with records 1 and 4094 in it, which have the same hash.\<close>

definition two_records :: base_file where
  "two_records =
     \<lparr>bf_index = (replicate DPS_HASH_PRIME zero_baseitem)
        [1 := \<lparr>it_rec_id = 1, it_offset = 0, it_next = DPS_HASH_PRIME, it_size = 1, it_orig_size = 0\<rparr>] @
        [\<lparr>it_rec_id = 4094, it_offset = 1, it_next = 0, it_size = 1, it_orig_size = 0\<rparr>],
      bf_torn = False, bf_store = ''ab''\<rparr>"

lemma hash_values: "DPS_HASH 1 = 1" "DPS_HASH 4094 = 1"
  by (simp_all add: DPS_HASH_def DPS_HASH_PRIME_def)

lemma prime_gt: "\<not> DPS_HASH_PRIME \<le> Suc 0" "Suc 0 < DPS_HASH_PRIME" "Suc 0 \<noteq> DPS_HASH_PRIME" "0 < DPS_HASH_PRIME"
  by (simp_all add: DPS_HASH_PRIME_def)

lemma write_at_append: "p = length xs \<Longrightarrow> write_at z xs p d = xs @ d"
  by (simp add: write_at_def)

lemmas store_run = DpsBaseWrite_def DpsBaseARead_def DpsBaseDelete_def DpsBaseSeek_def seek_opened_def seek_opens_def
  handle_after_def base_search_def search_start_def chain_search.simps hash_values prime_gt DpsBaseWriteItem_def
  write_item_def unaligned_def new_base_file_def zero_baseitem_def base_pack_def Let_def nth_append write_at_index
  write_at_append read_at_def if_ok_def

lemma find_append: "find P (xs @ ys) = (case find P xs of None \<Rightarrow> find P ys | Some x \<Rightarrow> Some x)"
  by (induction xs) auto

lemma two_records_written:
  "store_all (base_write_ok None (Some DPS_WRITE_LOCK)) new_base_file [(1, ''a''), (4094, ''b'')] = Some two_records"
  by (simp add: store_run base_write_ok_def two_records_def)

lemma one_record_written:
  "base_write_ok None (Some DPS_WRITE_LOCK) new_base_file 1 ''a'' = Some
     \<lparr>bf_index = (replicate DPS_HASH_PRIME zero_baseitem)
        [1 := \<lparr>it_rec_id = 1, it_offset = 0, it_next = 0, it_size = 1, it_orig_size = 0\<rparr>],
      bf_torn = False, bf_store = ''a''\<rparr>"
  by (simp add: store_run base_write_ok_def)

section \<open>Properties of the store\<close>

text \<open>
  C3. Writing a record updates the map a well-formed file stands for at its id and nowhere else,
  and keeps the file well formed: whether the record replaces one in place, moves to the end of the
  storage file, takes a deleted item of its chain or extends the chain, and whether the file was
  open for reading, for writing or not at all.
\<close>

theorem DpsBaseWrite_map:
  "base_ok f \<Longrightarrow> r \<noteq> 0 \<Longrightarrow>
   \<exists>f'. DpsBaseWrite z h f r buffer = Some (f', DPS_OK) \<and> base_ok f' \<and>
     base_map f' = (base_map f)(r \<mapsto> base_pack z buffer)"
  using base_store.put_law [of f r z h buffer] by (simp add: base_write_ok_def if_ok_Some)

theorem DpsBaseWrite_map_witness:
  "\<exists>f'. DpsBaseWrite None None new_base_file 4094 ''ab'' = Some (f', DPS_OK) \<and> base_ok f' \<and>
     base_map f' = [4094 \<mapsto> (''ab'', 0)]"
  using DpsBaseWrite_map [of new_base_file 4094 None None "''ab''"]
  by (simp add: new_base_file_ok base_pack_def)

text \<open>
  C4. What is read is what was written last: after any sequence of writes to a new file, every id
  reads as the buffer of its last write, and ids that were not written are not found. With
  compression this needs non-empty buffers and zlib to undo itself on them.
\<close>

theorem DpsBaseARead_last_written:
  "list_all (\<lambda>(r, b). r \<noteq> 0 \<and> base_unpack z (base_pack z b) = b) ws \<Longrightarrow>
   \<exists>f. store_all (\<lambda>f r b. if_ok (DpsBaseWrite z h f r b)) new_base_file ws = Some f \<and> base_ok f \<and>
     (\<forall>r. r \<noteq> 0 \<longrightarrow> DpsBaseARead z h' f r = Some (f, map_of (rev ws) r))"
  using base_store.store_all_get [of new_base_file z ws h h'] by (simp add: new_base_file_ok base_write_ok_def [abs_def])

theorem DpsBaseARead_last_written_witness:
  "\<exists>f. store_all (\<lambda>f r b. if_ok (DpsBaseWrite (Some (rev, rev)) None f r b)) new_base_file
       [(1, ''ab''), (4094, ''c''), (1, ''d'')] = Some f \<and>
     DpsBaseARead (Some (rev, rev)) None f 1 = Some (f, Some ''d'') \<and>
     DpsBaseARead (Some (rev, rev)) None f 4094 = Some (f, Some ''c'') \<and>
     DpsBaseARead (Some (rev, rev)) None f 2 = Some (f, None)"
proof -
  obtain f where "store_all (\<lambda>f r b. if_ok (DpsBaseWrite (Some (rev, rev)) None f r b)) new_base_file
      [(1, ''ab''), (4094, ''c''), (1, ''d'')] = Some f"
    "\<forall>r. r \<noteq> 0 \<longrightarrow> DpsBaseARead (Some (rev, rev)) None f r = Some (f, map_of (rev [(1, ''ab''), (4094, ''c''), (1, ''d'')]) r)"
    using DpsBaseARead_last_written [of "Some (rev, rev)" "[(1, ''ab''), (4094, ''c''), (1, ''d'')]" None None]
    by (auto simp: base_unpack_pack)
  then show ?thesis by (intro exI [of _ f]) simp
qed

text \<open>
  C12. Deleting a record removes it from the map and nothing else, as long as it is not the first
  of a chain that goes on.
\<close>

theorem DpsBaseDelete_map:
  "base_ok f \<Longrightarrow> r \<noteq> 0 \<Longrightarrow>
   (it_rec_id (bf_index f ! DPS_HASH r) = r \<Longrightarrow> it_next (bf_index f ! DPS_HASH r) = 0) \<Longrightarrow>
   \<exists>f'. DpsBaseDelete h f r = Some (f', DPS_OK) \<and> base_ok f' \<and> base_map f' = (base_map f)(r := None)"
  using base_store.del_law [of f r h] by (simp add: base_delete_ok_def if_ok_Some)

theorem DpsBaseDelete_map_witness:
  "(\<exists>f f'. store_all (\<lambda>f r b. if_ok (DpsBaseWrite None (Some DPS_WRITE_LOCK) f r b)) new_base_file
        [(1, ''a''), (4094, ''b'')] = Some f \<and> base_map f = [1 \<mapsto> (''a'', 0), 4094 \<mapsto> (''b'', 0)] \<and>
      DpsBaseDelete None f 4094 = Some (f', DPS_OK) \<and> base_map f' = [1 \<mapsto> (''a'', 0)]) \<and>
   (\<exists>f f'. DpsBaseWrite None (Some DPS_WRITE_LOCK) new_base_file 1 ''a'' = Some (f, DPS_OK) \<and>
      it_rec_id (bf_index f ! DPS_HASH 1) = 1 \<and> base_map f = [1 \<mapsto> (''a'', 0)] \<and>
      DpsBaseDelete None f 1 = Some (f', DPS_OK) \<and> base_map f' = Map.empty)"
proof (rule conjI)
  have "base_ok two_records \<and> base_map two_records = [1 \<mapsto> (''a'', 0), 4094 \<mapsto> (''b'', 0)]"
    using base_store.store_all_view [of new_base_file "[(1, ''a''), (4094, ''b'')]" None "Some DPS_WRITE_LOCK"]
    by (simp add: new_base_file_ok two_records_written base_pack_def del: store_all.simps)
  then show "\<exists>f f'. store_all (\<lambda>f r b. if_ok (DpsBaseWrite None (Some DPS_WRITE_LOCK) f r b)) new_base_file
        [(1, ''a''), (4094, ''b'')] = Some f \<and> base_map f = [1 \<mapsto> (''a'', 0), 4094 \<mapsto> (''b'', 0)] \<and>
      DpsBaseDelete None f 4094 = Some (f', DPS_OK) \<and> base_map f' = [1 \<mapsto> (''a'', 0)]"
    using two_records_written DpsBaseDelete_map [of two_records 4094 None]
    by (auto simp: hash_values two_records_def nth_append prime_gt base_write_ok_def [abs_def])
next
  obtain f where f: "base_write_ok None (Some DPS_WRITE_LOCK) new_base_file 1 ''a'' = Some f" "base_ok f"
    "base_map f = [1 \<mapsto> (''a'', 0)]"
    using base_store.put_law [of new_base_file 1 None "Some DPS_WRITE_LOCK" "''a''"]
    by (auto simp: new_base_file_ok base_pack_def)
  then have "it_rec_id (bf_index f ! DPS_HASH 1) = 1" "it_next (bf_index f ! DPS_HASH 1) = 0"
    unfolding one_record_written by (auto simp: hash_values prime_gt)
  with f DpsBaseDelete_map [of f 1 None] show "\<exists>f f'. DpsBaseWrite None (Some DPS_WRITE_LOCK) new_base_file 1 ''a'' = Some (f, DPS_OK) \<and>
      it_rec_id (bf_index f ! DPS_HASH 1) = 1 \<and> base_map f = [1 \<mapsto> (''a'', 0)] \<and>
      DpsBaseDelete None f 1 = Some (f', DPS_OK) \<and> base_map f' = Map.empty"
    by (auto simp: base_write_ok_def if_ok_Some)
qed

text \<open>
  C17. Reading into a buffer of \<open>len\<close> bytes gives what the map has when it fits, by its original size,
  and is an error when it does not fit or there is no record.
\<close>

theorem DpsBaseRead_map:
  "base_ok f \<Longrightarrow> r \<noteq> 0 \<Longrightarrow>
   DpsBaseRead z h f r len =
     Some (f, case base_map f r of None \<Rightarrow> None
              | Some (data, orig_size) \<Rightarrow>
                  if (if orig_size \<noteq> 0 then orig_size else length data) \<le> len
                  then Some (base_unpack z (data, orig_size)) else None)"
  by (rule base_seek_map [where f = f and r = r and h = h and m = DPS_READ_LOCK])
     (auto simp: DpsBaseRead_def base_unpack_def Let_def split: option.splits)

theorem DpsBaseRead_map_witness:
  "\<exists>f. DpsBaseWrite None None new_base_file 7 ''ab'' = Some (f, DPS_OK) \<and>
     DpsBaseRead None None f 7 2 = Some (f, Some ''ab'') \<and> DpsBaseRead None None f 7 1 = Some (f, None)"
proof -
  obtain f where f: "DpsBaseWrite None None new_base_file 7 ''ab'' = Some (f, DPS_OK)" "base_ok f" "base_map f = [7 \<mapsto> (''ab'', 0)]"
    using base_store.put_law [of new_base_file 7 None None "''ab''"] new_base_file_ok by (auto simp: base_pack_def base_write_ok_def if_ok_Some)
  with DpsBaseRead_map [of f 7 None None] show ?thesis by (simp add: base_unpack_def)
qed

section \<open>Where the store breaks its promise\<close>

text \<open>
  Deleting the first record of a chain hides the others: with records 1 and 4094 written, which
  have the same hash, 4094 is read; after deleting 1 it is not found, although its item and its
  data are still in the files. The search takes the deleted first item for an empty chain.
\<close>

theorem DpsBaseDelete_hides:
  "\<exists>f f'. store_all (base_write_ok None (Some DPS_WRITE_LOCK)) new_base_file [(1, ''a''), (4094, ''b'')] = Some f \<and>
     DpsBaseARead None (Some DPS_WRITE_LOCK) f 4094 = Some (f, Some ''b'') \<and>
     DpsBaseDelete (Some DPS_WRITE_LOCK) f 1 = Some (f', DPS_OK) \<and>
     DpsBaseARead None (Some DPS_WRITE_LOCK) f' 4094 = Some (f', None) \<and> base_map f' 4094 = Some (''b'', 0)"
proof -
  let ?f' = "two_records\<lparr>bf_index := (bf_index two_records)[1 := (bf_index two_records ! 1)\<lparr>it_rec_id := 0\<rparr>]\<rparr>"
  have "DpsBaseARead None (Some DPS_WRITE_LOCK) two_records 4094 = Some (two_records, Some ''b'')"
    by (simp add: store_run two_records_def)
  moreover have "DpsBaseDelete (Some DPS_WRITE_LOCK) two_records 1 = Some (?f', DPS_OK)"
    by (simp add: store_run two_records_def)
  moreover have "DpsBaseARead None (Some DPS_WRITE_LOCK) ?f' 4094 = Some (?f', None)"
    by (simp add: store_run two_records_def)
  moreover have "base_map ?f' 4094 = Some (''b'', 0)"
  proof -
    let ?xs = "(replicate DPS_HASH_PRIME zero_baseitem)
      [1 := \<lparr>it_rec_id = 0, it_offset = 0, it_next = DPS_HASH_PRIME, it_size = 1, it_orig_size = 0\<rparr>]"
    have "find (\<lambda>it. it_rec_id it = 4094) ?xs = None"
      using set_update_subset_insert [of "replicate DPS_HASH_PRIME zero_baseitem" 1]
      by (fastforce simp: find_None_iff zero_baseitem_def)
    then show ?thesis
      by (simp add: base_map_def two_records_def find_append list_update_append nth_append prime_gt read_at_def)
  qed
  ultimately show ?thesis using two_records_written by blast
qed

text \<open>
  With compression an empty buffer does not read back as empty: the bytes zlib makes of it are
  returned as they are, because the original size 0 means data that is not compressed.
\<close>

theorem DpsBaseARead_empty_compressed:
  "\<exists>f. DpsBaseWrite (Some (deflate, inflate)) h new_base_file 1 [] = Some (f, DPS_OK) \<and>
     DpsBaseARead (Some (deflate, inflate)) h' f 1 = Some (f, Some (deflate []))"
proof -
  obtain f where f: "DpsBaseWrite (Some (deflate, inflate)) h new_base_file 1 [] = Some (f, DPS_OK)" "base_ok f"
    "base_map f = [1 \<mapsto> base_pack (Some (deflate, inflate)) []]"
    using base_store.put_law [of new_base_file 1 "Some (deflate, inflate)" h "[]"] new_base_file_ok by (auto simp: base_write_ok_def if_ok_Some)
  then show ?thesis using base_store.get_law [of f 1 "Some (deflate, inflate)" h'] by (simp add: base_unpack_pack)
qed

section \<open>Broken chains\<close>

text \<open>
  A file whose index was cut: links go forward, but may lead past the end. A search of a chain ends
  at an item, or before a link past the end, and then the chain without that link can be searched, or
  at a part of an item.
\<close>

definition links_forward :: "baseitem list \<Rightarrow> bool" where
  "links_forward idx \<longleftrightarrow> (\<forall>i < length idx. it_next (idx ! i) = 0 \<or> i < it_next (idx ! i))"

text \<open>The index with the link of item \<open>k\<close> taken out.\<close>

abbreviation cut_link :: "baseitem list \<Rightarrow> nat \<Rightarrow> baseitem list" where
  "cut_link idx k \<equiv> idx[k := (idx ! k)\<lparr>it_next := 0\<rparr>]"

lemma chain_search_broken:
  assumes "links_forward idx"
  shows "i < length idx \<Longrightarrow> bp_item p = idx ! i \<Longrightarrow> bp_current p = i \<Longrightarrow>
    (\<exists>q. chain_search idx torn r p = Some (Found q)) \<or>
    (torn \<and> chain_search idx torn r p = Some Partial_item) \<or>
    (\<exists>q k. chain_search idx torn r p = Some (Past_end q) \<and> bp_previous q = k \<and> k < length idx \<and> i \<le> k \<and>
       length idx \<le> it_next (idx ! k) \<and> it_rec_id (idx ! k) \<noteq> r \<and>
       (\<forall>p'. bp_item p' = cut_link idx k ! i \<longrightarrow> bp_current p' = i \<longrightarrow>
          (\<exists>q'. chain_search (cut_link idx k) torn r p' = Some (Found q'))))"
proof (induction "length idx - i" arbitrary: i p rule: less_induct)
  case less
  let ?it = "idx ! i" and ?n = "it_next (idx ! i)"
  consider (stop) "?n = 0 \<or> it_rec_id ?it = r"
    | (part) "?n \<noteq> 0" "it_rec_id ?it \<noteq> r" "torn" "?n = length idx"
    | (break) "?n \<noteq> 0" "it_rec_id ?it \<noteq> r" "length idx \<le> ?n" "\<not> (torn \<and> ?n = length idx)"
    | (step) "?n \<noteq> 0" "it_rec_id ?it \<noteq> r" "?n < length idx" by linarith
  then show ?case
  proof cases
    case stop
    then show ?thesis using less.prems by (subst chain_search.simps) auto
  next
    case part
    then have "chain_search idx torn r p = Some Partial_item"
      using less.prems by (subst chain_search.simps) (simp add: Let_def)
    with part show ?thesis by blast
  next
    case break
    have "\<exists>q'. chain_search (cut_link idx i) torn r p' = Some (Found q')"
      if "bp_item p' = cut_link idx i ! i" for p'
      using that less.prems by (subst chain_search.simps) simp
    moreover have "chain_search idx torn r p = Some (Past_end (p\<lparr>bp_previous := i, bp_current := ?n\<rparr>))"
      using break less.prems by (subst chain_search.simps) (simp add: Let_def)
    ultimately show ?thesis
      using break less.prems by (intro disjI2 exI [of _ "p\<lparr>bp_previous := i, bp_current := ?n\<rparr>"]) auto
  next
    case step
    have n: "i < ?n" using assms less.prems(1) step by (auto simp: links_forward_def)
    let ?p = "p\<lparr>bp_previous := bp_current p, bp_current := ?n, bp_item := idx ! ?n\<rparr>"
    have c: "chain_search idx torn r p = chain_search idx torn r ?p"
      using step less.prems by (subst chain_search.simps) (simp add: Let_def)
    have "\<exists>q'. chain_search (idx[k := x]) torn r p' = Some (Found q')"
      if "?n \<le> k" "k < length idx" "bp_item p' = idx[k := x] ! i"
        "\<forall>p'. bp_item p' = idx[k := x] ! ?n \<longrightarrow> bp_current p' = ?n \<longrightarrow>
          (\<exists>q'. chain_search (idx[k := x]) torn r p' = Some (Found q'))" for k x p'
      using that step n by (subst chain_search.simps) (simp add: Let_def)
    then show ?thesis
      using less.hyps [OF diff_less_mono2 [OF n less.prems(1)] step(3), of ?p] n unfolding c by fastforce
  qed
qed

lemma base_search_broken:
  assumes fw: "links_forward idx"
  obtains (found) q where "base_search idx torn r = Some (Found q)"
  | (part) "torn" "base_search idx torn r = Some Partial_item"
  | (break) q q' where "base_search idx torn r = Some (Past_end q)" "bp_previous q < length idx"
      "length idx \<le> it_next (idx ! bp_previous q)"
      "base_search (cut_link idx (bp_previous q)) torn r = Some (Found q')"
proof (cases "bp_mishash (search_start idx r)")
  case True
  let ?h = "DPS_HASH r"
  have h: "?h < length idx" using True by (auto simp: search_start_def zero_baseitem_def Let_def split: if_splits)
  have start: "bp_item (search_start xs r) = xs ! ?h" "bp_current (search_start xs r) = ?h"
    if "length xs = length idx" for xs
    using h that by (simp_all add: search_start_def Let_def)
  have mis: "bp_mishash (search_start (cut_link idx k) r)" for k
    using True h by (cases "k = ?h") (auto simp: search_start_def Let_def)
  have s: "base_search idx torn r = chain_search idx torn r (search_start idx r)"
    using True by (simp add: base_search_def Let_def)
  have s': "base_search (cut_link idx k) torn r = chain_search (cut_link idx k) torn r (search_start (cut_link idx k) r)" for k
    using mis by (simp add: base_search_def Let_def)
  from chain_search_broken [OF fw h start [OF refl], of torn r] show thesis
    using found part break start [of "cut_link idx k" for k] unfolding s s' by (metis length_list_update)
next
  case False
  with found show thesis by (simp add: base_search_def Let_def)
qed

text \<open>
  C18. Opening a file whose links go forward always ends. If the search of the chain finds its place,
  it does so in both modes and changes nothing. If a link leads past the end of the index, opening for
  reading is an error that changes nothing, and opening for writing takes out that one link, changes
  nothing else, and the search of the new chain finds a place. If the link leads to a part of an item,
  opening is an error in both modes that changes nothing.
\<close>

theorem DpsBaseOpen_repairs:
  assumes "links_forward (bf_index f)"
  shows "case base_search (bf_index f) (bf_torn f) r of
      None \<Rightarrow> False
    | Some (Found p) \<Rightarrow> DpsBaseOpen m f r = Some (f, Some p)
    | Some Partial_item \<Rightarrow> bf_torn f \<and> DpsBaseOpen m f r = Some (f, None)
    | Some (Past_end q) \<Rightarrow>
        DpsBaseOpen DPS_READ_LOCK f r = Some (f, None) \<and>
        bp_previous q < length (bf_index f) \<and>
        length (bf_index f) \<le> it_next (bf_index f ! bp_previous q) \<and>
        (\<exists>f' p. DpsBaseOpen DPS_WRITE_LOCK f r = Some (f', Some p) \<and>
           f' = f\<lparr>bf_index := (bf_index f)[bp_previous q := (bf_index f ! bp_previous q)\<lparr>it_next := 0\<rparr>]\<rparr> \<and>
           base_search (bf_index f') (bf_torn f') r = Some (Found p))"
  by (rule base_search_broken [OF assms, where torn = "bf_torn f" and r = r])
     (simp_all add: DpsBaseOpen_def numeral_3_eq_3 DpsBaseWriteItem_def write_item_def write_at_index Let_def)

text \<open>The file of \<open>two_records\<close> without its last index item, as after a crash.\<close>

definition cut_file :: base_file where
  "cut_file = two_records\<lparr>bf_index := butlast (bf_index two_records)\<rparr>"

lemma cut_file_index:
  "bf_index cut_file = (replicate DPS_HASH_PRIME zero_baseitem)
     [1 := \<lparr>it_rec_id = 1, it_offset = 0, it_next = DPS_HASH_PRIME, it_size = 1, it_orig_size = 0\<rparr>]"
  "bf_store cut_file = ''ab''" "\<not> bf_torn cut_file"
  by (simp_all add: cut_file_def two_records_def)

lemma cut_file_links: "links_forward (bf_index cut_file)"
  by (auto simp: links_forward_def cut_file_index nth_list_update zero_baseitem_def DPS_HASH_PRIME_def)

lemma cut_file_search:
  "base_search (bf_index cut_file) torn 4094 =
     (if torn then Some Partial_item
      else Some (Past_end \<lparr>bp_item = bf_index cut_file ! 1, bp_current = DPS_HASH_PRIME, bp_previous = 1, bp_mishash = True\<rparr>))"
  by (simp add: store_run cut_file_index)

theorem DpsBaseOpen_repairs_witness:
  "DpsBaseOpen DPS_READ_LOCK cut_file 4094 = Some (cut_file, None) \<and>
   (\<exists>p. DpsBaseOpen DPS_WRITE_LOCK cut_file 4094 =
      Some (cut_file\<lparr>bf_index := (bf_index cut_file)[1 := (bf_index cut_file ! 1)\<lparr>it_next := 0\<rparr>]\<rparr>, Some p)) \<and>
   DpsBaseOpen DPS_WRITE_LOCK (cut_file\<lparr>bf_torn := True\<rparr>) 4094 = Some (cut_file\<lparr>bf_torn := True\<rparr>, None)"
  using DpsBaseOpen_repairs [of cut_file DPS_READ_LOCK 4094]
    DpsBaseOpen_repairs [of "cut_file\<lparr>bf_torn := True\<rparr>" DPS_WRITE_LOCK 4094]
  by (auto simp: cut_file_links cut_file_search cut_file_index(3))

text \<open>
  A broken chain found by \<^verbatim>\<open>DpsBaseSeek\<close>, in a file that is open for writing, loses the record that
  is written next: the chain is cut, but the position stays at the break. \<^verbatim>\<open>DpsBaseWrite\<close>
  then links the item there and not the last one of the chain, so reading the record back fails.
  When the file is opened for the write, the record is found.
\<close>

theorem DpsBaseSeek_repair_loses:
  "(\<exists>f. DpsBaseWrite None (Some DPS_WRITE_LOCK) cut_file 4094 ''c'' = Some (f, DPS_OK) \<and>
      DpsBaseARead None (Some DPS_WRITE_LOCK) f 4094 = Some (f, None)) \<and>
   (\<exists>f. DpsBaseWrite None None cut_file 4094 ''c'' = Some (f, DPS_OK) \<and>
      DpsBaseARead None (Some DPS_WRITE_LOCK) f 4094 = Some (f, Some ''c''))"
proof (rule conjI)
  let ?xs = "(replicate DPS_HASH_PRIME zero_baseitem)
     [1 := \<lparr>it_rec_id = 1, it_offset = 0, it_next = 0, it_size = 1, it_orig_size = 0\<rparr>]"
  let ?f = "cut_file\<lparr>bf_index := ?xs @
     [\<lparr>it_rec_id = 4094, it_offset = Suc (Suc 0), it_next = 0, it_size = 1, it_orig_size = 0\<rparr>], bf_store := ''abc''\<rparr>"
  have "DpsBaseWrite None (Some DPS_WRITE_LOCK) cut_file 4094 ''c'' = Some (?f, DPS_OK)"
    by (simp add: store_run cut_file_index base_file_commute list_update_append)
  moreover have "DpsBaseARead None (Some DPS_WRITE_LOCK) ?f 4094 = Some (?f, None)"
    by (simp add: store_run)
  ultimately show "\<exists>f. DpsBaseWrite None (Some DPS_WRITE_LOCK) cut_file 4094 ''c'' = Some (f, DPS_OK) \<and>
     DpsBaseARead None (Some DPS_WRITE_LOCK) f 4094 = Some (f, None)" by blast
  let ?g = "cut_file\<lparr>bf_index := (bf_index cut_file) @
     [\<lparr>it_rec_id = 4094, it_offset = Suc (Suc 0), it_next = 0, it_size = 1, it_orig_size = 0\<rparr>], bf_store := ''abc''\<rparr>"
  have "DpsBaseWrite None None cut_file 4094 ''c'' = Some (?g, DPS_OK)"
    by (simp add: store_run cut_file_index base_file_commute list_update_append DpsBaseOpen_def numeral_3_eq_3)
  moreover have "DpsBaseARead None (Some DPS_WRITE_LOCK) ?g 4094 = Some (?g, Some ''c'')"
    by (simp add: store_run cut_file_index)
  ultimately show "\<exists>f. DpsBaseWrite None None cut_file 4094 ''c'' = Some (f, DPS_OK) \<and>
     DpsBaseARead None (Some DPS_WRITE_LOCK) f 4094 = Some (f, Some ''c'')" by blast
qed

end
