(* ===== verification/Dps_Search.thy ===== *)
theory Dps_Search
  imports Dps_Prelude "HOL-Library.Multiset"
begin

text \<open>
  Binary search in sorted arrays (\<^verbatim>\<open>dps_bsearch\<close> of \<^verbatim>\<open>src/utils.c\<close>) and insertion by
  halving (\<^verbatim>\<open>DpsVarSortForLast\<close> of \<^verbatim>\<open>src/vars.c\<close>), for any comparison function. What the
  functions need of the comparison is the locale \<open>key_order\<close>; the components that keep sorted
  arrays interpret it with their own.
\<close>

section \<open>strcasecmp\<close>

text \<open>Only the sign of the result is fixed by the library's documentation; here it is -1, 0 or 1.\<close>

fun c_strcasecmp :: "string \<Rightarrow> string \<Rightarrow> int" where
  "c_strcasecmp [] [] = 0"
| "c_strcasecmp [] (b # t) = - 1"
| "c_strcasecmp (a # s) [] = 1"
| "c_strcasecmp (a # s) (b # t) =
     (if c_tolower a = c_tolower b then c_strcasecmp s t
      else if ord (c_tolower a) < ord (c_tolower b) then - 1 else 1)"

section \<open>The functions\<close>

text \<open>The loop over the part of the array that starts at \<open>base\<close> and has \<open>lim\<close> elements.\<close>

function bsearch_loop :: "('a \<Rightarrow> 'b \<Rightarrow> int) \<Rightarrow> 'a \<Rightarrow> 'b list \<Rightarrow> nat \<Rightarrow> nat \<Rightarrow> nat option" where
  "bsearch_loop compar key xs base lim =
    (if lim = 0 then None
     else
       (let p = base + lim div 2; cmp = compar key (xs ! p)
        in if cmp = 0 then Some p
           else if cmp > 0 then bsearch_loop compar key xs (p + 1) ((lim - 1) div 2)
           else bsearch_loop compar key xs base (lim div 2)))"
  by pat_completeness auto
termination by (relation "measure (\<lambda>(_, _, _, _, lim). lim)") auto

declare bsearch_loop.simps [simp del]

definition dps_bsearch :: "('a \<Rightarrow> 'b \<Rightarrow> int) \<Rightarrow> 'a \<Rightarrow> 'b list \<Rightarrow> nat option" where
  "dps_bsearch compar key xs =
    (if xs = [] then None
     else if compar key (xs ! 0) < 0 then None
     else if compar key (xs ! (length xs - 1)) > 0 then None
     else bsearch_loop compar key xs 0 (length xs))"

function sort_last_loop :: "('a \<Rightarrow> 'a \<Rightarrow> int) \<Rightarrow> 'a list \<Rightarrow> 'a \<Rightarrow> nat \<Rightarrow> nat \<Rightarrow> nat" where
  "sort_last_loop cmp Var T l r =
    (if l < r then
       (let c = (l + r) div 2
        in if cmp (Var ! c) T < 0 then sort_last_loop cmp Var T (c + 1) r else sort_last_loop cmp Var T l c)
     else r)"
  by pat_completeness auto
termination by (relation "measure (\<lambda>(_, _, _, l, r). r - l)") auto

declare sort_last_loop.simps [simp del]

text \<open>The array with its last element moved to its place; \<open>cmp\<close> is \<^verbatim>\<open>varcmp\<close> in the code.\<close>

definition DpsVarSortForLast :: "('a \<Rightarrow> 'a \<Rightarrow> int) \<Rightarrow> 'a list \<Rightarrow> 'a list" where
  "DpsVarSortForLast cmp Var =
    (let n = length Var; T = Var ! (n - 1);
         r = sort_last_loop cmp Var T 0 (n - 1);
         r = (if r < n - 1 \<and> cmp (Var ! r) T < 0 then r + 1 else r)
     in if r = n - 1 then Var else take r Var @ [T] @ take (n - r - 1) (drop r Var))"

section \<open>What they do in a sorted array\<close>

locale key_order =
  fixes cmp :: "'a \<Rightarrow> 'a \<Rightarrow> int"
  assumes cmp_flip: "cmp a b < 0 \<longleftrightarrow> 0 < cmp b a"
    and cmp_trans: "cmp a b \<le> 0 \<Longrightarrow> cmp b c \<le> 0 \<Longrightarrow> cmp a c \<le> 0"

text \<open>A sorted array; elements that compare equal may follow one another.\<close>

definition cmp_sorted :: "('a \<Rightarrow> 'a \<Rightarrow> int) \<Rightarrow> 'a list \<Rightarrow> bool" where
  "cmp_sorted cmp xs \<longleftrightarrow> sorted_wrt (\<lambda>a b. cmp a b \<le> 0) xs"

context key_order
begin

lemma cmp_refl: "cmp a a = 0"
  using cmp_flip [of a a] by (cases "cmp a a" "0 :: int" rule: linorder_cases) auto

lemma flip_le: "cmp a b \<le> 0 \<longleftrightarrow> 0 \<le> cmp b a"
  using cmp_flip [of b a] by linarith

lemma sorted_le: "cmp_sorted cmp xs \<Longrightarrow> i \<le> j \<Longrightarrow> j < length xs \<Longrightarrow> cmp (xs ! i) (xs ! j) \<le> 0"
  using sorted_wrt_nth_less [of "\<lambda>a b. cmp a b \<le> 0" xs i j] cmp_refl [of "xs ! i"]
  by (cases "i = j") (auto simp: cmp_sorted_def)

lemma right_of:
  assumes "cmp_sorted cmp xs" "i \<le> p" "p < length xs" "0 < cmp key (xs ! p)"
  shows "0 < cmp key (xs ! i)"
  using cmp_trans [of key "xs ! i" "xs ! p"] sorted_le [OF assms(1-3)] assms(4) by linarith

lemma left_of:
  assumes "cmp_sorted cmp xs" "p \<le> j" "j < length xs" "cmp key (xs ! p) < 0"
  shows "cmp key (xs ! j) < 0"
  using cmp_trans [of "xs ! p" "xs ! j" key] sorted_le [OF assms(1-3)] assms(4)
    flip_le [of "xs ! j" key] cmp_flip [of key "xs ! p"] by linarith

lemma bsearch_loop_correct:
  assumes "cmp_sorted cmp xs"
  shows "base + lim \<le> length xs \<Longrightarrow> \<forall>i < base. 0 < cmp key (xs ! i) \<Longrightarrow>
    \<forall>i < length xs. base + lim \<le> i \<longrightarrow> cmp key (xs ! i) < 0 \<Longrightarrow>
    (case bsearch_loop cmp key xs base lim of
       Some p \<Rightarrow> p < length xs \<and> cmp key (xs ! p) = 0 | None \<Rightarrow> \<forall>i < length xs. cmp key (xs ! i) \<noteq> 0)"
proof (induction lim arbitrary: base rule: less_induct)
  case (less lim)
  let ?p = "base + lim div 2"
  show ?case
  proof (cases "lim = 0")
    case True
    have "cmp key (xs ! i) \<noteq> 0" if "i < length xs" for i
      using less.prems(2,3) that True by (cases "i < base") (auto dest: spec [of _ i])
    with True show ?thesis by (simp add: bsearch_loop.simps)
  next
    case False
    then have p: "?p < length xs" "?p < base + lim" using less.prems(1) by auto
    consider (eq) "cmp key (xs ! ?p) = 0" | (gt) "0 < cmp key (xs ! ?p)" | (lt) "cmp key (xs ! ?p) < 0" by linarith
    then show ?thesis
    proof cases
      case eq
      then show ?thesis using False p by (subst bsearch_loop.simps) (simp add: Let_def)
    next
      case gt
      have "\<forall>i < ?p + 1. 0 < cmp key (xs ! i)" using right_of [OF assms _ p(1) gt] by simp
      moreover have "?p + 1 + (lim - 1) div 2 = base + lim" using False by presburger
      moreover have "bsearch_loop cmp key xs base lim = bsearch_loop cmp key xs (?p + 1) ((lim - 1) div 2)"
        using gt False by (subst bsearch_loop.simps) (simp add: Let_def)
      moreover have "(lim - 1) div 2 < lim" using False by simp
      ultimately show ?thesis using less.IH [of "(lim - 1) div 2" "?p + 1"] less.prems by simp
    next
      case lt
      have "\<forall>i < length xs. ?p \<le> i \<longrightarrow> cmp key (xs ! i) < 0" using left_of [OF assms _ _ lt] by simp
      moreover have "bsearch_loop cmp key xs base lim = bsearch_loop cmp key xs base (lim div 2)"
        using lt False by (subst bsearch_loop.simps) (simp add: Let_def)
      moreover have "lim div 2 < lim" "base + lim div 2 \<le> length xs" using False less.prems(1) by auto
      ultimately show ?thesis using less.IH [of "lim div 2" base] less.prems(2) by simp
    qed
  qed
qed

lemma bsearch_correct:
  assumes "cmp_sorted cmp xs"
  shows "case dps_bsearch cmp key xs of
      Some p \<Rightarrow> p < length xs \<and> cmp key (xs ! p) = 0 | None \<Rightarrow> \<forall>x \<in> set xs. cmp key x \<noteq> 0"
proof (cases "xs = [] \<or> cmp key (xs ! 0) < 0 \<or> 0 < cmp key (xs ! (length xs - 1))")
  case True
  have "cmp key (xs ! i) \<noteq> 0" if "i < length xs" for i
    using True that left_of [OF assms, of 0 i key] right_of [OF assms, of i "length xs - 1" key] by force
  with True show ?thesis by (auto simp: dps_bsearch_def in_set_conv_nth)
next
  case False
  then have "dps_bsearch cmp key xs = bsearch_loop cmp key xs 0 (length xs)" by (auto simp: dps_bsearch_def)
  then show ?thesis using bsearch_loop_correct [OF assms, of 0 "length xs" key]
    by (auto simp: in_set_conv_nth split: option.splits)
qed

lemma sort_last_loop_correct:
  assumes "cmp_sorted cmp (butlast Var)"
  shows "r < length Var \<Longrightarrow> l \<le> r \<Longrightarrow> \<forall>i < l. cmp (Var ! i) T < 0 \<Longrightarrow>
    \<forall>i < length Var - 1. r \<le> i \<longrightarrow> 0 \<le> cmp (Var ! i) T \<Longrightarrow>
    sort_last_loop cmp Var T l r \<le> r \<and> (\<forall>i < sort_last_loop cmp Var T l r. cmp (Var ! i) T < 0) \<and>
    (\<forall>i < length Var - 1. sort_last_loop cmp Var T l r \<le> i \<longrightarrow> 0 \<le> cmp (Var ! i) T)"
proof (induction "r - l" arbitrary: l r rule: less_induct)
  case less
  let ?c = "(l + r) div 2"
  have mono: "cmp (Var ! i) (Var ! j) \<le> 0" if "i < j" "j < length Var - 1" for i j
    using assms that sorted_wrt_nth_less [of "\<lambda>a b. cmp a b \<le> 0" "butlast Var" i j]
    by (simp add: cmp_sorted_def nth_butlast)
  show ?case
  proof (cases "l < r")
    case False
    then show ?thesis using less.prems by (subst (1 2 3) sort_last_loop.simps) simp
  next
    case True
    then have c: "?c < r" "l \<le> ?c" "?c < length Var - 1" using less.prems by auto
    show ?thesis
    proof (cases "cmp (Var ! ?c) T < 0")
      case True
      have "cmp (Var ! i) T < 0" if "i \<le> ?c" for i
      proof (cases "i = ?c")
        case False
        then have "cmp (Var ! i) (Var ! ?c) \<le> 0" using mono that c by simp
        with True show ?thesis
          using cmp_trans [of T "Var ! i" "Var ! ?c"] flip_le [of T "Var ! i"] cmp_flip [of "Var ! ?c" T] by linarith
      qed (use True in simp)
      then have lo: "\<forall>i < ?c + 1. cmp (Var ! i) T < 0" by simp
      have eq: "sort_last_loop cmp Var T l r = sort_last_loop cmp Var T (?c + 1) r"
        using True \<open>l < r\<close> by (subst sort_last_loop.simps) (simp add: Let_def)
      have m: "r - (?c + 1) < r - l" "?c + 1 \<le> r" using c by auto
      show ?thesis unfolding eq by (rule less.hyps [OF m(1) less.prems(1) m(2) lo less.prems(4)])
    next
      case False
      have "0 \<le> cmp (Var ! i) T" if "?c \<le> i" "i < length Var - 1" for i
      proof (cases "i = ?c")
        case False': False
        then have "cmp (Var ! ?c) (Var ! i) \<le> 0" using mono that by simp
        with False show ?thesis
          using cmp_trans [of T "Var ! ?c" "Var ! i"] flip_le [of T "Var ! ?c"] flip_le [of T "Var ! i"] by linarith
      qed (use False in simp)
      then have hi: "\<forall>i < length Var - 1. ?c \<le> i \<longrightarrow> 0 \<le> cmp (Var ! i) T" by simp
      have eq: "sort_last_loop cmp Var T l r = sort_last_loop cmp Var T l ?c"
        using False \<open>l < r\<close> by (subst sort_last_loop.simps) (simp add: Let_def)
      have m: "?c - l < r - l" "?c < length Var" using c by auto
      have "sort_last_loop cmp Var T l ?c \<le> ?c \<and> (\<forall>i < sort_last_loop cmp Var T l ?c. cmp (Var ! i) T < 0) \<and>
          (\<forall>i < length Var - 1. sort_last_loop cmp Var T l ?c \<le> i \<longrightarrow> 0 \<le> cmp (Var ! i) T)"
        by (rule less.hyps [OF m(1,2) c(2) less.prems(3) hi])
      then show ?thesis unfolding eq using c(1) by (meson le_less_trans less_imp_le)
    qed
  qed
qed

lemma sort_for_last_correct:
  assumes "cmp_sorted cmp (butlast Var)" "Var \<noteq> []"
  shows "cmp_sorted cmp (DpsVarSortForLast cmp Var) \<and> mset (DpsVarSortForLast cmp Var) = mset Var"
proof -
  let ?T = "last Var" and ?V = "butlast Var"
  let ?r = "sort_last_loop cmp Var ?T 0 (length Var - 1)"
  have last: "Var ! (length Var - 1) = ?T" and V: "?V @ [?T] = Var"
    using assms(2) by (simp add: last_conv_nth, simp)
  have r: "?r \<le> length Var - 1" "\<forall>i < ?r. cmp (Var ! i) ?T < 0" "\<forall>i < length Var - 1. ?r \<le> i \<longrightarrow> 0 \<le> cmp (Var ! i) ?T"
    using sort_last_loop_correct [OF assms(1), of "length Var - 1" 0 ?T] assms(2) by auto
  have res: "DpsVarSortForLast cmp Var = take ?r ?V @ ?T # drop ?r ?V"
  proof (cases "?r = length Var - 1")
    case True
    then show ?thesis unfolding DpsVarSortForLast_def Let_def last using V by simp
  next
    case False
    then have n: "\<not> (?r < length Var - 1 \<and> cmp (Var ! ?r) ?T < 0)" using r(3) by auto
    have "take (length Var - ?r - 1) (drop ?r Var) = drop ?r ?V" "take ?r Var = take ?r ?V"
      using r(1) by (simp_all add: butlast_conv_take drop_take take_butlast min_def)
    then show ?thesis unfolding DpsVarSortForLast_def Let_def last if_not_P [OF n] using False by simp
  qed
  have "sorted_wrt (\<lambda>a b. cmp a b \<le> 0) (take ?r ?V @ ?T # drop ?r ?V)"
  proof -
    have s: "sorted_wrt (\<lambda>a b. cmp a b \<le> 0) (take ?r ?V @ drop ?r ?V)"
      using assms(1) by (simp add: cmp_sorted_def)
    have lo: "cmp x ?T \<le> 0" if "x \<in> set (take ?r ?V)" for x
      using that r(2) by (fastforce simp: in_set_conv_nth nth_butlast)
    have hi: "cmp ?T x \<le> 0" if "x \<in> set (drop ?r ?V)" for x
    proof -
      obtain k where "k < length ?V - ?r" "x = Var ! (?r + k)"
        using \<open>x \<in> set (drop ?r ?V)\<close> by (auto simp: in_set_conv_nth nth_butlast)
      then show ?thesis using r(3) flip_le [of ?T x] by simp
    qed
    show ?thesis using s lo hi unfolding sorted_wrt_append by simp
  qed
  moreover have "mset (take ?r ?V @ ?T # drop ?r ?V) = mset Var"
  proof -
    have "mset (take ?r ?V @ ?T # drop ?r ?V) = mset ((take ?r ?V @ drop ?r ?V) @ [?T])" by (simp only: mset_append mset.simps) simp
    also have "(take ?r ?V @ drop ?r ?V) @ [?T] = Var" using V by simp
    finally show ?thesis .
  qed
  ultimately show ?thesis by (simp add: res cmp_sorted_def)
qed

end

section \<open>The order of names\<close>

lemma strcasecmp_flip: "c_strcasecmp b a = - c_strcasecmp a b"
  by (induction a b rule: c_strcasecmp.induct) (auto simp: not_less le_less)

lemma strcasecmp_trans: "c_strcasecmp a b \<le> 0 \<Longrightarrow> c_strcasecmp b c \<le> 0 \<Longrightarrow> c_strcasecmp a c \<le> 0"
proof (induction a b arbitrary: c rule: c_strcasecmp.induct)
  case (2 b t)
  then show ?case by (cases c) auto
next
  case (4 a s b t)
  then show ?case by (cases c) (auto split: if_splits)
qed auto

lemma strcasecmp_0_iff: "c_strcasecmp a b = 0 \<longleftrightarrow> map c_tolower a = map c_tolower b"
  by (induction a b rule: c_strcasecmp.induct) auto

interpretation names: key_order c_strcasecmp
proof
  show "c_strcasecmp a b < 0 \<longleftrightarrow> 0 < c_strcasecmp b a" for a b
    using strcasecmp_flip [of a b] by simp
qed (rule strcasecmp_trans)

section \<open>Properties\<close>

text \<open>
  C13. \<^verbatim>\<open>dps_bsearch\<close> decides membership in a sorted array, with any comparison that is an
  order up to equivalence: an index it returns is in the array and compares equal, and when it
  returns NULL nothing in the array does. It never reads outside the array.
\<close>

theorem dps_bsearch_finds:
  "key_order cmp \<Longrightarrow> cmp_sorted cmp xs \<Longrightarrow>
   (case dps_bsearch cmp key xs of
      Some p \<Rightarrow> p < length xs \<and> cmp key (xs ! p) = 0
    | None \<Rightarrow> (\<forall>x \<in> set xs. cmp key x \<noteq> 0))"
  by (rule key_order.bsearch_correct)

theorem dps_bsearch_finds_witness:
  "dps_bsearch c_strcasecmp ''GMT'' [''est'', ''Gmt'', ''UTC''] = Some 1"
proof -
  have "cmp_sorted c_strcasecmp [''est'', ''Gmt'', ''UTC'']" by code_simp
  note b = dps_bsearch_finds [OF names.key_order_axioms this, of "''GMT''"]
  have "c_strcasecmp ''GMT'' ''est'' = 1" "c_strcasecmp ''GMT'' ''Gmt'' = 0" "c_strcasecmp ''GMT'' ''UTC'' = - 1"
    by code_simp+
  with b show ?thesis by (auto simp: less_Suc_eq numeral_3_eq_3 split: option.splits)
qed

end
