(* ===== verification/Dps_Vars.thy ===== *)
theory Dps_Vars
  imports Dps_Chars Dps_Wild Dps_Search Dps_Store
begin

text \<open>
  The variable lists of \<^verbatim>\<open>src/vars.c\<close>: 256 arrays of named values, by the first letter of
  the lower-cased name, each kept sorted by \<^verbatim>\<open>varcmp\<close>. A list is the function from the
  index \<^verbatim>\<open>r\<close> of \<^verbatim>\<open>Root\<close> to its \<^verbatim>\<open>Var\<close> array; \<^verbatim>\<open>nvars\<close> is its length, and
  \<^verbatim>\<open>mvars\<close> and \<^verbatim>\<open>freeme\<close> are left out with the allocation. Not modelled are the
  operations on doubles, \<^verbatim>\<open>DpsVarListFindUnsigned\<close>, \<^verbatim>\<open>DpsVarListAddEnviron\<close> and
  \<^verbatim>\<open>DpsVarListLog\<close>.
\<close>

section \<open>Variables\<close>

record dps_var =
  v_val :: "string option"
  v_txt_val :: "string option"
  v_name :: "string option"
  v_strict :: int
  v_single :: int
  v_maxlen :: nat
  v_curlen :: nat
  v_section :: u8

definition zero_var :: dps_var where
  "zero_var = \<lparr>v_val = None, v_txt_val = None, v_name = None, v_strict = 0, v_single = 0,
     v_maxlen = 0, v_curlen = 0, v_section = 0\<rparr>"

type_synonym varlist = "nat \<Rightarrow> dps_var list"

definition varcmp :: "dps_var \<Rightarrow> dps_var \<Rightarrow> int" where
  "varcmp uv1 uv2 =
    (case v_name uv1 of
       None \<Rightarrow> (case v_name uv2 of None \<Rightarrow> 0 | Some _ \<Rightarrow> 1)
     | Some n1 \<Rightarrow> (case v_name uv2 of None \<Rightarrow> - 1 | Some n2 \<Rightarrow> c_strcasecmp n1 n2))"

text \<open>
  A value copied with the bounds of \<open>S\<close>: whole without a maximal length, else at most
  \<^verbatim>\<open>len\<close> bytes of it.
\<close>

definition copy_val :: "dps_var \<Rightarrow> string option \<Rightarrow> string option" where
  "copy_val S v =
    (if v_maxlen S = 0 then v else map_option (take (max (v_maxlen S) (v_curlen S))) v)"

definition DpsVarCopy :: "dps_var \<Rightarrow> dps_var \<Rightarrow> dps_var" where
  "DpsVarCopy D S =
    D\<lparr>v_section := (if v_section S \<noteq> 0 then v_section S else v_section D),
      v_maxlen := (if v_maxlen S \<noteq> 0 then v_maxlen S else v_maxlen D),
      v_strict := v_strict S,
      v_single := (if v_single D = 0 then v_single S else v_single D),
      v_curlen := v_curlen S, v_name := v_name S,
      v_val := copy_val S (v_val S), v_txt_val := copy_val S (v_txt_val S)\<rparr>"

definition DpsVarCopyNamed :: "dps_var \<Rightarrow> dps_var \<Rightarrow> string option \<Rightarrow> dps_var" where
  "DpsVarCopyNamed D S name =
    (DpsVarCopy D S)\<lparr>v_name :=
       (case name of Some p \<Rightarrow> map_option (\<lambda>n. p @ ''.'' @ n) (v_name S) | None \<Rightarrow> v_name S)\<rparr>"

text \<open>The array a name belongs to. A variable without a name is never stored.\<close>

definition var_bucket :: "string \<Rightarrow> nat" where
  "var_bucket name = ord (dps_tolower (char_at name 0))"

definition name_of :: "dps_var \<Rightarrow> string" where
  "name_of v = (case v_name v of None \<Rightarrow> [] | Some n \<Rightarrow> n)"

section \<open>Operations\<close>

definition append_var :: "varlist \<Rightarrow> nat \<Rightarrow> dps_var \<Rightarrow> varlist" where
  "append_var L r v =
    (let Var = L r @ [v] in L(r := if length Var > 1 then DpsVarSortForLast varcmp Var else Var))"

definition DpsVarListAdd :: "varlist \<Rightarrow> dps_var \<Rightarrow> varlist" where
  "DpsVarListAdd Lst S = append_var Lst (var_bucket (name_of S)) (DpsVarCopy zero_var S)"

definition DpsVarListAddNamed :: "varlist \<Rightarrow> dps_var \<Rightarrow> string option \<Rightarrow> varlist" where
  "DpsVarListAddNamed Lst S name = DpsVarListAdd Lst (DpsVarCopyNamed zero_var S name)"

text \<open>The position in the array of the name.\<close>

definition DpsVarListFind :: "varlist \<Rightarrow> string \<Rightarrow> nat option" where
  "DpsVarListFind vars name =
    (let r = var_bucket name in
     if vars r = [] then None else dps_bsearch varcmp (zero_var\<lparr>v_name := Some name\<rparr>) (vars r))"

lemma bsearch_loop_bound: "bsearch_loop cmp key xs base lim = Some p \<Longrightarrow> p < base + lim"
proof (induction cmp key xs base lim rule: bsearch_loop.induct)
  case (1 cmp key xs base lim)
  then show ?case
    by (subst (asm) (3) bsearch_loop.simps) (fastforce simp: Let_def split: if_splits)
qed

lemma bsearch_bound: "dps_bsearch cmp key xs = Some p \<Longrightarrow> p < length xs"
  using bsearch_loop_bound [of cmp key xs 0 "length xs" p] by (auto simp: dps_bsearch_def split: if_splits)

function DpsVarListDel :: "varlist \<Rightarrow> string \<Rightarrow> varlist" where
  "DpsVarListDel vars name =
    (case DpsVarListFind vars name of
       None \<Rightarrow> vars
     | Some i \<Rightarrow>
         (let r = var_bucket name
          in DpsVarListDel (vars(r := take i (vars r) @ drop (i + 1) (vars r))) name))"
  by pat_completeness auto
termination
  by (relation "measure (\<lambda>(vars, name). length (vars (var_bucket name)))")
     (auto simp: DpsVarListFind_def Let_def dest!: bsearch_bound split: if_splits)

declare DpsVarListDel.simps [simp del]

definition update_var :: "varlist \<Rightarrow> string \<Rightarrow> nat \<Rightarrow> (dps_var \<Rightarrow> dps_var) \<Rightarrow> varlist" where
  "update_var vars name i f =
    (let r = var_bucket name in vars(r := (vars r)[i := f (vars r ! i)]))"

text \<open>\<^verbatim>\<open>DpsVarFree\<close> before the copy: the strings go, the other fields stay.\<close>

definition DpsVarFree :: "dps_var \<Rightarrow> dps_var" where
  "DpsVarFree S = S\<lparr>v_name := None, v_val := None, v_txt_val := None\<rparr>"

definition DpsVarListReplace :: "varlist \<Rightarrow> dps_var \<Rightarrow> varlist" where
  "DpsVarListReplace Lst S =
    (case DpsVarListFind Lst (name_of S) of
       None \<Rightarrow> DpsVarListAdd Lst S
     | Some i \<Rightarrow> update_var Lst (name_of S) i (\<lambda>v. DpsVarCopy (DpsVarFree v) S))"

definition DpsVarListReplaceNamed :: "varlist \<Rightarrow> dps_var \<Rightarrow> string option \<Rightarrow> varlist" where
  "DpsVarListReplaceNamed Lst S name =
    (case DpsVarListFind Lst (name_of S) of
       Some i \<Rightarrow> update_var Lst (name_of S) i (\<lambda>v. DpsVarCopyNamed (DpsVarFree v) S name)
     | None \<Rightarrow> DpsVarListAddNamed Lst S name)"

definition DpsVarListInsNamed :: "varlist \<Rightarrow> dps_var \<Rightarrow> string option \<Rightarrow> varlist" where
  "DpsVarListInsNamed Lst S name =
    (case DpsVarListFind Lst (name_of S) of None \<Rightarrow> DpsVarListAddNamed Lst S name | Some _ \<Rightarrow> Lst)"

definition found_var :: "varlist \<Rightarrow> string \<Rightarrow> dps_var option" where
  "found_var vars name = map_option (\<lambda>i. vars (var_bucket name) ! i) (DpsVarListFind vars name)"

definition DpsVarListFindStrTxt :: "varlist \<Rightarrow> string \<Rightarrow> string option \<Rightarrow> string option" where
  "DpsVarListFindStrTxt vars name defval =
    (case found_var vars name of
       Some var \<Rightarrow>
         (case v_txt_val var of
            Some s \<Rightarrow> Some s
          | None \<Rightarrow> (case v_val var of Some s \<Rightarrow> Some s | None \<Rightarrow> defval))
     | None \<Rightarrow> defval)"

definition DpsVarListFindStr :: "varlist \<Rightarrow> string \<Rightarrow> string option \<Rightarrow> string option" where
  "DpsVarListFindStr vars name defval =
    (case found_var vars name of
       Some var \<Rightarrow> (case v_val var of Some s \<Rightarrow> Some s | None \<Rightarrow> defval)
     | None \<Rightarrow> defval)"

definition DpsVarListInit :: varlist where "DpsVarListInit = (\<lambda>r. [])"

definition DpsVarListAddStr :: "varlist \<Rightarrow> string \<Rightarrow> string option \<Rightarrow> varlist" where
  "DpsVarListAddStr vars name val =
    append_var vars (var_bucket name)
      (zero_var\<lparr>v_curlen := (case val of None \<Rightarrow> 0 | Some s \<Rightarrow> length s), v_name := Some name,
         v_val := val, v_txt_val := val\<rparr>)"

definition DpsVarListInsStr :: "varlist \<Rightarrow> string \<Rightarrow> string option \<Rightarrow> varlist" where
  "DpsVarListInsStr vars name val =
    (if DpsVarListFind vars name \<noteq> None then vars else DpsVarListAddStr vars name val)"

text \<open>
  A value replaced in a variable with a maximal length is cut to that length or the length noted
  before, but its whole length is noted.
\<close>

definition replace_val :: "string option \<Rightarrow> dps_var \<Rightarrow> dps_var" where
  "replace_val val var =
    (let v = (if v_maxlen var = 0 then val
              else map_option (take (max (v_maxlen var) (v_curlen var))) val)
     in var\<lparr>v_val := v, v_txt_val := v, v_curlen := (case val of None \<Rightarrow> 0 | Some s \<Rightarrow> length s)\<rparr>)"

definition DpsVarListReplaceStr :: "varlist \<Rightarrow> string \<Rightarrow> string option \<Rightarrow> varlist" where
  "DpsVarListReplaceStr vars name val =
    (case DpsVarListFind vars name of
       Some i \<Rightarrow> update_var vars name i (replace_val val)
     | None \<Rightarrow> DpsVarListAddStr vars name val)"

section \<open>Numbers\<close>

text \<open>\<^verbatim>\<open>%d\<close> and \<^verbatim>\<open>%u\<close>, and \<^verbatim>\<open>DPS_ATOI\<close>: \<^verbatim>\<open>strtol\<close> with base 0 cut to 32 bits.\<close>

fun nat_digits :: "nat \<Rightarrow> string" where
  "nat_digits n = (if n < 10 then [chr (48 + n)] else nat_digits (n div 10) @ [chr (48 + n mod 10)])"

declare nat_digits.simps [simp del]

definition c_itoa :: "int \<Rightarrow> string" where
  "c_itoa i = (if i < 0 then CHR ''-'' # nat_digits (nat (- i)) else nat_digits (nat i))"

definition base_digit :: "char \<Rightarrow> nat option" where
  "base_digit c =
    (if c_isdigit c then Some (ord c - 48)
     else if 97 \<le> ord c \<and> ord c \<le> 102 then Some (ord c - 87)
     else if 65 \<le> ord c \<and> ord c \<le> 70 then Some (ord c - 55) else None)"

fun base_number :: "nat \<Rightarrow> int \<Rightarrow> string \<Rightarrow> int" where
  "base_number b acc [] = acc"
| "base_number b acc (c # s) =
     (case base_digit c of
        Some d \<Rightarrow> if d < b then base_number b (acc * int b + int d) s else acc
      | None \<Rightarrow> acc)"

definition c_number :: "string \<Rightarrow> int" where
  "c_number u =
    (if char_at u 0 = CHR ''0'' \<and> (char_at u 1 = CHR ''x'' \<or> char_at u 1 = CHR ''X'') \<and> base_digit (char_at u 2) \<noteq> None
     then base_number 16 0 (drop 2 u)
     else if char_at u 0 = CHR ''0'' then base_number 8 0 u
     else base_number 10 0 u)"

definition c_strtol0 :: "string \<Rightarrow> int" where
  "c_strtol0 s =
    (let t = dropWhile c_isspace s;
         u = (if char_at t 0 = CHR ''-'' \<or> char_at t 0 = CHR ''+'' then tl t else t)
     in max (- (2 ^ 63)) (min (2 ^ 63 - 1) (if char_at t 0 = CHR ''-'' then - c_number u else c_number u)))"

definition DPS_ATOI :: "string \<Rightarrow> int" where
  "DPS_ATOI x = sint (word_of_int (c_strtol0 x) :: 32 word)"

text \<open>The integer operations; \<open>val\<close> is in the range of its C type.\<close>

definition DpsVarListAddInt :: "varlist \<Rightarrow> string \<Rightarrow> int \<Rightarrow> varlist" where
  "DpsVarListAddInt vars name val = DpsVarListAddStr vars name (Some (c_itoa val))"

definition DpsVarListAddUnsigned :: "varlist \<Rightarrow> string \<Rightarrow> u32 \<Rightarrow> varlist" where
  "DpsVarListAddUnsigned vars name val = DpsVarListAddStr vars name (Some (nat_digits (unat val)))"

definition DpsVarListInsInt :: "varlist \<Rightarrow> string \<Rightarrow> int \<Rightarrow> varlist" where
  "DpsVarListInsInt vars name val =
    (if DpsVarListFind vars name \<noteq> None then vars else DpsVarListAddInt vars name val)"

definition DpsVarListReplaceInt :: "varlist \<Rightarrow> string \<Rightarrow> int \<Rightarrow> varlist" where
  "DpsVarListReplaceInt vars name val =
    (if DpsVarListFind vars name \<noteq> None then DpsVarListReplaceStr vars name (Some (c_itoa val))
     else DpsVarListAddInt vars name val)"

definition DpsVarListReplaceUnsigned :: "varlist \<Rightarrow> string \<Rightarrow> u32 \<Rightarrow> varlist" where
  "DpsVarListReplaceUnsigned vars name val =
    (if DpsVarListFind vars name \<noteq> None then DpsVarListReplaceStr vars name (Some (nat_digits (unat val)))
     else DpsVarListAddUnsigned vars name val)"

definition DpsVarListFindInt :: "varlist \<Rightarrow> string \<Rightarrow> int \<Rightarrow> int" where
  "DpsVarListFindInt vars name defval =
    (case found_var vars name of
       Some var \<Rightarrow> (case v_val var of None \<Rightarrow> defval | Some s \<Rightarrow> DPS_ATOI s)
     | None \<Rightarrow> defval)"

text \<open>
  The first variable with the name and the value, both up to case. A variable without a value makes
  \<^verbatim>\<open>strcasecmp\<close> read at NULL: \<open>Inl\<close> then.
\<close>

fun find_with_value :: "string \<Rightarrow> string \<Rightarrow> dps_var list \<Rightarrow> unit + dps_var option" where
  "find_with_value name val [] = Inr None"
| "find_with_value name val (v # vs) =
     (if c_strcaseeq name (name_of v) then
        (case v_val v of
           None \<Rightarrow> Inl ()
         | Some s \<Rightarrow> if c_strcaseeq val s then Inr (Some v) else find_with_value name val vs)
      else find_with_value name val vs)"

definition DpsVarListFindWithValue :: "varlist \<Rightarrow> string \<Rightarrow> string \<Rightarrow> unit + dps_var option" where
  "DpsVarListFindWithValue vars name val = find_with_value name val (vars (var_bucket name))"

section \<open>Operations on whole lists\<close>

text \<open>The variables of \<open>S\<close> that a loop over it visits, in order.\<close>

definition lst_vars :: "varlist \<Rightarrow> string option \<Rightarrow> string \<Rightarrow> dps_var list" where
  "lst_vars S name msk =
    (let buckets = (case name of Some n \<Rightarrow> [var_bucket n] | None \<Rightarrow> [0..<256])
     in filter (\<lambda>v. DpsWildCaseCmp (name_of v) msk = 0) (concat (map S buckets)))"

definition DpsVarListReplaceLst :: "varlist \<Rightarrow> varlist \<Rightarrow> string option \<Rightarrow> string \<Rightarrow> varlist" where
  "DpsVarListReplaceLst D S name msk =
    fold (\<lambda>v D. DpsVarListReplaceNamed D v name) (lst_vars S name msk) D"

definition DpsVarListAddLst :: "varlist \<Rightarrow> varlist \<Rightarrow> string option \<Rightarrow> string \<Rightarrow> varlist" where
  "DpsVarListAddLst D S name msk =
    fold (\<lambda>v D. DpsVarListAddNamed D v name) (lst_vars S name msk) D"

definition DpsVarListInsLst :: "varlist \<Rightarrow> varlist \<Rightarrow> string option \<Rightarrow> string \<Rightarrow> varlist" where
  "DpsVarListInsLst D S name msk =
    fold (\<lambda>v D. DpsVarListInsNamed D v name) (lst_vars S name msk) D"

definition DpsVarListDelLst :: "varlist \<Rightarrow> varlist \<Rightarrow> string option \<Rightarrow> string \<Rightarrow> varlist" where
  "DpsVarListDelLst D S name msk =
    fold (\<lambda>v D. DpsVarListDel D (name_of v)) (lst_vars S name msk) D"

section \<open>Sorted arrays\<close>

interpretation vars: key_order varcmp
proof
  fix a b c
  show "varcmp a b < 0 \<longleftrightarrow> 0 < varcmp b a"
    using names.cmp_flip by (simp add: varcmp_def split: option.splits)
  show "varcmp a b \<le> 0 \<Longrightarrow> varcmp b c \<le> 0 \<Longrightarrow> varcmp a c \<le> 0"
    using names.cmp_trans by (fastforce simp: varcmp_def split: option.splits)
qed

text \<open>Every array is sorted and holds the variables that belong to it.\<close>

definition vars_ok :: "varlist \<Rightarrow> bool" where
  "vars_ok L \<longleftrightarrow>
    (\<forall>r. cmp_sorted varcmp (L r) \<and> (\<forall>v \<in> set (L r). v_name v \<noteq> None \<and> var_bucket (name_of v) = r))"

definition var_named :: "string \<Rightarrow> dps_var \<Rightarrow> bool" where
  "var_named name v \<longleftrightarrow> v_name v \<noteq> None \<and> map c_tolower (name_of v) = map c_tolower name"

lemma varcmp_0: "v_name v \<noteq> None \<Longrightarrow> varcmp (zero_var\<lparr>v_name := Some name\<rparr>) v = 0 \<longleftrightarrow> var_named name v"
  by (auto simp: varcmp_def var_named_def name_of_def zero_var_def strcasecmp_0_iff split: option.splits)

lemma dps_tolower_c: "dps_tolower c = c_tolower c"
  using ord_dps_tolower [of c] ord_inject [of "dps_tolower c" "c_tolower c"]
  by (auto simp: c_tolower_def c_isupper_def)

lemma bucket_cong: "map c_tolower a = map c_tolower b \<Longrightarrow> var_bucket a = var_bucket b"
  by (cases a; cases b) (auto simp: var_bucket_def dps_tolower_c char_at_def)

lemma find_ok:
  assumes "vars_ok L"
  shows "case DpsVarListFind L name of
      Some i \<Rightarrow> i < length (L (var_bucket name)) \<and> var_named name (L (var_bucket name) ! i)
    | None \<Rightarrow> \<forall>v \<in> set (L (var_bucket name)). \<not> var_named name v"
proof -
  have "cmp_sorted varcmp (L (var_bucket name))" "\<forall>v \<in> set (L (var_bucket name)). v_name v \<noteq> None"
    using assms by (simp_all add: vars_ok_def)
  with vars.bsearch_correct [of "L (var_bucket name)" "zero_var\<lparr>v_name := Some name\<rparr>"] show ?thesis
    by (auto simp: DpsVarListFind_def Let_def varcmp_0 split: option.splits)
qed

lemma append_var_other: "q \<noteq> r \<Longrightarrow> append_var L r v q = L q"
  by (simp add: append_var_def Let_def)

lemma append_var_ok:
  assumes "vars_ok L" "v_name v \<noteq> None" "r = var_bucket (name_of v)"
  shows "vars_ok (append_var L r v) \<and> mset (append_var L r v r) = add_mset v (mset (L r)) \<and>
    (\<forall>q. q \<noteq> r \<longrightarrow> append_var L r v q = L q)"
proof -
  have s: "cmp_sorted varcmp (append_var L r v r) \<and> mset (append_var L r v r) = mset (L r @ [v])"
    using vars.sort_for_last_correct [of "L r @ [v]"] assms(1)
    by (auto simp: append_var_def vars_ok_def Let_def cmp_sorted_def)
  then have st: "set (append_var L r v r) = insert v (set (L r))"
    using mset_eq_setD [of "append_var L r v r" "L r @ [v]"] by simp
  have "cmp_sorted varcmp (append_var L r v q) \<and>
      (\<forall>v \<in> set (append_var L r v q). v_name v \<noteq> None \<and> var_bucket (name_of v) = q)" for q
  proof (cases "q = r")
    case True
    then show ?thesis using s st assms by (auto simp: vars_ok_def)
  next
    case False
    then show ?thesis using assms(1) by (simp add: append_var_other vars_ok_def)
  qed
  then have "vars_ok (append_var L r v)" unfolding vars_ok_def by blast
  with s show ?thesis by (simp add: append_var_other)
qed

lemma append_var_set:
  assumes "vars_ok L" "v_name v \<noteq> None" "r = var_bucket (name_of v)"
  shows "set (append_var L r v q) = (if q = r then insert v (set (L q)) else set (L q))"
  using append_var_ok [OF assms] mset_eq_setD [of "append_var L r v r" "L r @ [v]"] by auto

lemma DpsVarCopy_name [simp]:
  "v_name (DpsVarCopy D S) = v_name S" "name_of (DpsVarCopy D S) = name_of S"
  by (simp_all add: DpsVarCopy_def name_of_def)

text \<open>The comparison sees the names only.\<close>

lemma varcmp_name: "v_name a = v_name a' \<Longrightarrow> v_name b = v_name b' \<Longrightarrow> varcmp a b = varcmp a' b'"
  by (auto simp: varcmp_def split: option.splits)

lemma sorted_names: "map v_name xs = map v_name ys \<Longrightarrow> cmp_sorted varcmp xs = cmp_sorted varcmp ys"
proof -
  assume m: "map v_name xs = map v_name ys"
  then have l: "length xs = length ys" by (metis length_map)
  have "v_name (xs ! i) = v_name (ys ! i)" if "i < length xs" for i
    using m l that by (metis nth_map)
  then have "varcmp (xs ! i) (xs ! j) = varcmp (ys ! i) (ys ! j)" if "i < j" "j < length xs" for i j
    using that by (intro varcmp_name) simp_all
  with l show ?thesis by (auto simp: cmp_sorted_def sorted_wrt_iff_nth_less)
qed

lemma update_var_ok:
  assumes "vars_ok L" "\<And>v. v_name (f v) = v_name v" "i < length (L (var_bucket name))"
  shows "vars_ok (update_var L name i f)"
proof -
  let ?r = "var_bucket name"
  have "map v_name ((L ?r)[i := f (L ?r ! i)]) = map v_name (L ?r)"
    using assms(2,3) by (simp add: map_update) (metis list_update_id nth_map)
  then have "cmp_sorted varcmp ((L ?r)[i := f (L ?r ! i)])"
    using sorted_names assms(1) unfolding vars_ok_def by blast
  moreover have "v_name v \<noteq> None \<and> var_bucket (name_of v) = ?r" if "v \<in> set ((L ?r)[i := f (L ?r ! i)])" for v
  proof -
    have "v = f (L ?r ! i) \<or> v \<in> set (L ?r)" using that set_update_subset_insert by fastforce
    moreover have "L ?r ! i \<in> set (L ?r)" using assms(3) by simp
    ultimately show ?thesis using assms(1,2) by (auto simp: vars_ok_def name_of_def)
  qed
  ultimately show ?thesis using assms(1) by (auto simp: vars_ok_def update_var_def Let_def)
qed

text \<open>Deletion filters the array of the name.\<close>

lemma DpsVarListDel_filter:
  "vars_ok L \<Longrightarrow>
   DpsVarListDel L name = L(var_bucket name := filter (\<lambda>v. \<not> var_named name v) (L (var_bucket name)))"
proof (induction L name rule: DpsVarListDel.induct)
  case (1 L name)
  let ?r = "var_bucket name"
  note f = find_ok [OF "1.prems", of name]
  show ?case
  proof (cases "DpsVarListFind L name")
    case None
    then have "filter (\<lambda>v. \<not> var_named name v) (L ?r) = L ?r" using f by (simp add: filter_id_conv)
    with None show ?thesis by (subst DpsVarListDel.simps) simp
  next
    case (Some i)
    let ?L = "L(?r := take i (L ?r) @ drop (i + 1) (L ?r))"
    have i: "i < length (L ?r)" "var_named name (L ?r ! i)" using f Some by auto
    have split: "L ?r = take i (L ?r) @ L ?r ! i # drop (i + 1) (L ?r)" using i by (simp add: Cons_nth_drop_Suc)
    have "vars_ok ?L"
    proof -
      have "cmp_sorted varcmp (L ?r)" using "1.prems" by (simp add: vars_ok_def)
      then have "cmp_sorted varcmp (take i (L ?r) @ drop (i + 1) (L ?r))"
        unfolding cmp_sorted_def by (subst (asm) split) (simp add: sorted_wrt_append)
      moreover have "set (take i (L ?r) @ drop (i + 1) (L ?r)) \<subseteq> set (L ?r)"
        using set_take_subset set_drop_subset by fastforce
      ultimately show ?thesis using "1.prems" by (auto simp: vars_ok_def)
    qed
    then have "DpsVarListDel ?L name = ?L(?r := filter (\<lambda>v. \<not> var_named name v) (?L ?r))"
      by (rule "1.IH" [OF Some refl])
    moreover have "filter (\<lambda>v. \<not> var_named name v) (?L ?r) = filter (\<lambda>v. \<not> var_named name v) (L ?r)"
      by (subst (3) split) (use i in simp)
    moreover have "DpsVarListDel L name = DpsVarListDel ?L name"
      by (subst DpsVarListDel.simps) (simp only: Some option.case Let_def)
    ultimately show ?thesis by (simp only: fun_upd_upd)
  qed
qed

section \<open>Lists with one variable for a name\<close>

definition vars_store :: "varlist \<Rightarrow> bool" where
  "vars_store L \<longleftrightarrow> vars_ok L \<and>
    (\<forall>r. distinct (map (\<lambda>v. map c_tolower (name_of v)) (L r)) \<and> (\<forall>v \<in> set (L r). v_maxlen v = 0))"

lemma found_iff:
  assumes "vars_store L"
  shows "found_var L name = Some v \<longleftrightarrow> v \<in> set (L (var_bucket name)) \<and> var_named name v"
proof -
  let ?xs = "L (var_bucket name)"
  have f: "case DpsVarListFind L name of Some i \<Rightarrow> i < length ?xs \<and> var_named name (?xs ! i)
      | None \<Rightarrow> \<forall>v \<in> set ?xs. \<not> var_named name v"
    using find_ok assms by (simp add: vars_store_def)
  have "inj_on (\<lambda>v. map c_tolower (name_of v)) (set ?xs)"
    using assms by (simp add: vars_store_def distinct_map)
  then have "a = b" if "a \<in> set ?xs" "b \<in> set ?xs" "var_named name a" "var_named name b" for a b
    using that by (auto simp: inj_on_def var_named_def)
  with f show ?thesis by (auto simp: found_var_def split: option.splits)
qed

lemma found_None:
  "vars_store L \<Longrightarrow> found_var L name = None \<longleftrightarrow> (\<forall>v \<in> set (L (var_bucket name)). \<not> var_named name v)"
  using found_iff [of L name] by (metis not_None_eq)

text \<open>Two lists with the same variables, up to order, for a name.\<close>

lemma found_cong:
  assumes "vars_store L" "vars_store M"
    and "\<And>v. var_named name v \<Longrightarrow> v \<in> set (L (var_bucket name)) \<longleftrightarrow> v \<in> set (M (var_bucket name))"
  shows "found_var L name = found_var M name"
proof (cases "found_var L name")
  case None
  then have "found_var M name = None" using assms by (auto simp: found_None)
  with None show ?thesis by simp
next
  case (Some v)
  then have "found_var M name = Some v" using assms by (auto simp: found_iff)
  with Some show ?thesis by simp
qed

lemma append_var_store:
  assumes "vars_store L" "v_name v = Some name" "v_maxlen v = 0" "found_var L name = None"
  shows "vars_store (append_var L (var_bucket name) v) \<and> found_var (append_var L (var_bucket name) v) name = Some v"
proof -
  let ?r = "var_bucket name" and ?f = "\<lambda>v. map c_tolower (name_of v)"
  have n: "name_of v = name" "v_name v \<noteq> None" "?r = var_bucket (name_of v)" using assms(2) by (simp_all add: name_of_def)
  have ok: "vars_ok L" using assms(1) by (simp add: vars_store_def)
  note ap = append_var_ok [OF ok n(2,3)] and st = append_var_set [OF ok n(2,3)]
  have "distinct (map ?f (append_var L ?r v q))" for q
  proof (cases "q = ?r")
    case True
    have "mset (map ?f (append_var L ?r v q)) = mset (map ?f (v # L q))"
      using ap True by simp
    then have "distinct (map ?f (append_var L ?r v q)) = distinct (map ?f (v # L q))"
      by (rule mset_eq_imp_distinct_iff)
    moreover have "?f v \<notin> ?f ` set (L q)"
    proof
      assume "?f v \<in> ?f ` set (L q)"
      then obtain w where "w \<in> set (L q)" "?f w = ?f v" by auto
      moreover from this have "v_name w \<noteq> None" using ok by (auto simp: vars_ok_def)
      ultimately have "var_named name w" using n(1) by (simp add: var_named_def)
      with \<open>w \<in> set (L q)\<close> show False using assms(4) True unfolding found_None [OF assms(1)] by blast
    qed
    ultimately show ?thesis using assms(1) by (simp add: vars_store_def)
  qed (use ap assms(1) in \<open>simp add: vars_store_def\<close>)
  moreover have "v_maxlen w = 0" if "w \<in> set (append_var L ?r v q)" for w q
  proof -
    have "w = v \<or> w \<in> set (L q)" using that st [of q] by (simp split: if_splits)
    moreover have "\<forall>w \<in> set (L q). v_maxlen w = 0" using assms(1) by (simp add: vars_store_def)
    ultimately show ?thesis using assms(3) by blast
  qed
  ultimately have "vars_store (append_var L ?r v)"
    unfolding vars_store_def using conjunct1 [OF ap] by simp
  moreover have "v \<in> set (append_var L ?r v ?r)" "var_named name v"
    using st n(1,2) by (simp_all add: var_named_def)
  ultimately show ?thesis by (simp add: found_iff)
qed

lemma update_var_store:
  assumes "vars_store L" "\<And>v. v_name (f v) = v_name v" "\<And>v. v_maxlen (f v) = v_maxlen v"
    and "DpsVarListFind L name = Some i"
  shows "vars_store (update_var L name i f) \<and> found_var (update_var L name i f) name = map_option f (found_var L name)"
proof -
  let ?r = "var_bucket name" and ?f = "\<lambda>v. map c_tolower (name_of v)"
  have i: "i < length (L ?r)" "var_named name (L ?r ! i)"
    using find_ok [of L name] assms(1,4) by (auto simp: vars_store_def)
  have nm: "name_of (f v) = name_of v" for v using assms(2) by (simp add: name_of_def)
  have "map ?f ((L ?r)[i := f (L ?r ! i)]) = map ?f (L ?r)"
    using nm i(1) by (simp add: map_update) (metis list_update_id nth_map)
  moreover have "v_maxlen v = 0" if "v \<in> set ((L ?r)[i := f (L ?r ! i)])" for v
  proof -
    have "v = f (L ?r ! i) \<or> v \<in> set (L ?r)" using that set_update_subset_insert by fastforce
    moreover have "L ?r ! i \<in> set (L ?r)" using i by simp
    ultimately show ?thesis using assms(1,3) by (auto simp: vars_store_def)
  qed
  ultimately have st: "vars_store (update_var L name i f)"
    using assms(1) update_var_ok [of L f i name] assms(2) i(1)
    by (auto simp: vars_store_def update_var_def Let_def)
  have "var_named name (f (L ?r ! i))" using i(2) assms(2) nm by (simp add: var_named_def)
  moreover have "f (L ?r ! i) \<in> set (update_var L name i f ?r)"
    using i(1) by (simp add: update_var_def Let_def set_update_memI)
  ultimately have "found_var (update_var L name i f) name = Some (f (L ?r ! i))" by (simp add: found_iff st)
  moreover have "found_var L name = Some (L ?r ! i)" using assms(4) by (simp add: found_var_def)
  ultimately show ?thesis using st by simp
qed

text \<open>Writing a value: the one variable of the name has it, the others stay.\<close>

lemma found_other:
  assumes "vars_store L" "vars_store M" "map c_tolower n \<noteq> map c_tolower name"
    and "\<And>q. q \<noteq> var_bucket name \<Longrightarrow> M q = L q"
    and "\<And>v. \<not> var_named name v \<Longrightarrow> v \<in> set (M (var_bucket name)) \<longleftrightarrow> v \<in> set (L (var_bucket name))"
  shows "found_var M n = found_var L n"
proof (rule found_cong [OF assms(2,1)])
  fix v assume "var_named n v"
  then have "\<not> var_named name v" using assms(3) by (auto simp: var_named_def)
  then show "v \<in> set (M (var_bucket n)) \<longleftrightarrow> v \<in> set (L (var_bucket n))"
    using assms(4,5) by (cases "var_bucket n = var_bucket name") simp_all
qed

definition str_var :: "string \<Rightarrow> string option \<Rightarrow> dps_var" where
  "str_var name val =
    zero_var\<lparr>v_curlen := (case val of None \<Rightarrow> 0 | Some s \<Rightarrow> length s), v_name := Some name,
      v_val := val, v_txt_val := val\<rparr>"

lemma AddStr_store:
  assumes "vars_store L" "found_var L name = None"
  shows "vars_store (DpsVarListAddStr L name val) \<and>
    found_var (DpsVarListAddStr L name val) name = Some (str_var name val) \<and>
    (\<forall>n. map c_tolower n \<noteq> map c_tolower name \<longrightarrow> found_var (DpsVarListAddStr L name val) n = found_var L n)"
proof -
  let ?v = "str_var name val" and ?r = "var_bucket name"
  have v: "v_name ?v = Some name" "v_maxlen ?v = 0" "v_name ?v \<noteq> None" "?r = var_bucket (name_of ?v)" "var_named name ?v"
    by (simp_all add: str_var_def zero_var_def name_of_def var_named_def)
  have eq: "DpsVarListAddStr L name val = append_var L ?r ?v" by (simp add: DpsVarListAddStr_def str_var_def)
  have ok: "vars_ok L" using assms(1) by (simp add: vars_store_def)
  have st: "vars_store (append_var L ?r ?v)" "found_var (append_var L ?r ?v) name = Some ?v"
    using append_var_store [OF assms(1) v(1,2) assms(2)] by simp_all
  have "found_var (append_var L ?r ?v) n = found_var L n" if "map c_tolower n \<noteq> map c_tolower name" for n
    by (rule found_other [OF assms(1) st(1) that])
       (use append_var_other append_var_set [OF ok v(3,4)] v(5) in auto)
  with st eq show ?thesis by simp
qed

lemma update_store:
  assumes "vars_store L" "\<And>v. v_name (f v) = v_name v" "\<And>v. v_maxlen (f v) = v_maxlen v"
    and "DpsVarListFind L name = Some i" "map c_tolower n \<noteq> map c_tolower name"
  shows "found_var (update_var L name i f) n = found_var L n"
proof (rule found_other [OF assms(1) conjunct1 [OF update_var_store [OF assms(1-4)]] assms(5)])
  let ?r = "var_bucket name"
  show "update_var L name i f q = L q" if "q \<noteq> ?r" for q using that by (simp add: update_var_def Let_def)
  fix v assume nv: "\<not> var_named name v"
  have i: "i < length (L ?r)" "var_named name (L ?r ! i)"
    using find_ok [of L name] assms(1,4) by (auto simp: vars_store_def)
  then have "var_named name (f (L ?r ! i))" using assms(2) by (auto simp: var_named_def name_of_def)
  then have "v \<noteq> f (L ?r ! i)" "v \<noteq> L ?r ! i" using nv i by auto
  then show "v \<in> set (update_var L name i f ?r) \<longleftrightarrow> v \<in> set (L ?r)"
    using i(1) by (auto simp: update_var_def Let_def in_set_conv_nth nth_list_update)
qed

lemma ReplaceStr_store:
  assumes "vars_store L"
  shows "vars_store (DpsVarListReplaceStr L name val) \<and>
    (\<exists>v. found_var (DpsVarListReplaceStr L name val) name = Some v \<and> v_val v = val) \<and>
    (\<forall>n. map c_tolower n \<noteq> map c_tolower name \<longrightarrow> found_var (DpsVarListReplaceStr L name val) n = found_var L n)"
proof (cases "DpsVarListFind L name")
  case None
  then have "found_var L name = None" by (simp add: found_var_def)
  from AddStr_store [OF assms this, of val] None show ?thesis
    by (simp add: DpsVarListReplaceStr_def str_var_def)
next
  case (Some i)
  have f: "\<And>v. v_name (replace_val val v) = v_name v" "\<And>v. v_maxlen (replace_val val v) = v_maxlen v"
    by (simp_all add: replace_val_def Let_def)
  obtain v where v: "found_var L name = Some v" using Some by (simp add: found_var_def)
  then have "v_maxlen v = 0" using assms by (auto simp: found_iff vars_store_def)
  then have "v_val (replace_val val v) = val" by (simp add: replace_val_def Let_def)
  with update_var_store [OF assms f Some] update_store [OF assms f Some] v Some show ?thesis
    by (simp add: DpsVarListReplaceStr_def)
qed

lemma Del_store:
  assumes "vars_store L"
  shows "vars_store (DpsVarListDel L name) \<and>
    found_var (DpsVarListDel L name) n = (if map c_tolower n = map c_tolower name then None else found_var L n)"
proof -
  let ?r = "var_bucket name" and ?f = "\<lambda>v. map c_tolower (name_of v)"
  let ?M = "L(?r := filter (\<lambda>v. \<not> var_named name v) (L ?r))"
  have ok: "vars_ok L" using assms by (simp add: vars_store_def)
  then have eq: "DpsVarListDel L name = ?M" by (rule DpsVarListDel_filter)
  have "vars_ok ?M" using ok by (auto simp: vars_ok_def cmp_sorted_def sorted_wrt_filter)
  moreover have "distinct (map ?f (?M q)) \<and> (\<forall>v \<in> set (?M q). v_maxlen v = 0)" for q
    using assms by (auto simp: vars_store_def distinct_map_filter)
  ultimately have st: "vars_store ?M" unfolding vars_store_def by blast
  show ?thesis
  proof (cases "map c_tolower n = map c_tolower name")
    case True
    then have "found_var ?M n = None"
      using bucket_cong [OF True] unfolding found_None [OF st] by (auto simp: var_named_def)
    with True st show ?thesis by (simp add: eq)
  next
    case False
    have "found_var ?M n = found_var L n" by (rule found_other [OF assms st False]) auto
    with False st show ?thesis by (simp add: eq)
  qed
qed

lemma found_same_name:
  assumes "vars_store L" "map c_tolower a = map c_tolower b"
  shows "found_var L a = found_var L b"
  using assms found_iff [of L a] found_iff [of L b] bucket_cong [OF assms(2)]
  by (metis (full_types) option.exhaust_sel var_named_def)

text \<open>
  The map a list stands for, by the lower-cased name, and the contract of the stores.
\<close>

definition var_map :: "varlist \<Rightarrow> string \<Rightarrow> string option" where
  "var_map L k = (if map c_tolower k = k then DpsVarListFindStr L k None else None)"

lemma c_tolower_idem [simp]: "c_tolower (c_tolower c) = c_tolower c"
  by (auto simp: c_tolower_def c_isupper_def)

lemma lower_idem: "map c_tolower (map c_tolower s) = map c_tolower s"
  by simp

lemma DpsVarListFindStr_default:
  "DpsVarListFindStr L name defval =
     (case DpsVarListFindStr L name None of Some s \<Rightarrow> Some s | None \<Rightarrow> defval)"
  by (simp add: DpsVarListFindStr_def split: option.split)

interpretation var_store: deletable_store vars_store var_map "\<lambda>k. True" "map c_tolower" "\<lambda>s. s" "\<lambda>s. s"
  "\<lambda>L k s. Some (DpsVarListReplaceStr L k (Some s))" "\<lambda>L k. Some (L, DpsVarListFindStr L k None)"
  "\<lambda>L k. Some (DpsVarListDel L k)" "\<lambda>L k. True"
proof
  fix L :: varlist and k b
  assume ok: "vars_store L"
  have same: "found_var L' (map c_tolower n) = found_var L' n" if "vars_store L'" for L' n
    by (rule found_same_name [OF that]) simp
  show "\<exists>L'. Some (DpsVarListReplaceStr L k (Some b)) = Some L' \<and> vars_store L' \<and>
      var_map L' = (var_map L)(map c_tolower k \<mapsto> b)"
  proof -
    note r = ReplaceStr_store [OF ok, of k "Some b"]
    let ?L' = "DpsVarListReplaceStr L k (Some b)"
    obtain v where v: "found_var ?L' k = Some v" "v_val v = Some b" using r by blast
    have "var_map ?L' n = ((var_map L)(map c_tolower k \<mapsto> b)) n" for n
    proof (cases "map c_tolower n = map c_tolower k")
      case True
      have "found_var ?L' n = Some v" using found_same_name [OF conjunct1 [OF r] True] v(1) by (rule trans)
      moreover have "map c_tolower n = n \<longleftrightarrow> n = map c_tolower k" using True lower_idem [of k] by metis
      ultimately show ?thesis
        using v(2) by (cases "n = map c_tolower k") (simp_all add: var_map_def DpsVarListFindStr_def)
    next
      case False
      then have "n \<noteq> map c_tolower k" by auto
      with False r show ?thesis by (simp add: var_map_def DpsVarListFindStr_def)
    qed
    with r show ?thesis by blast
  qed
  show "Some (L, DpsVarListFindStr L k None) = Some (L, map_option (\<lambda>s. s) (var_map L (map c_tolower k)))"
    using same [OF ok, of k] by (simp add: var_map_def option.map_ident DpsVarListFindStr_def)
  show "\<exists>L'. Some (DpsVarListDel L k) = Some L' \<and> vars_store L' \<and> var_map L' = (var_map L)(map c_tolower k := None)"
    using Del_store [OF ok, of k] by (auto simp: var_map_def DpsVarListFindStr_def fun_eq_iff)
qed

section \<open>Numbers read back\<close>

lemma base_number_append:
  "list_all c_isdigit s \<Longrightarrow> base_number 10 acc (s @ t) = base_number 10 (base_number 10 acc s) t"
  by (induction s arbitrary: acc) (auto simp: base_digit_def c_isdigit_def)

lemma digit_chr: "m < 10 \<Longrightarrow> c_isdigit (chr (48 + m)) \<and> base_digit (chr (48 + m)) = Some m"
  by (simp add: base_digit_def c_isdigit_def)

lemma nat_digits_digit: "list_all c_isdigit (nat_digits n)"
proof (induction n rule: nat_digits.induct)
  case (1 n)
  then show ?case using digit_chr [of n] digit_chr [of "n mod 10"]
    by (subst nat_digits.simps) (simp del: One_nat_def)
qed

lemma base_number_digits: "base_number 10 0 (nat_digits n) = int n"
proof (induction n rule: nat_digits.induct)
  case (1 n)
  have "int (n div 10) * 10 + int (n mod 10) = int (n div 10 * 10 + n mod 10)"
    by (simp only: of_nat_add of_nat_mult of_nat_numeral)
  then have "int (n div 10) * 10 + int (n mod 10) = int n" by (simp only: div_mult_mod_eq)
  then show ?case
    using 1 digit_chr [of n] digit_chr [of "n mod 10"] by (subst nat_digits.simps)
      (simp add: base_number_append nat_digits_digit)
qed

lemma nat_digits_first: "\<exists>c s. nat_digits n = c # s \<and> (0 < n \<longrightarrow> c \<noteq> CHR ''0'')"
proof (induction n rule: nat_digits.induct)
  case (1 n)
  show ?case
  proof (cases "n < 10")
    case True
    have "chr (48 + n) \<noteq> CHR ''0''" if "0 < n"
      using that True by (auto dest: arg_cong [where f = ord])
    with True show ?thesis by (subst nat_digits.simps) auto
  next
    case False
    with 1 show ?thesis by (subst nat_digits.simps) fastforce
  qed
qed

lemma number_digits: "c_number (nat_digits n) = int n"
proof (cases "n = 0")
  case True
  moreover have "c_number (nat_digits 0) = 0" by code_simp
  ultimately show ?thesis by simp
next
  case False
  then have "char_at (nat_digits n) 0 \<noteq> CHR ''0''" using nat_digits_first [of n] by (auto simp: char_at_def)
  then show ?thesis by (simp add: c_number_def base_number_digits)
qed

lemma strtol_itoa:
  assumes "- (2 ^ 63) \<le> i" "i < 2 ^ 63"
  shows "c_strtol0 (c_itoa i) = i"
proof (cases "i < 0")
  case True
  then have "c_itoa i = CHR ''-'' # nat_digits (nat (- i))" by (simp add: c_itoa_def)
  moreover have "dropWhile c_isspace (CHR ''-'' # s) = CHR ''-'' # s" "char_at (CHR ''-'' # s) 0 = CHR ''-''" for s
    by (simp_all add: c_isspace_def char_at_def)
  ultimately show ?thesis using True assms(1) by (simp add: c_strtol0_def number_digits)
next
  case False
  then have i: "c_itoa i = nat_digits (nat i)" by (simp add: c_itoa_def)
  obtain c s where cs: "nat_digits (nat i) = c # s" "c_isdigit c"
    using nat_digits_first [of "nat i"] nat_digits_digit [of "nat i"] by auto
  then have "dropWhile c_isspace (c # s) = c # s" "char_at (c # s) 0 \<noteq> CHR ''-''" "char_at (c # s) 0 \<noteq> CHR ''+''"
    by (auto simp: c_isdigit_def c_isspace_def char_at_def)
  then show ?thesis using False assms(2) number_digits [of "nat i"] i cs(1) by (simp add: c_strtol0_def)
qed

lemma ATOI_itoa: "- (2 ^ 31) \<le> i \<Longrightarrow> i < 2 ^ 31 \<Longrightarrow> DPS_ATOI (c_itoa i) = i"
  by (simp add: DPS_ATOI_def strtol_itoa sint_sbintrunc' signed_take_bit_int_eq_self)

section \<open>Properties\<close>

text \<open>
  The variable lists implement a map with case-insensitive names. In a list with one variable
  for a name, after \<^verbatim>\<open>DpsVarListReplaceStr\<close> a look-up finds the new value at every spelling of
  the name and what it found before at every other; the arrays stay sorted and without duplicates.
\<close>

theorem DpsVarListReplaceStr_map:
  "vars_store L \<Longrightarrow>
   vars_store (DpsVarListReplaceStr L name val) \<and>
   (\<forall>n d. DpsVarListFindStr (DpsVarListReplaceStr L name val) n d =
     (if map c_tolower n = map c_tolower name then (case val of Some s \<Rightarrow> Some s | None \<Rightarrow> d)
      else DpsVarListFindStr L n d))"
proof -
  assume "vars_store L"
  note r = ReplaceStr_store [OF this, of name val]
  then obtain v where v: "found_var (DpsVarListReplaceStr L name val) name = Some v" "v_val v = val" by blast
  have "found_var (DpsVarListReplaceStr L name val) n = Some v" if "map c_tolower n = map c_tolower name" for n
    using found_same_name [OF conjunct1 [OF r] that] v(1) by simp
  with r v(2) show ?thesis by (simp add: DpsVarListFindStr_def)
qed

lemma vars_store_Init: "vars_store DpsVarListInit"
  by (simp add: vars_store_def vars_ok_def DpsVarListInit_def cmp_sorted_def)

theorem DpsVarListReplaceStr_map_witness:
  "DpsVarListFindStr (DpsVarListReplaceStr DpsVarListInit ''Period'' (Some ''7d'')) ''PERIOD'' None = Some ''7d''"
proof -
  have "map c_tolower ''PERIOD'' = map c_tolower ''Period''" by code_simp
  then show ?thesis
    using DpsVarListReplaceStr_map [OF vars_store_Init, of "''Period''" "Some ''7d''"] by simp
qed

text \<open>
  C5. Values set one after the other in an empty list, under any names: \<^verbatim>\<open>DpsVarListFindStr\<close> finds
  for every name, in any case, the value set last under it, or the default. This is the lemma of the
  store contract at the variable lists.
\<close>

theorem DpsVarListFindStr_last:
  "DpsVarListFindStr (fold (\<lambda>(k, s) L. DpsVarListReplaceStr L k (Some s)) kvs DpsVarListInit) name defval =
   (case map_of (rev (map (\<lambda>(k, s). (map c_tolower k, s)) kvs)) (map c_tolower name) of
      Some s \<Rightarrow> Some s | None \<Rightarrow> defval)"
proof -
  have "store_all (\<lambda>L k s. Some (DpsVarListReplaceStr L k (Some s))) L kvs =
      Some (fold (\<lambda>(k, s) L. DpsVarListReplaceStr L k (Some s)) kvs L)" for L
    by (induction kvs arbitrary: L) auto
  moreover have "var_map DpsVarListInit = Map.empty"
    by (auto simp: var_map_def DpsVarListFindStr_def found_var_def DpsVarListFind_def DpsVarListInit_def)
  ultimately show ?thesis
    using var_store.store_all_get [OF vars_store_Init, of kvs]
    by (simp add: case_prod_unfold list_all_iff DpsVarListFindStr_default [of _ _ defval])
qed

theorem DpsVarListFindStr_last_witness:
  "DpsVarListFindStr (fold (\<lambda>(k, s) L. DpsVarListReplaceStr L k (Some s))
     [(''Title'', ''a''), (''URL_ID'', ''b''), (''TITLE'', ''c'')] DpsVarListInit) ''title'' None = Some ''c''"
proof -
  have "map c_tolower ''Title'' = ''title''" "map c_tolower ''TITLE'' = ''title''" "map c_tolower ''title'' = ''title''"
    by code_simp+
  then show ?thesis
    using DpsVarListFindStr_last [of "[(''Title'', ''a''), (''URL_ID'', ''b''), (''TITLE'', ''c'')]" "''title''" None] by simp
qed

text \<open>
  C14. \<^verbatim>\<open>DpsVarListAdd\<close> keeps the arrays sorted, which \<^verbatim>\<open>dps_bsearch\<close> relies on, adds the
  copy of the variable to the array of its name and nothing else, and does so with variables of the
  same name in the list as well.
\<close>

theorem DpsVarListAdd_sorted:
  "vars_ok L \<Longrightarrow> v_name S \<noteq> None \<Longrightarrow>
   vars_ok (DpsVarListAdd L S) \<and>
   (\<forall>r. mset (DpsVarListAdd L S r) =
     (if r = var_bucket (name_of S) then add_mset (DpsVarCopy zero_var S) (mset (L r)) else mset (L r)))"
  using append_var_ok [of L "DpsVarCopy zero_var S" "var_bucket (name_of S)"]
  by (auto simp: DpsVarListAdd_def)

theorem DpsVarListAdd_sorted_witness:
  "vars_ok (DpsVarListAdd DpsVarListInit (zero_var\<lparr>v_name := Some ''Tag'', v_val := Some ''x''\<rparr>))"
  using DpsVarListAdd_sorted [of DpsVarListInit "zero_var\<lparr>v_name := Some ''Tag'', v_val := Some ''x''\<rparr>"]
    vars_store_Init by (simp add: vars_store_def)

text \<open>
  C15. \<^verbatim>\<open>DpsVarListDel\<close> ends and removes every variable of the name, in any case, and only
  those; the others keep their order.
\<close>

theorem DpsVarListDel_removes:
  "vars_ok L \<Longrightarrow>
   DpsVarListDel L name r = filter (\<lambda>v. map c_tolower (name_of v) \<noteq> map c_tolower name) (L r)"
proof -
  assume ok: "vars_ok L"
  have "filter (\<lambda>v. map c_tolower (name_of v) \<noteq> map c_tolower name) (L r) = L r" if "r \<noteq> var_bucket name"
    using ok that bucket_cong [of "name_of v" name for v] unfolding filter_id_conv vars_ok_def by metis
  moreover have "filter (\<lambda>v. \<not> var_named name v) (L r) = filter (\<lambda>v. map c_tolower (name_of v) \<noteq> map c_tolower name) (L r)"
    using ok by (intro filter_cong) (auto simp: var_named_def vars_ok_def)
  ultimately show ?thesis using DpsVarListDel_filter [OF ok, of name]
    by (cases "r = var_bucket name") simp_all
qed

theorem DpsVarListDel_removes_witness:
  "DpsVarListDel (DpsVarListAddStr (DpsVarListAddStr DpsVarListInit ''Tag'' (Some ''a'')) ''tag'' (Some ''b'')) ''TAG''
     (var_bucket ''tag'') = []"
proof -
  have add: "vars_ok (DpsVarListAddStr L n v)" if "vars_ok L" for L n v
    using append_var_ok [OF that, of "str_var n v" "var_bucket n"]
    by (simp add: DpsVarListAddStr_def str_var_def zero_var_def name_of_def)
  have "vars_ok DpsVarListInit" using vars_store_Init by (simp add: vars_store_def)
  note ok = add [OF add [OF this, of "''Tag''" "Some ''a''"], of "''tag''" "Some ''b''"]
  show ?thesis unfolding DpsVarListDel_removes [OF ok] by code_simp
qed

text \<open>
  C16. An integer stored with \<^verbatim>\<open>DpsVarListReplaceInt\<close> is read back by \<^verbatim>\<open>DpsVarListFindInt\<close>,
  for every 32-bit value: printing in decimal never gives a text that base 0 reads as octal or
  hexadecimal.
\<close>

theorem DpsVarListFindInt_ReplaceInt:
  "vars_store L \<Longrightarrow> - (2 ^ 31) \<le> i \<Longrightarrow> i < 2 ^ 31 \<Longrightarrow>
   DpsVarListFindInt (DpsVarListReplaceInt L name i) name d = i"
proof -
  assume a: "vars_store L" "- (2 ^ 31) \<le> i" "i < 2 ^ 31"
  have "\<exists>v. found_var (DpsVarListReplaceInt L name i) name = Some v \<and> v_val v = Some (c_itoa i)"
  proof (cases "DpsVarListFind L name")
    case None
    then have "found_var L name = None" by (simp add: found_var_def)
    from AddStr_store [OF a(1) this] None show ?thesis
      by (simp add: DpsVarListReplaceInt_def DpsVarListAddInt_def str_var_def)
  qed (use ReplaceStr_store [OF a(1)] in \<open>simp add: DpsVarListReplaceInt_def\<close>)
  then show ?thesis using ATOI_itoa [OF a(2,3)] by (auto simp: DpsVarListFindInt_def)
qed

theorem DpsVarListFindInt_ReplaceInt_witness:
  "DpsVarListFindInt (DpsVarListReplaceInt DpsVarListInit ''ps'' (- 2147483648)) ''ps'' 10 = - 2147483648"
  using DpsVarListFindInt_ReplaceInt [OF vars_store_Init, of "- 2147483648" "''ps''" 10] by simp

end
