(* ===== verification/Dps_Dates.thy ===== *)
theory Dps_Dates
  imports Dps_Search
begin

text \<open>
  Dates (\<^verbatim>\<open>src/utils.c\<close> and \<^verbatim>\<open>src/timezones.inc\<close>): reading the dates of HTTP headers
  and FTP servers, printing a time for HTTP, and the periods of the configuration files.
  \<^verbatim>\<open>int\<close>, \<^verbatim>\<open>long\<close> and \<^verbatim>\<open>time_t\<close> values are integers; in the date functions they stay
  far below the 64-bit bounds, in \<^verbatim>\<open>Dps_dp2time_t\<close> an overflow is \<^const>\<open>None\<close>. The result
  \<^const>\<open>None\<close> elsewhere is a read outside \<^verbatim>\<open>dayoffset\<close> or the string.
  \<^verbatim>\<open>bsearch\<close> of the C library is modelled by what it promises for a sorted table, the
  matching entry; \<open>time_zones_sorted\<close> shows that the table is sorted. \<^verbatim>\<open>gmtime\<close> is modelled
  by counting years and months from 1970 on.
\<close>

section \<open>Masks\<close>

text \<open>The masks in use are shorter than the 256 characters the loop is bounded by.\<close>

fun ap_checkmask :: "string \<Rightarrow> string \<Rightarrow> bool" where
  "ap_checkmask data [] = (data = [])"
| "ap_checkmask data (m # msk) =
     (let d = char_at data 0 in
      if m = CHR ''*'' then True
      else if m = CHR ''@'' then c_isupper d \<and> ap_checkmask (tl data) msk
      else if m = CHR ''$'' then c_islower d \<and> ap_checkmask (tl data) msk
      else if m = CHR ''#'' then c_isdigit d \<and> ap_checkmask (tl data) msk
      else if m = CHR ''&'' then c_isxdigit d \<and> ap_checkmask (tl data) msk
      else if m = CHR ''~'' then (d = CHR '' '' \<or> c_isdigit d) \<and> ap_checkmask (tl data) msk
      else if m = CHR ''+'' then (d = CHR ''+'' \<or> d = CHR ''-'') \<and> ap_checkmask (tl data) msk
      else m = d \<and> ap_checkmask (tl data) msk)"

section \<open>Time zones\<close>

text \<open>Name, sign and offset, as in \<^verbatim>\<open>timezones.inc\<close>.\<close>

definition time_zones :: "(string \<times> int \<times> int) list" where
  "time_zones =
   [(''A'', - 1, 3600), (''ACDT'', - 1, 10 * 3600 + 1800), (''ACST'', - 1, 9 * 3600 + 1800),
    (''ADT'', 1, 3 * 3600), (''AEDT'', - 1, 11 * 3600), (''AEST'', - 1, 10 * 3600),
    (''AKDT'', 1, 8 * 3600), (''AKST'', 1, 9 * 3600), (''AST'', 1, 4 * 3600),
    (''AWDT'', - 1, 9 * 3600), (''AWST'', - 1, 8 * 3600), (''B'', - 1, 2 * 3600),
    (''BST'', - 1, 3600), (''C'', - 1, 3 * 3600), (''CDT'', 1, 5 * 3600),
    (''CEDT'', - 1, 2 * 3600), (''CEST'', - 1, 2 * 3600), (''CET'', - 1, 3600),
    (''CST'', 1, 6 * 3600), (''CXT'', - 1, 7 * 3600), (''D'', - 1, 4 * 3600),
    (''E'', - 1, 5 * 3600), (''EDT'', 1, 4 * 3600), (''EEDT'', - 1, 3 * 3600),
    (''EEST'', - 1, 3 * 3600), (''EET'', - 1, 2 * 3600), (''EST'', 1, 5 * 3600),
    (''F'', - 1, 6 * 3600), (''G'', - 1, 7 * 3600), (''GMT'', 1, 0), (''GMT+1'', - 1, 1 * 3600),
    (''GMT+10'', - 1, 10 * 3600), (''GMT+10:30'', - 1, 10 * 3600 + 1800),
    (''GMT+11'', - 1, 11 * 3600), (''GMT+11:30'', - 1, 11 * 3600 + 1800),
    (''GMT+12'', - 1, 12 * 3600), (''GMT+12:45'', - 1, 12 * 3600 + 1800 + 900),
    (''GMT+13'', - 1, 12 * 3600), (''GMT+14'', - 1, 12 * 3600), (''GMT+2'', - 1, 2 * 3600),
    (''GMT+3'', - 1, 3 * 3600), (''GMT+3:30'', - 1, 3 * 3600 + 1800), (''GMT+4'', - 1, 4 * 3600),
    (''GMT+4:30'', - 1, 4 * 3600 + 1800), (''GMT+5'', - 1, 5 * 3600),
    (''GMT+5:30'', - 1, 5 * 3600 + 1800), (''GMT+5:45'', - 1, 5 * 3600 + 1800 + 900),
    (''GMT+6'', - 1, 6 * 3600), (''GMT+6:30'', - 1, 6 * 3600 + 1800), (''GMT+7'', - 1, 7 * 3600),
    (''GMT+8'', - 1, 8 * 3600), (''GMT+8:45'', - 1, 8 * 3600 + 1800 + 900),
    (''GMT+9'', - 1, 9 * 3600), (''GMT+9:30'', - 1, 9 * 3600 + 1800), (''GMT-1'', 1, 1 * 3600),
    (''GMT-10'', 1, 10 * 3600), (''GMT-11'', 1, 11 * 3600), (''GMT-12'', 1, 12 * 3600),
    (''GMT-2'', 1, 2 * 3600), (''GMT-3'', 1, 3 * 3600), (''GMT-3:30'', 1, 3 * 3600 + 1800),
    (''GMT-4'', 1, 4 * 3600), (''GMT-4:30'', 1, 4 * 3600 + 1800), (''GMT-5'', 1, 5 * 3600),
    (''GMT-6'', 1, 6 * 3600), (''GMT-7'', 1, 7 * 3600), (''GMT-8'', 1, 8 * 3600),
    (''GMT-9'', 1, 9 * 3600), (''GMT-9:30'', 1, 9 * 3600 + 1800), (''H'', - 1, 8 * 3600),
    (''HAA'', 1, 3 * 3600), (''HAC'', 1, 5 * 3600), (''HADT'', 1, 9 * 3600),
    (''HAE'', 1, 4 * 3600), (''HAP'', 1, 7 * 3600), (''HAR'', 1, 6 * 3600),
    (''HAST'', 1, 10 * 3600), (''HAT'', 1, 2 * 3600 + 1800), (''HAY'', 1, 8 * 3600),
    (''HNA'', 1, 4 * 3600), (''HNC'', 1, 6 * 3600), (''HNE'', 1, 5 * 3600), (''HNP'', 1, 8 * 3600),
    (''HNR'', 1, 7 * 3600), (''HNT'', 1, 3 * 3600 + 1800), (''HNY'', 1, 9 * 3600),
    (''I'', - 1, 9 * 3600), (''IST'', - 1, 3600), (''K'', - 1, 10 * 3600), (''L'', - 1, 11 * 3600),
    (''M'', - 1, 12 * 3600), (''MDT'', 1, 6 * 3600), (''MESZ'', - 1, 2 * 3600),
    (''MEZ'', - 1, 3600), (''MSD'', - 1, 4 * 3600), (''MSK'', - 1, 3 * 3600),
    (''MST'', 1, 7 * 3600), (''N'', 1, 3600), (''NDT'', 1, 2 * 3600 + 1800),
    (''NFT'', - 1, 11 * 3600 + 1800), (''NST'', 1, 3 * 3600 + 1800), (''O'', 1, 2 * 3600),
    (''P'', 1, 3 * 3600), (''PDT'', 1, 7 * 3600), (''PST'', 1, 8 * 3600), (''Q'', 1, 4 * 3600),
    (''R'', 1, 5 * 3600), (''S'', 1, 6 * 3600), (''T'', 1, 7 * 3600), (''U'', 1, 8 * 3600),
    (''UTC'', 1, 0), (''UTC+1'', - 1, 1 * 3600), (''UTC+10'', - 1, 10 * 3600),
    (''UTC+10:30'', - 1, 10 * 3600 + 1800), (''UTC+11'', - 1, 11 * 3600),
    (''UTC+11:30'', - 1, 11 * 3600 + 1800), (''UTC+12'', - 1, 12 * 3600),
    (''UTC+12:45'', - 1, 12 * 3600 + 1800 + 900), (''UTC+13'', - 1, 12 * 3600),
    (''UTC+14'', - 1, 12 * 3600), (''UTC+2'', - 1, 2 * 3600), (''UTC+3'', - 1, 3 * 3600),
    (''UTC+3:30'', - 1, 3 * 3600 + 1800), (''UTC+4'', - 1, 4 * 3600),
    (''UTC+4:30'', - 1, 4 * 3600 + 1800), (''UTC+5'', - 1, 5 * 3600),
    (''UTC+5:30'', - 1, 5 * 3600 + 1800), (''UTC+5:45'', - 1, 5 * 3600 + 1800 + 900),
    (''UTC+6'', - 1, 6 * 3600), (''UTC+6:30'', - 1, 6 * 3600 + 1800), (''UTC+7'', - 1, 7 * 3600),
    (''UTC+8'', - 1, 8 * 3600), (''UTC+8:45'', - 1, 8 * 3600 + 1800 + 900),
    (''UTC+9'', - 1, 9 * 3600), (''UTC+9:30'', - 1, 9 * 3600 + 1800), (''UTC-1'', 1, 1 * 3600),
    (''UTC-10'', 1, 10 * 3600), (''UTC-11'', 1, 11 * 3600), (''UTC-12'', 1, 12 * 3600),
    (''UTC-2'', 1, 2 * 3600), (''UTC-3'', 1, 3 * 3600), (''UTC-3:30'', 1, 3 * 3600 + 1800),
    (''UTC-4'', 1, 4 * 3600), (''UTC-4:30'', 1, 4 * 3600 + 1800), (''UTC-5'', 1, 5 * 3600),
    (''UTC-6'', 1, 6 * 3600), (''UTC-7'', 1, 7 * 3600), (''UTC-8'', 1, 8 * 3600),
    (''UTC-9'', 1, 9 * 3600), (''UTC-9:30'', 1, 9 * 3600 + 1800), (''V'', 1, 9 * 3600),
    (''W'', 1, 10 * 3600), (''WDT'', - 1, 9 * 3600), (''WEDT'', - 1, 3600), (''WEST'', - 1, 3600),
    (''WET'', 1, 0), (''WST'', - 1, 8 * 3600), (''X'', 1, 11 * 3600), (''Y'', 1, 12 * 3600),
    (''YDT'', 1, 8 * 3600), (''YST'', 1, 9 * 3600), (''YW1'', 1, 0), (''YW2'', 1, 1 * 3600),
    (''Z'', 1, 0), (''ZE10'', - 1, 10 * 3600), (''ZE11'', - 1, 11 * 3600),
    (''ZE12'', - 1, 12 * 3600), (''ZE13'', - 1, 13 * 3600), (''ZE2'', - 1, 2 * 3600),
    (''ZE3'', - 1, 3 * 3600), (''ZE3B'', - 1, 3 * 3600 + 1800), (''ZE4'', - 1, 4 * 3600),
    (''ZE4B'', - 1, 4 * 3600 + 1800), (''ZE5'', - 1, 5 * 3600), (''ZE5B'', - 1, 5 * 3600 + 1800),
    (''ZE5C'', - 1, 5 * 3600 + 1800 + 900), (''ZE6'', - 1, 6 * 3600),
    (''ZE6B'', - 1, 6 * 3600 + 1800), (''ZE7'', - 1, 7 * 3600), (''ZE8'', - 1, 8 * 3600),
    (''ZE9'', - 1, 9 * 3600), (''ZE9B'', - 1, 9 * 3600 + 1800), (''ZW1'', 1, 1 * 3600),
    (''ZW12'', 1, 12 * 3600), (''ZW2'', 1, 2 * 3600), (''ZW3'', 1, 3 * 3600)]"

definition dps_tz_cmp :: "string \<times> int \<times> int \<Rightarrow> string \<times> int \<times> int \<Rightarrow> int" where
  "dps_tz_cmp z1 z2 = c_strcasecmp (fst z1) (fst z2)"

text \<open>\<^verbatim>\<open>s[i] - '0'\<close>, where \<^verbatim>\<open>char\<close> is signed.\<close>

definition dig :: "string \<Rightarrow> nat \<Rightarrow> int" where
  "dig s i = (let c = ord (char_at s i) in if c < 128 then int c - 48 else int c - 304)"

definition dps_tz_adjust :: "int \<Rightarrow> string option \<Rightarrow> int option" where
  "dps_tz_adjust timevalue tz_name =
    (case tz_name of
       None \<Rightarrow> Some timevalue
     | Some tz \<Rightarrow>
         if char_at tz 0 = CHR ''+'' \<or> char_at tz 0 = CHR ''-'' then
           if length tz < 5 then None
           else
             let add = dig tz 1 * 36000 + dig tz 2 * 3600 + dig tz 4 * 600 + dig tz 5 * 60
             in Some (if char_at tz 0 = CHR ''+'' then timevalue - add else timevalue + add)
         else
           let add = (if c_strncaseeq tz ''PM '' 3 then 12 * 3600 else 0);
               key = (if c_strncaseeq tz ''PM '' 3 \<or> c_strncaseeq tz ''AM '' 3 then drop 3 tz else tz)
           in Some (case find (\<lambda>z. dps_tz_cmp (key, 0, 0) z = 0) time_zones of
                      None \<Rightarrow> timevalue + add
                    | Some (_, sign, offset) \<Rightarrow>
                        if sign = 1 then timevalue + offset + add else timevalue - offset + add))"

section \<open>Seconds of a broken-down time\<close>

record tm =
  tm_year :: int
  tm_mon :: int
  tm_mday :: int
  tm_hour :: int
  tm_min :: int
  tm_sec :: int
  tm_wday :: int

definition tm_zero :: tm where
  "tm_zero = \<lparr>tm_year = 0, tm_mon = 0, tm_mday = 0, tm_hour = 0, tm_min = 0, tm_sec = 0, tm_wday = 0\<rparr>"

definition dayoffset :: "int list" where
  "dayoffset = [306, 337, 0, 31, 61, 92, 122, 153, 184, 214, 245, 275]"

text \<open>
  A \<^verbatim>\<open>time_t\<close> of 64 bits. After the shift the year is positive, so that the divisions of
  \<^verbatim>\<open>int\<close> here are those of C. The product \<^verbatim>\<open>year * 365\<close> is one of 32-bit integers
  in C, which holds it for years up to 5,880,000; the callers' years have four digits.
\<close>

definition ap_tm2sec :: "tm \<Rightarrow> int option" where
  "ap_tm2sec t =
    (if tm_year t < 70 then Some 0
     else if tm_mon t < 0 \<or> 12 \<le> tm_mon t then None
     else
       let year = (if tm_mon t < 2 then tm_year t - 1 else tm_year t);
           days = year * 365 + year div 4 - year div 100 + (year div 100 + 3) div 4;
           days = days + dayoffset ! nat (tm_mon t) + tm_mday t - 1;
           days = days - 25508;
           days = ((days * 24 + tm_hour t) * 60 + tm_min t) * 60 + tm_sec t
       in Some (if days < 0 then 0 else days))"

section \<open>HTTP dates\<close>

definition dps_mon :: "string list" where
  "dps_mon = [''Jan'', ''Feb'', ''Mar'', ''Apr'', ''May'', ''Jun'', ''Jul'', ''Aug'', ''Sep'', ''Oct'', ''Nov'', ''Dec'']"

definition dps_wday :: "string list" where
  "dps_wday = [''Sun'', ''Mon'', ''Tue'', ''Wed'', ''Thu'', ''Fri'', ''Sat'']"

definition two :: "string \<Rightarrow> nat \<Rightarrow> int" where
  "two s i = dig s i * 10 + dig s (i + 1)"

text \<open>
  What the formats give: the fields set so far and the pointers \<^verbatim>\<open>monstr\<close>, \<^verbatim>\<open>timstr\<close> and
  \<^verbatim>\<open>tz_str\<close>, or \<^verbatim>\<open>BAD_DATE\<close>.
\<close>

datatype date_fmt = Bad | Fmt tm "string option" "string option" "string option"

text \<open>A four-digit year at \<open>i\<close>, less 1900; before 1900 the date is bad.\<close>

definition with_year :: "string \<Rightarrow> nat \<Rightarrow> (int \<Rightarrow> date_fmt) \<Rightarrow> date_fmt" where
  "with_year date i k =
    (let y = (two date i - 19) * 100 in if y < 0 then Bad else k (y + two date (i + 2)))"

definition iso_date :: "string \<Rightarrow> string option \<Rightarrow> date_fmt" where
  "iso_date date tz_str =
    with_year date 0 (\<lambda>y. Fmt (tm_zero\<lparr>tm_year := y, tm_mon := two date 5 - 1, tm_mday := two date 8\<rparr>)
      None (Some (drop 11 date)) tz_str)"

text \<open>The formats of a date that starts with a weekday; \<open>date\<close> is what follows the first space.\<close>

definition weekday_formats :: "string \<Rightarrow> date_fmt" where
  "weekday_formats date =
    (if ap_checkmask date ''## @$$ #### ##:##:## *'' then
       with_year date 7 (\<lambda>y. Fmt (tm_zero\<lparr>tm_year := y, tm_mday := two date 0\<rparr>)
         (Some (drop 3 date)) (Some (drop 12 date)) (Some (drop 21 date)))
     else if ap_checkmask date ''##-@$$-## ##:##:## *'' then
       (let y = two date 7
        in Fmt (tm_zero\<lparr>tm_year := (if y < 70 then y + 100 else y), tm_mday := two date 0\<rparr>)
             (Some (drop 3 date)) (Some (drop 10 date)) (Some (drop 19 date)))
     else if ap_checkmask date ''##-@$$-#### ##:##:## *'' then
       (let y = dig date 7 * 1000 + dig date 8 * 100 + dig date 9 * 10 + dig date 10
        in Fmt (tm_zero\<lparr>tm_year := y - 1900, tm_mday := two date 0\<rparr>)
             (Some (drop 3 date)) (Some (drop 12 date)) (Some (drop 21 date)))
     else if ap_checkmask date ''@$$ ~# ##:##:## ####*'' then
       with_year date 16 (\<lambda>y.
         Fmt (tm_zero\<lparr>tm_year := y,
                tm_mday := (if char_at date 4 = CHR '' '' then 0 else dig date 4 * 10) + dig date 5\<rparr>)
           (Some date) (Some (drop 7 date)) None)
     else Bad)"

text \<open>\<^verbatim>\<open>08.07.2013\<close>: day and month, or month and day when the second number is above 12.\<close>

definition numeric_date :: "string \<Rightarrow> date_fmt" where
  "numeric_date date =
    with_year date 6 (\<lambda>y.
      let mon = two date 3 in
      if mon < 1 then Bad
      else if mon > 12 then
        (if two date 0 - 1 > 11 then Bad
         else Fmt (tm_zero\<lparr>tm_year := y, tm_mday := mon, tm_mon := two date 0 - 1\<rparr>) None None None)
      else Fmt (tm_zero\<lparr>tm_year := y, tm_mon := mon - 1, tm_mday := two date 0\<rparr>) None None None)"

definition date_format :: "string \<Rightarrow> date_fmt" where
  "date_format date =
    (if ap_checkmask date ''####-##-##T##:##:##+##:##*'' then iso_date date (Some (drop 19 date))
     else if ap_checkmask date ''####-##-##T##:##:##*'' then
       iso_date date (if char_at date 19 = CHR ''Z'' then Some ''UTC'' else None)
     else if ap_checkmask date ''# @$$ ####*'' then
       with_year date 6 (\<lambda>y. Fmt (tm_zero\<lparr>tm_year := y, tm_mday := dig date 0\<rparr>)
         (Some (drop 2 date)) None None)
     else if ap_checkmask date ''## @$$ ####*'' then
       with_year date 7 (\<lambda>y. Fmt (tm_zero\<lparr>tm_year := y, tm_mday := two date 0\<rparr>)
         (Some (drop 3 date)) None None)
     else if ap_checkmask date ''@$$ ~#, ####*'' then
       with_year date 8 (\<lambda>y.
         Fmt (tm_zero\<lparr>tm_year := y,
                tm_mday := (if char_at date 4 = CHR '' '' then 0 else dig date 4 * 10) + dig date 5\<rparr>)
           (Some date) None None)
     else if ap_checkmask date ''##.##.####*'' \<or> ap_checkmask date ''##/##/####*'' then numeric_date date
     else
       (case c_strchr date CHR '' '' of
          None \<Rightarrow> Bad
        | Some (_, rest) \<Rightarrow> weekday_formats (tl rest)))"

text \<open>The checks of the fields, after the formats.\<close>

definition check_day :: "tm \<Rightarrow> string option \<Rightarrow> int option" where
  "check_day ds tz_str =
    (if tm_mday ds = 31 \<and> (tm_mon ds = 3 \<or> tm_mon ds = 5 \<or> tm_mon ds = 8 \<or> tm_mon ds = 10) then Some 0
     else if tm_mon ds = 1 \<and>
         (tm_mday ds > 29 \<or>
          (tm_mday ds = 29 \<and> (tm_year ds mod 4 \<noteq> 0 \<or> (tm_year ds mod 100 = 0 \<and> tm_year ds mod 400 \<noteq> 100))))
       then Some 0
     else (case ap_tm2sec ds of None \<Rightarrow> None | Some t \<Rightarrow> dps_tz_adjust t tz_str))"

fun month_index :: "string \<Rightarrow> string list \<Rightarrow> int \<Rightarrow> int option" where
  "month_index monstr [] mon = None"
| "month_index monstr (m # ms) mon = (if take 3 monstr = m then Some mon else month_index monstr ms (mon + 1))"

definition check_month :: "tm \<Rightarrow> string option \<Rightarrow> string option \<Rightarrow> int option" where
  "check_month ds monstr tz_str =
    (case monstr of
       None \<Rightarrow> check_day ds tz_str
     | Some s \<Rightarrow>
         (case month_index s dps_mon 0 of
            None \<Rightarrow> Some 0
          | Some mon \<Rightarrow> check_day (ds\<lparr>tm_mon := mon\<rparr>) tz_str))"

definition check_fields :: "date_fmt \<Rightarrow> int option" where
  "check_fields f =
    (case f of
       Bad \<Rightarrow> Some 0
     | Fmt ds monstr timstr tz_str \<Rightarrow>
         if tm_mday ds \<le> 0 \<or> tm_mday ds > 31 then Some 0
         else
           (case timstr of
              None \<Rightarrow> check_month ds monstr tz_str
            | Some s \<Rightarrow>
                let ds = ds\<lparr>tm_hour := two s 0, tm_min := two s 3, tm_sec := two s 6\<rparr>
                in if tm_hour ds > 23 \<or> tm_min ds > 59 \<or> tm_sec ds > 61 then Some 0
                   else check_month ds monstr tz_str))"

definition DpsHttpDate2Time_t :: "string option \<Rightarrow> int option" where
  "DpsHttpDate2Time_t date =
    (case date of
       None \<Rightarrow> Some 0
     | Some date \<Rightarrow>
         let date = dropWhile c_isspace date
         in if date = [] then Some 0 else check_fields (date_format date))"

section \<open>FTP dates\<close>

definition DpsFTPDate2Time_t :: "string \<Rightarrow> int option" where
  "DpsFTPDate2Time_t date =
    (if length date < 4 then None
     else if \<not> ap_checkmask (drop 4 date) ''##############*'' then Some 0
     else ap_tm2sec (tm_zero\<lparr>tm_year := (two date 4 - 19) * 100 + two date 6, tm_mon := two date 8 - 1,
            tm_mday := two date 10, tm_hour := two date 12, tm_min := two date 14, tm_sec := two date 16\<rparr>))"

section \<open>Periods\<close>

text \<open>\<^verbatim>\<open>strtol\<close> with base 10: the number and the rest, \<^const>\<open>None\<close> without a number.\<close>

fun dec_number :: "int \<Rightarrow> string \<Rightarrow> int \<times> string" where
  "dec_number acc [] = (acc, [])"
| "dec_number acc (c # s) =
     (if c_isdigit c then dec_number (acc * 10 + (int (ord c) - 48)) s else (acc, c # s))"

definition c_strtol10 :: "string \<Rightarrow> (int \<times> string) option" where
  "c_strtol10 s =
    (let t = dropWhile c_isspace s;
         u = (if char_at t 0 = CHR ''-'' \<or> char_at t 0 = CHR ''+'' then tl t else t);
         (n, rest) = dec_number 0 u
     in if c_isdigit (char_at u 0)
        then Some (max (- (2 ^ 63)) (min (2 ^ 63 - 1) (if char_at t 0 = CHR ''-'' then - n else n)), rest)
        else None)"

lemma dec_number_length: "dec_number acc s = (n, r) \<Longrightarrow> length r \<le> length s"
  by (induction s arbitrary: acc) (auto split: if_splits intro: le_SucI)

lemma strtol10_length: "c_strtol10 s = Some (n, r) \<Longrightarrow> length r < length s"
proof -
  assume a: "c_strtol10 s = Some (n, r)"
  define t where "t = dropWhile c_isspace s"
  define u where "u = (if char_at t 0 = CHR ''-'' \<or> char_at t 0 = CHR ''+'' then tl t else t)"
  have d: "c_isdigit (char_at u 0)" "\<exists>m. dec_number 0 u = (m, r)"
    using a by (auto simp: c_strtol10_def Let_def t_def u_def split: prod.splits if_splits)
  then obtain c v where u: "u = c # v" "c_isdigit c" by (cases u) (auto simp: char_at_def c_isdigit_def)
  then have "length r \<le> length v" using d(2) dec_number_length by fastforce
  moreover have "length u \<le> length t" "length t \<le> length s"
    by (simp_all add: u_def t_def length_dropWhile_le)
  ultimately show ?thesis using u by simp
qed

definition c_long :: "int \<Rightarrow> int option" where
  "c_long x = (if - (2 ^ 63) \<le> x \<and> x < 2 ^ 63 then Some x else None)"

definition period_unit :: "char \<Rightarrow> int option" where
  "period_unit c =
    (if c = CHR ''s'' then Some 1
     else if c = CHR ''M'' then Some 60
     else if c = CHR ''h'' then Some (60 * 60)
     else if c = CHR ''d'' then Some (60 * 60 * 24)
     else if c = CHR ''m'' then Some (60 * 60 * 24 * 30)
     else if c = CHR ''y'' then Some (60 * 60 * 24 * 365)
     else None)"

function dp2time_loop :: "int \<Rightarrow> bool \<Rightarrow> string \<Rightarrow> int option" where
  "dp2time_loop t flag ts =
    (case c_strtol10 ts of
       None \<Rightarrow> Some (- 1)
     | Some (i, s) \<Rightarrow>
         (case dropWhile c_isspace s of
            [] \<Rightarrow> Some (if flag then - 1 else i)
          | c # s' \<Rightarrow>
              (case period_unit c of
                 None \<Rightarrow> Some (- 1)
               | Some m \<Rightarrow>
                   (case c_long (i * m) of
                      None \<Rightarrow> None
                    | Some d \<Rightarrow>
                        (case c_long (t + d) of
                           None \<Rightarrow> None
                         | Some t' \<Rightarrow> if s' = [] then Some t' else dp2time_loop t' True s')))))"
  by pat_completeness auto
termination
proof (relation "measure (\<lambda>(t, flag, ts). length ts)")
  fix t :: int and flag ts p i s c s'
  assume "c_strtol10 ts = Some p" "(i, s) = p" "dropWhile c_isspace s = c # s'"
  then show "((t', True, s'), t, flag, ts) \<in> measure (\<lambda>(t, flag, ts). length ts)" for t' :: int
    using strtol10_length [of ts i s] length_dropWhile_le [of c_isspace s] by auto
qed simp

declare dp2time_loop.simps [simp del]

definition Dps_dp2time_t :: "string option \<Rightarrow> int option" where
  "Dps_dp2time_t time_str =
    (case time_str of None \<Rightarrow> Some 0 | Some s \<Rightarrow> if s = [] then Some 0 else dp2time_loop 0 False s)"

section \<open>Printing a time\<close>

definition leap :: "nat \<Rightarrow> bool" where
  "leap y \<longleftrightarrow> y mod 4 = 0 \<and> (y mod 100 \<noteq> 0 \<or> y mod 400 = 0)"

definition year_len :: "nat \<Rightarrow> nat" where
  "year_len y = (if leap y then 366 else 365)"

definition month_len :: "nat \<Rightarrow> nat \<Rightarrow> nat" where
  "month_len y m = (if m = 1 \<and> leap y then 29 else [31, 28, 31, 30, 31, 30, 31, 31, 30, 31, 30, 31] ! m)"

text \<open>\<^verbatim>\<open>gmtime\<close> of a time from 1970 on.\<close>

function gm_year :: "nat \<Rightarrow> nat \<Rightarrow> nat \<times> nat" where
  "gm_year y d = (if d < year_len y then (y, d) else gm_year (y + 1) (d - year_len y))"
  by pat_completeness auto
termination by (relation "measure (\<lambda>(y, d). d)") (auto simp: year_len_def)

function gm_month :: "nat \<Rightarrow> nat \<Rightarrow> nat \<Rightarrow> nat \<times> nat" where
  "gm_month y m d = (if d < month_len y m \<or> 11 \<le> m then (m, d) else gm_month y (m + 1) (d - month_len y m))"
  by pat_completeness auto
termination by (relation "measure (\<lambda>(y, m, d). 11 - m)") auto

declare gm_year.simps [simp del] gm_month.simps [simp del]

definition gmtime :: "nat \<Rightarrow> tm" where
  "gmtime t =
    (let (y, yday) = gm_year 1970 (t div 86400);
         (mon, d) = gm_month y 0 yday
     in \<lparr>tm_year = int y - 1900, tm_mon = int mon, tm_mday = int d + 1,
         tm_hour = int (t mod 86400 div 3600), tm_min = int (t mod 3600 div 60), tm_sec = int (t mod 60),
         tm_wday = int ((4 + t div 86400) mod 7)\<rparr>)"

definition c_digit :: "int \<Rightarrow> char" where
  "c_digit d = chr (nat ((48 + d) mod 256))"

definition put_two :: "int \<Rightarrow> int \<Rightarrow> int \<Rightarrow> char \<Rightarrow> string" where
  "put_two lo hi v sep =
    (if lo \<le> v \<and> v < hi then [c_digit (v div 10), c_digit (v - v div 10 * 10), sep] else ''??'' @ [sep])"

definition put_year :: "int \<Rightarrow> string" where
  "put_year year =
    (let dig = year div 1000; y1 = year - dig * 1000; dig2 = y1 div 100; y2 = y1 - dig2 * 100;
         dig3 = y2 div 10; y3 = y2 - dig3 * 10
     in [c_digit dig, c_digit dig2, c_digit dig3, c_digit y3, CHR '' ''])"

definition http_str :: "tm \<Rightarrow> string" where
  "http_str tim =
    (if 0 \<le> tm_wday tim \<and> tm_wday tim < 7 then dps_wday ! nat (tm_wday tim) else ''?'') @ '', '' @
    put_two 1 32 (tm_mday tim) CHR '' '' @
    (if 0 \<le> tm_mon tim \<and> tm_mon tim < 12 then dps_mon ! nat (tm_mon tim) @ '' '' else ''??? '') @
    put_year (1900 + tm_year tim) @
    put_two 0 24 (tm_hour tim) CHR '':'' @ put_two 0 60 (tm_min tim) CHR '':'' @
    put_two 0 60 (tm_sec tim) CHR '' '' @ ''GMT''"

definition DpsTime_t2HttpStr :: "nat \<Rightarrow> string" where
  "DpsTime_t2HttpStr t = http_str (gmtime t)"

end
