(* ===== verification/Dps_Calendar.thy ===== *)
theory Dps_Calendar
  imports Dps_Dates Dps_Vars
begin

text \<open>
  The date functions against the calendar: \<^verbatim>\<open>ap_tm2sec\<close> computes the seconds that counting
  days gives, and \<^verbatim>\<open>DpsHttpDate2Time_t\<close> reads what \<^verbatim>\<open>DpsTime_t2HttpStr\<close> prints.
\<close>

section \<open>The calendar\<close>

text \<open>
  The reference: days since 1970-01-01, counted year by year and month by month.
\<close>

definition civil_days :: "nat \<Rightarrow> nat \<Rightarrow> int \<Rightarrow> int" where
  "civil_days y m d =
    int (sum_list (map year_len [1970..<y])) + int (sum_list (map (month_len y) [0..<m])) + d - 1"

definition leaps :: "nat \<Rightarrow> nat" where
  "leaps y = y div 4 - y div 100 + y div 400"

lemma leaps_Suc: "leaps (Suc y) = leaps y + (if leap (Suc y) then 1 else 0)"
proof -
  have m: "Suc y mod 400 = 0 \<Longrightarrow> Suc y mod 100 = 0" "Suc y mod 100 = 0 \<Longrightarrow> Suc y mod 4 = 0"
    by presburger+
  have le: "y div 100 \<le> y div 4" by (rule div_le_mono2) simp_all
  have le2: "Suc (y div 100) \<le> y div 4" if "Suc y mod 4 \<noteq> 0" "Suc y mod 100 = 0"
    using that m by simp
  show ?thesis using m le unfolding leaps_def leap_def div_Suc by (auto split: if_splits)
qed

lemma years_closed: "1969 \<le> y \<Longrightarrow> int (sum_list (map year_len [1970..<Suc y])) = 365 * (int y - 1969) + int (leaps y) - 477"
proof (induction y rule: nat_induct_at_least)
  case base
  show ?case by (simp add: leaps_def)
next
  case (Suc y)
  then show ?case by (simp add: leaps_Suc year_len_def)
qed

lemma months_closed:
  "m < 12 \<Longrightarrow> int (sum_list (map (month_len y) [0..<m])) =
     (if m < 2 then 31 * int m else 59 + (if leap y then 1 else 0) + dayoffset ! m)"
proof -
  assume "m < 12"
  then have "m = 0 \<or> m = 1 \<or> m = 2 \<or> m = 3 \<or> m = 4 \<or> m = 5 \<or> m = 6 \<or> m = 7 \<or> m = 8 \<or> m = 9 \<or>
      m = 10 \<or> m = 11" by presburger
  then show ?thesis
    by (elim disjE) (simp_all add: month_len_def dayoffset_def upt_rec [of 0] upt_rec [of "Suc _"])
qed

lemma leaps_shift:
  assumes "1969 \<le> z"
  shows "int (leaps z) = (int z - 1900) div 4 - (int z - 1900) div 100 + ((int z - 1900) div 100 + 3) div 4 + 460"
proof -
  define w where "w = int z"
  have "z div 100 \<le> z div 4" by (rule div_le_mono2) simp_all
  then have l: "int (leaps z) = w div 4 - w div 100 + w div 400"
    by (simp add: leaps_def w_def of_nat_div of_nat_diff)
  have "w div 400 = w div 100 div 4" using zdiv_zmult2_eq [of 4 w 100] by simp
  moreover have "(w - 1900) div 4 = w div 4 - 475" using div_mult_self1 [of 4 w "- 475"] by simp
  moreover have "(w - 1900) div 100 = w div 100 - 19" using div_mult_self1 [of 100 w "- 19"] by simp
  moreover have "(w div 100 - 19 + 3) div 4 = w div 100 div 4 - 4"
    using div_mult_self1 [of 4 "w div 100" "- 4"] by simp
  ultimately show ?thesis using l by (simp add: w_def)
qed

lemma civil_days_closed:
  assumes "1970 \<le> y" "m < 12"
  shows "civil_days y m d =
    (let z = int y - 1900 - (if m < 2 then 1 else 0)
     in z * 365 + z div 4 - z div 100 + (z div 100 + 3) div 4 + dayoffset ! m + d - 1 - 25508)"
proof (cases "m < 2")
  case True
  have y: "1969 \<le> y - 1" "Suc (y - 1) = y" using assms(1) by auto
  have "dayoffset ! m = 31 * int m + 306" using True by (auto simp: dayoffset_def less_2_cases_iff)
  then show ?thesis
    using years_closed [OF y(1)] leaps_shift [OF y(1)] months_closed [OF assms(2), of y] True y assms(1)
    by (simp add: civil_days_def Let_def of_nat_diff algebra_simps)
next
  case False
  have y: "1969 \<le> y - 1" "Suc (y - 1) = y" using assms(1) by auto
  have "int (leaps y) = int (leaps (y - 1)) + (if leap y then 1 else 0)" using leaps_Suc [of "y - 1"] y by simp
  then show ?thesis
    using years_closed [OF y(1)] leaps_shift [of y] months_closed [OF assms(2), of y] False y assms(1)
    by (simp add: civil_days_def Let_def of_nat_diff algebra_simps)
qed

lemma ap_tm2sec_civil:
  assumes "70 \<le> tm_year t" "0 \<le> tm_mon t" "tm_mon t < 12"
  shows "ap_tm2sec t =
    (let s = ((civil_days (nat (tm_year t + 1900)) (nat (tm_mon t)) (tm_mday t) * 24 + tm_hour t) * 60 + tm_min t) * 60 + tm_sec t
     in Some (if s < 0 then 0 else s))"
proof -
  define z where "z = (if tm_mon t < 2 then tm_year t - 1 else tm_year t)"
  define days where "days = z * 365 + z div 4 - z div 100 + (z div 100 + 3) div 4 + dayoffset ! nat (tm_mon t) + tm_mday t - 1 - 25508"
  have y: "1970 \<le> nat (tm_year t + 1900)" "nat (tm_mon t) < 12" using assms by auto
  have z: "int (nat (tm_year t + 1900)) - 1900 - (if nat (tm_mon t) < 2 then 1 else 0) = z"
    using assms by (auto simp: z_def)
  have c: "civil_days (nat (tm_year t + 1900)) (nat (tm_mon t)) (tm_mday t) = days"
    using civil_days_closed [OF y, of "tm_mday t"] unfolding z Let_def days_def .
  have "\<not> tm_year t < 70" "\<not> (tm_mon t < 0 \<or> 12 \<le> tm_mon t)" using assms by auto
  then show ?thesis unfolding c ap_tm2sec_def Let_def days_def z_def by (simp only: if_False)
qed

lemma gm_year_days:
  "1970 \<le> y \<Longrightarrow> gm_year y d = (y', d') \<Longrightarrow>
   y \<le> y' \<and> d' < year_len y' \<and>
   sum_list (map year_len [1970..<y']) + d' = sum_list (map year_len [1970..<y]) + d"
proof (induction y d rule: gm_year.induct)
  case (1 y d)
  show ?case
  proof (cases "d < year_len y")
    case True
    then show ?thesis using "1.prems" by (subst (asm) gm_year.simps) auto
  next
    case False
    then have "gm_year (y + 1) (d - year_len y) = (y', d')" using "1.prems"(2) by (subst (asm) gm_year.simps) simp
    from "1.IH" [OF False _ this] "1.prems"(1) False show ?thesis by simp
  qed
qed

lemma gm_month_days:
  "gm_month y m d = (m', d') \<Longrightarrow> m \<le> 11 \<Longrightarrow>
   sum_list (map (month_len y) [0..<m]) + d < year_len y \<Longrightarrow>
   m' \<le> 11 \<and> d' < month_len y m' \<and>
   sum_list (map (month_len y) [0..<m']) + d' = sum_list (map (month_len y) [0..<m]) + d"
proof (induction y m d rule: gm_month.induct)
  case (1 y m d)
  show ?case
  proof (cases "d < month_len y m \<or> 11 \<le> m")
    case True
    moreover have "d < month_len y m" if "11 \<le> m"
    proof -
      have "m = 11" using that "1.prems"(2) by simp
      moreover have "int (sum_list (map (month_len y) [0..<11])) = 334 + (if leap y then 1 else 0)"
        using months_closed [of 11 y] by (simp add: dayoffset_def)
      moreover have "month_len y 11 = 31" by (simp add: month_len_def)
      ultimately show ?thesis using "1.prems"(3) by (simp add: year_len_def split: if_splits)
    qed
    ultimately show ?thesis using "1.prems" by (subst (asm) gm_month.simps) auto
  next
    case False
    then have "gm_month y (m + 1) (d - month_len y m) = (m', d')" using "1.prems"(1) by (subst (asm) gm_month.simps) simp
    from "1.IH" [OF False this] "1.prems" False show ?thesis by simp
  qed
qed

lemma gmtime_fields:
  "\<exists>y mon d. gmtime t = \<lparr>tm_year = int y - 1900, tm_mon = int mon, tm_mday = int d + 1,
       tm_hour = int (t mod 86400 div 3600), tm_min = int (t mod 3600 div 60), tm_sec = int (t mod 60),
       tm_wday = int ((4 + t div 86400) mod 7)\<rparr> \<and>
     1970 \<le> y \<and> mon < 12 \<and> d < month_len y mon \<and> civil_days y mon (int d + 1) = int (t div 86400)"
proof -
  obtain y yday where y: "gm_year 1970 (t div 86400) = (y, yday)" by fastforce
  obtain mon d where m: "gm_month y 0 yday = (mon, d)" by fastforce
  note gy = gm_year_days [OF _ y]
  have "sum_list (map (month_len y) [0..<0]) + yday < year_len y" using gy by simp
  from gm_month_days [OF m _ this] have gm: "mon \<le> 11 \<and> d < month_len y mon \<and>
      sum_list (map (month_len y) [0..<mon]) + d = yday" by simp
  have "civil_days y mon (int d + 1) = int (sum_list (map year_len [1970..<y]) + (sum_list (map (month_len y) [0..<mon]) + d))"
    by (simp add: civil_days_def)
  also have "\<dots> = int (t div 86400)" using gy gm by simp
  finally have "civil_days y mon (int d + 1) = int (t div 86400)" .
  moreover have "gmtime t = \<lparr>tm_year = int y - 1900, tm_mon = int mon, tm_mday = int d + 1,
       tm_hour = int (t mod 86400 div 3600), tm_min = int (t mod 3600 div 60), tm_sec = int (t mod 60),
       tm_wday = int ((4 + t div 86400) mod 7)\<rparr>"
    unfolding gmtime_def Let_def y prod.case m by (rule refl)
  ultimately show ?thesis using gy gm by (intro exI [of _ y] exI [of _ mon] exI [of _ d]) auto
qed

lemma day_sum:
  "t = a * 86400 + r \<Longrightarrow> r = b * 3600 + r' \<Longrightarrow> r' = c * 60 + s \<Longrightarrow> ((a * 24 + b) * 60 + c) * 60 + s = (t :: nat)"
  by simp

lemma day_split: "((t div 86400 * 24 + t mod 86400 div 3600) * 60 + t mod 3600 div 60) * 60 + t mod 60 = (t :: nat)"
proof -
  have "t mod 86400 mod 3600 = t mod 3600" "t mod 3600 mod 60 = t mod 60" by (simp_all add: mod_mod_cancel)
  then have "t = t div 86400 * 86400 + t mod 86400" "t mod 86400 = t mod 86400 div 3600 * 3600 + t mod 3600"
    "t mod 3600 = t mod 3600 div 60 * 60 + t mod 60"
    using div_mult_mod_eq [of t 86400] div_mult_mod_eq [of "t mod 86400" 3600] div_mult_mod_eq [of "t mod 3600" 60]
    by presburger+
  then show ?thesis by (rule day_sum)
qed

lemma tm2sec_gmtime: "ap_tm2sec (gmtime t) = Some (int t)"
proof -
  obtain y mon d where g: "gmtime t = \<lparr>tm_year = int y - 1900, tm_mon = int mon, tm_mday = int d + 1,
       tm_hour = int (t mod 86400 div 3600), tm_min = int (t mod 3600 div 60), tm_sec = int (t mod 60),
       tm_wday = int ((4 + t div 86400) mod 7)\<rparr>"
    and f: "1970 \<le> y" "mon < 12" "civil_days y mon (int d + 1) = int (t div 86400)"
    using gmtime_fields [of t] by blast
  have pre: "70 \<le> tm_year (gmtime t)" "0 \<le> tm_mon (gmtime t)" "tm_mon (gmtime t) < 12"
    using f by (simp_all add: g)
  have n: "nat (tm_year (gmtime t) + 1900) = y" "nat (tm_mon (gmtime t)) = mon" by (simp_all add: g)
  have "((civil_days y mon (int d + 1) * 24 + int (t mod 86400 div 3600)) * 60 + int (t mod 3600 div 60)) * 60 + int (t mod 60)
      = int (((t div 86400 * 24 + t mod 86400 div 3600) * 60 + t mod 3600 div 60) * 60 + t mod 60)"
    unfolding f(3) by (simp only: of_nat_add of_nat_mult of_nat_numeral)
  also have "\<dots> = int t" by (simp only: day_split)
  finally show ?thesis unfolding ap_tm2sec_civil [OF pre] n Let_def by (simp add: g)
qed

section \<open>Reading what was printed\<close>

lemma c_digit_facts:
  assumes "0 \<le> d" "d < 10"
  shows "c_isdigit (c_digit d)" "ord (c_digit d) = nat (48 + d)"
proof -
  have "nat ((48 + d) mod 256) = nat (48 + d)" "nat (48 + d) < 256" using assms by simp_all
  then show "ord (c_digit d) = nat (48 + d)" by (simp add: c_digit_def)
  then show "c_isdigit (c_digit d)" using assms by (simp add: c_isdigit_def le_nat_iff nat_le_iff)
qed

lemma dig_c_digit: "char_at s i = c_digit d \<Longrightarrow> 0 \<le> d \<Longrightarrow> d < 10 \<Longrightarrow> dig s i = d"
  using c_digit_facts [of d] by (simp add: dig_def Let_def)

lemma skip_weekday:
  assumes "w \<in> set dps_wday"
  shows "date_format (w @ CHR '','' # CHR '' '' # r) = weekday_formats r" "c_isspace (hd w) = False" "w \<noteq> []"
proof -
  have s: "c_strchr (w @ CHR '','' # CHR '' '' # r) CHR '' '' = Some (w @ '','', CHR '' '' # r)"
    using assms c_strchr_append [of "CHR '' ''" "w @ '',''" r] by (auto simp: dps_wday_def)
  obtain a b c where w: "w = [a, b, c]" "\<not> c_isdigit a" "\<not> c_isspace a"
    using assms unfolding dps_wday_def by (auto simp: c_isdigit_def c_isspace_def)
  have n: "\<not> ap_checkmask (w @ CHR '','' # CHR '' '' # r) (CHR ''#'' # m)"
    "\<not> ap_checkmask (w @ CHR '','' # CHR '' '' # r) ''@$$ ~#, ####*''" for m
    using w by (simp_all add: char_at_def)
  show "date_format (w @ CHR '','' # CHR '' '' # r) = weekday_formats r"
    unfolding date_format_def by (simp only: n s if_False simp_thms) simp
  show "c_isspace (hd w) = False" "w \<noteq> []" using w by simp_all
qed

lemma month_cases:
  assumes "m < 12"
  shows "\<exists>p q r. dps_mon ! m = [p, q, r] \<and> c_isupper p \<and> c_islower q \<and> c_islower r \<and>
    (\<forall>s. month_index (p # q # r # s) dps_mon 0 = Some (int m))"
proof -
  have "m = 0 \<or> m = 1 \<or> m = 2 \<or> m = 3 \<or> m = 4 \<or> m = 5 \<or> m = 6 \<or> m = 7 \<or> m = 8 \<or> m = 9 \<or>
      m = 10 \<or> m = 11" using assms by presburger
  then show ?thesis by (elim disjE) (simp_all add: dps_mon_def c_isupper_def c_islower_def)
qed

definition digit10 :: "int \<Rightarrow> bool" where
  "digit10 d \<longleftrightarrow> 0 \<le> d \<and> d < 10"

lemma weekday_formats_1123:
  assumes d: "list_all digit10 [a, b, y1, y2, y3, y4, h1, h2, i1, i2, s1, s2]"
    and m: "c_isupper p" "c_islower q" "c_islower r"
  defines "R \<equiv> c_digit a # c_digit b # CHR '' '' # p # q # r # CHR '' '' #
      c_digit y1 # c_digit y2 # c_digit y3 # c_digit y4 # CHR '' '' # c_digit h1 # c_digit h2 # CHR '':'' #
      c_digit i1 # c_digit i2 # CHR '':'' # c_digit s1 # c_digit s2 # '' GMT''"
  shows "weekday_formats R = with_year R 7 (\<lambda>y. Fmt (tm_zero\<lparr>tm_year := y, tm_mday := two R 0\<rparr>)
      (Some (drop 3 R)) (Some (drop 12 R)) (Some ''GMT''))"
    "two R 0 = a * 10 + b" "two R 7 = y1 * 10 + y2" "two R 9 = y3 * 10 + y4"
    "two (drop 12 R) 0 = h1 * 10 + h2" "two (drop 12 R) 3 = i1 * 10 + i2" "two (drop 12 R) 6 = s1 * 10 + s2"
    "drop 3 R = p # q # r # drop 6 R"
proof -
  have dd: "c_isdigit (c_digit x)" if "x \<in> {a, b, y1, y2, y3, y4, h1, h2, i1, i2, s1, s2}" for x
    using that d c_digit_facts(1) by (auto simp: digit10_def)
  have "ap_checkmask R ''## @$$ #### ##:##:## *''"
    unfolding R_def using m by (simp add: char_at_def dd)
  then show "weekday_formats R = with_year R 7 (\<lambda>y. Fmt (tm_zero\<lparr>tm_year := y, tm_mday := two R 0\<rparr>)
      (Some (drop 3 R)) (Some (drop 12 R)) (Some ''GMT''))"
    unfolding weekday_formats_def by (simp add: R_def)
  show "two R 0 = a * 10 + b" "two R 7 = y1 * 10 + y2" "two R 9 = y3 * 10 + y4"
    "two (drop 12 R) 0 = h1 * 10 + h2" "two (drop 12 R) 3 = i1 * 10 + i2" "two (drop 12 R) 6 = s1 * 10 + s2"
    "drop 3 R = p # q # r # drop 6 R"
    using d by (simp_all add: R_def two_def dig_c_digit char_at_def digit10_def)
qed

lemma civil_year_bound: "civil_days y m (int d + 1) < 2932897 \<Longrightarrow> y < 10000"
proof (rule ccontr)
  assume c: "civil_days y m (int d + 1) < 2932897" "\<not> y < 10000"
  then have y: "y = Suc (y - 1)" "1969 \<le> y - 1" by auto
  have "int (sum_list (map year_len [1970..<y])) = 365 * (int (y - 1) - 1969) + int (leaps (y - 1)) - 477"
    using years_closed [OF y(2)] y(1) by simp
  moreover have "leaps 9999 \<le> leaps (y - 1)"
    using lift_Suc_mono_le [of leaps 9999 "y - 1"] leaps_Suc c(2) by fastforce
  moreover have "leaps 9999 = 2424" by (simp add: leaps_def)
  ultimately show False using c by (simp add: civil_days_def of_nat_diff)
qed

lemma month_len_31: "m < 12 \<Longrightarrow> month_len y m \<le> 31"
  using nth_mem [of m "[31, 28, 31, 30, 31, 30, 31, 31, 30, 31, 30, 31] :: nat list"]
  by (auto simp: month_len_def)

lemma leap_tm:
  "(int y - 1900) mod 4 \<noteq> 0 \<or> (int y - 1900) mod 100 = 0 \<and> (int y - 1900) mod 400 \<noteq> 100 \<longleftrightarrow> \<not> leap y"
proof -
  have "(int y - 1900) mod 4 = int y mod 4" using mod_mult_self2 [of "int y" 4 "- 475"] by simp
  moreover have "int y mod 4 = 0 \<longleftrightarrow> y mod 4 = 0" using of_nat_mod [of y 4] by (metis of_nat_eq_0_iff of_nat_numeral)
  moreover have "(int y - 1900) mod 100 = int y mod 100" using mod_mult_self2 [of "int y" 100 "- 19"] by simp
  moreover have "int y mod 100 = 0 \<longleftrightarrow> y mod 100 = 0" using of_nat_mod [of y 100] by (metis of_nat_eq_0_iff of_nat_numeral)
  moreover have "(int y - 1900) mod 400 = (int y + 100) mod 400"
    using mod_mult_self2 [of "int y + 100" 400 "- 5"] by simp
  moreover have "(int y + 100) mod 400 = 100 \<longleftrightarrow> y mod 400 = 0"
    using mod_eq_dvd_iff [of "int y + 100" 400 100] int_dvd_int_iff [of 400 y] by (simp add: mod_eq_0_iff_dvd)
  ultimately show ?thesis unfolding leap_def by metis
qed

lemma day_check:
  assumes "m < 12" "d < month_len y m" "tm_year ds = int y - 1900" "tm_mday ds = int d + 1" "tm_mon ds = int m"
  shows "check_day ds tz = (case ap_tm2sec ds of None \<Rightarrow> None | Some t \<Rightarrow> dps_tz_adjust t tz)"
proof -
  have a: "\<not> (int d + 1 = 31 \<and> (int m = 3 \<or> int m = 5 \<or> int m = 8 \<or> int m = 10))"
    using assms(2) by (auto simp: month_len_def)
  have "d < 28 \<or> d = 28 \<and> leap y" if "m = 1"
    using assms(2) that by (auto simp: month_len_def split: if_splits)
  then have b: "\<not> (int m = 1 \<and> (int d + 1 > 29 \<or> (int d + 1 = 29 \<and> \<not> leap y)))" by auto
  show ?thesis unfolding check_day_def assms(3-5) leap_tm using a b by (simp only: if_False)
qed

lemma ap_tm2sec_cong:
  "tm_year a = tm_year b \<Longrightarrow> tm_mon a = tm_mon b \<Longrightarrow> tm_mday a = tm_mday b \<Longrightarrow> tm_hour a = tm_hour b \<Longrightarrow>
   tm_min a = tm_min b \<Longrightarrow> tm_sec a = tm_sec b \<Longrightarrow> ap_tm2sec a = ap_tm2sec b"
  by (simp only: ap_tm2sec_def)

lemma tz_GMT: "dps_tz_adjust t (Some ''GMT'') = Some t"
proof -
  have "find (\<lambda>z. dps_tz_cmp (''GMT'', 0, 0) z = 0) time_zones = Some (''GMT'', 1, 0)" by code_simp
  moreover have "\<not> c_strncaseeq ''GMT'' ''PM '' 3" "\<not> c_strncaseeq ''GMT'' ''AM '' 3" by code_simp+
  ultimately show ?thesis by (simp add: dps_tz_adjust_def char_at_def)
qed

lemma put_two_digits:
  assumes "lo \<le> v" "v < hi" "0 \<le> lo" "hi \<le> 100"
  shows "\<exists>a b. put_two lo hi v sep = [c_digit a, c_digit b, sep] \<and> digit10 a \<and> digit10 b \<and> a * 10 + b = v"
proof -
  have "put_two lo hi v sep = [c_digit (v div 10), c_digit (v - v div 10 * 10), sep]" using assms by (simp add: put_two_def)
  moreover have "digit10 (v div 10)" "digit10 (v - v div 10 * 10)"
    using assms by (auto simp: digit10_def minus_div_mult_eq_mod)
  ultimately show ?thesis by (intro exI [of _ "v div 10"] exI [of _ "v - v div 10 * 10"]) simp
qed

lemma put_year_digits:
  assumes "0 \<le> year" "year < 10000"
  shows "\<exists>y1 y2 y3 y4. put_year year = [c_digit y1, c_digit y2, c_digit y3, c_digit y4, CHR '' ''] \<and>
    digit10 y1 \<and> digit10 y2 \<and> digit10 y3 \<and> digit10 y4 \<and> y1 * 10 + y2 = year div 100 \<and> y3 * 10 + y4 = year mod 100"
proof -
  define y1 where "y1 = year div 1000"
  define r1 where "r1 = year - y1 * 1000"
  define y2 where "y2 = r1 div 100"
  define r2 where "r2 = r1 - y2 * 100"
  define y3 where "y3 = r2 div 10"
  define y4 where "y4 = r2 - y3 * 10"
  have str: "put_year year = [c_digit y1, c_digit y2, c_digit y3, c_digit y4, CHR '' '']"
    unfolding put_year_def Let_def y4_def y3_def r2_def y2_def r1_def y1_def by (rule refl)
  have r1: "0 \<le> r1" "r1 < 1000" by (simp_all add: r1_def y1_def minus_div_mult_eq_mod)
  have r2: "0 \<le> r2" "r2 < 100" by (simp_all add: r2_def y2_def minus_div_mult_eq_mod)
  have d: "digit10 y1" "digit10 y2" "digit10 y3" "digit10 y4"
    using assms r1 r2 by (auto simp: digit10_def y1_def y2_def y3_def y4_def minus_div_mult_eq_mod)
  have year: "year = (y1 * 10 + y2) * 100 + r2" "y3 * 10 + y4 = r2" by (simp_all add: r1_def r2_def y4_def)
  have "year div 100 = y1 * 10 + y2" "year mod 100 = r2"
    using r2 div_mult_self3 [of 100 "y1 * 10 + y2" r2] mod_mult_self3 [of "y1 * 10 + y2" 100 r2]
    unfolding year(1) by simp_all
  with str d year(2) show ?thesis by (intro exI [of _ y1] exI [of _ y2] exI [of _ y3] exI [of _ y4]) simp
qed

lemma http_str_digits:
  assumes "0 \<le> tm_wday x" "tm_wday x < 7" "1 \<le> tm_mday x" "tm_mday x < 32" "0 \<le> tm_mon x" "tm_mon x < 12"
    "0 \<le> tm_hour x" "tm_hour x < 24" "0 \<le> tm_min x" "tm_min x < 60" "0 \<le> tm_sec x" "tm_sec x < 60"
    "0 \<le> 1900 + tm_year x" "1900 + tm_year x < 10000" "dps_mon ! nat (tm_mon x) = [p, q, r]"
  shows "\<exists>w a b y1 y2 y3 y4 h1 h2 i1 i2 s1 s2. w \<in> set dps_wday \<and>
      list_all digit10 [a, b, y1, y2, y3, y4, h1, h2, i1, i2, s1, s2] \<and>
      http_str x = w @ CHR '','' # CHR '' '' # c_digit a # c_digit b # CHR '' '' # p # q # r # CHR '' '' #
        c_digit y1 # c_digit y2 # c_digit y3 # c_digit y4 # CHR '' '' # c_digit h1 # c_digit h2 # CHR '':'' #
        c_digit i1 # c_digit i2 # CHR '':'' # c_digit s1 # c_digit s2 # '' GMT'' \<and>
      a * 10 + b = tm_mday x \<and> y1 * 10 + y2 = (1900 + tm_year x) div 100 \<and> y3 * 10 + y4 = (1900 + tm_year x) mod 100 \<and>
      h1 * 10 + h2 = tm_hour x \<and> i1 * 10 + i2 = tm_min x \<and> s1 * 10 + s2 = tm_sec x"
proof -
  obtain a b where a: "put_two 1 32 (tm_mday x) CHR '' '' = [c_digit a, c_digit b, CHR '' '']" "digit10 a" "digit10 b" "a * 10 + b = tm_mday x"
    using put_two_digits [of 1 "tm_mday x" 32] assms by fastforce
  obtain h1 h2 where h: "put_two 0 24 (tm_hour x) CHR '':'' = [c_digit h1, c_digit h2, CHR '':'']" "digit10 h1" "digit10 h2" "h1 * 10 + h2 = tm_hour x"
    using put_two_digits [of 0 "tm_hour x" 24] assms by fastforce
  obtain i1 i2 where i: "put_two 0 60 (tm_min x) CHR '':'' = [c_digit i1, c_digit i2, CHR '':'']" "digit10 i1" "digit10 i2" "i1 * 10 + i2 = tm_min x"
    using put_two_digits [of 0 "tm_min x" 60] assms by fastforce
  obtain s1 s2 where s: "put_two 0 60 (tm_sec x) CHR '' '' = [c_digit s1, c_digit s2, CHR '' '']" "digit10 s1" "digit10 s2" "s1 * 10 + s2 = tm_sec x"
    using put_two_digits [of 0 "tm_sec x" 60] assms by fastforce
  obtain y1 y2 y3 y4 where y: "put_year (1900 + tm_year x) = [c_digit y1, c_digit y2, c_digit y3, c_digit y4, CHR '' '']"
    "digit10 y1" "digit10 y2" "digit10 y3" "digit10 y4" "y1 * 10 + y2 = (1900 + tm_year x) div 100" "y3 * 10 + y4 = (1900 + tm_year x) mod 100"
    using put_year_digits [OF assms(13,14)] by blast
  have w: "dps_wday ! nat (tm_wday x) \<in> set dps_wday"
    by (rule nth_mem) (use assms(1,2) in \<open>simp add: dps_wday_def nat_less_iff\<close>)
  have "http_str x = dps_wday ! nat (tm_wday x) @ CHR '','' # CHR '' '' # c_digit a # c_digit b # CHR '' '' # p # q # r # CHR '' '' #
        c_digit y1 # c_digit y2 # c_digit y3 # c_digit y4 # CHR '' '' # c_digit h1 # c_digit h2 # CHR '':'' #
        c_digit i1 # c_digit i2 # CHR '':'' # c_digit s1 # c_digit s2 # '' GMT''"
    unfolding http_str_def a(1) h(1) i(1) s(1) y(1) assms(15) using assms(1,2,5,6) by simp
  moreover have "list_all digit10 [a, b, y1, y2, y3, y4, h1, h2, i1, i2, s1, s2]"
    using a(2,3) h(2,3) i(2,3) s(2,3) y(2-5) by simp
  ultimately show ?thesis using w a(4) h(4) i(4) s(4) y(6,7) by blast
qed

section \<open>Properties\<close>

text \<open>
  C10. \<^verbatim>\<open>ap_tm2sec\<close> computes, without a loop, the seconds that counting the days of the
  years since 1970 and of the months before gives, with the leap years of the Gregorian calendar;
  for every month, and whatever the day, hour, minute and second are.
\<close>

theorem ap_tm2sec_reference:
  "70 \<le> tm_year t \<Longrightarrow> 0 \<le> tm_mon t \<Longrightarrow> tm_mon t < 12 \<Longrightarrow>
   ap_tm2sec t =
     Some (max 0 (((civil_days (nat (tm_year t + 1900)) (nat (tm_mon t)) (tm_mday t) * 24 + tm_hour t) * 60
       + tm_min t) * 60 + tm_sec t))"
  using ap_tm2sec_civil [of t] by (simp add: Let_def max_def)

theorem ap_tm2sec_reference_witness:
  "ap_tm2sec (tm_zero\<lparr>tm_year := 72, tm_mon := 2, tm_mday := 1\<rparr>) = Some 68256000"
proof -
  let ?t = "tm_zero\<lparr>tm_year := 72, tm_mon := 2, tm_mday := 1\<rparr>"
  have "sum_list (map year_len [1970..<1972]) = 730" "sum_list (map (month_len 1972) [0..<2]) = 60" by code_simp+
  then have "civil_days 1972 2 1 = 790" by (simp add: civil_days_def)
  moreover have "tm_year ?t = 72" "tm_mon ?t = 2" "tm_mday ?t = 1" "tm_hour ?t = 0" "tm_min ?t = 0" "tm_sec ?t = 0"
    by (simp_all add: tm_zero_def)
  ultimately show ?thesis using ap_tm2sec_reference [of ?t] by simp
qed

text \<open>
  C9. Round trip: \<^verbatim>\<open>DpsHttpDate2Time_t\<close> reads the string that \<^verbatim>\<open>DpsTime_t2HttpStr\<close> prints
  for a time back to that time, for every second from 1970 to the end of the year 9999.
\<close>

theorem DpsHttpDate_roundtrip:
  "t < 253402300800 \<Longrightarrow> DpsHttpDate2Time_t (Some (DpsTime_t2HttpStr t)) = Some (int t)"
proof -
  assume t: "t < 253402300800"
  obtain y mon d where g: "gmtime t = \<lparr>tm_year = int y - 1900, tm_mon = int mon, tm_mday = int d + 1,
       tm_hour = int (t mod 86400 div 3600), tm_min = int (t mod 3600 div 60), tm_sec = int (t mod 60),
       tm_wday = int ((4 + t div 86400) mod 7)\<rparr>"
    and f: "1970 \<le> y" "mon < 12" "d < month_len y mon" "civil_days y mon (int d + 1) = int (t div 86400)"
    using gmtime_fields [of t] by blast
  have y: "y < 10000" by (rule civil_year_bound [of y mon d]) (use t f(4) in simp)
  obtain p q r where m: "dps_mon ! mon = [p, q, r]" "c_isupper p" "c_islower q" "c_islower r"
    and mi: "month_index (p # q # r # s) dps_mon 0 = Some (int mon)" for s
    using month_cases [OF f(2)] by blast
  have d31: "d < 31" using f(3) month_len_31 [OF f(2), of y] by simp
  have h: "t mod 86400 div 3600 < 24" "t mod 3600 div 60 < 60" by (simp_all add: div_less_iff_less_mult)
  have pre: "0 \<le> tm_wday (gmtime t)" "tm_wday (gmtime t) < 7" "1 \<le> tm_mday (gmtime t)" "tm_mday (gmtime t) < 32"
    "0 \<le> tm_mon (gmtime t)" "tm_mon (gmtime t) < 12" "0 \<le> tm_hour (gmtime t)" "tm_hour (gmtime t) < 24"
    "0 \<le> tm_min (gmtime t)" "tm_min (gmtime t) < 60" "0 \<le> tm_sec (gmtime t)" "tm_sec (gmtime t) < 60"
    using f(2) h d31 by (simp_all add: g)
  have "0 \<le> 1900 + tm_year (gmtime t)" "1900 + tm_year (gmtime t) < 10000" "dps_mon ! nat (tm_mon (gmtime t)) = [p, q, r]"
    using y m(1) by (simp_all add: g)
  from http_str_digits [OF pre this] obtain w a b y1 y2 y3 y4 h1 h2 i1 i2 s1 s2 where w: "w \<in> set dps_wday"
    and dl: "list_all digit10 [a, b, y1, y2, y3, y4, h1, h2, i1, i2, s1, s2]"
    and str: "http_str (gmtime t) = w @ CHR '','' # CHR '' '' # c_digit a # c_digit b # CHR '' '' # p # q # r # CHR '' '' #
        c_digit y1 # c_digit y2 # c_digit y3 # c_digit y4 # CHR '' '' # c_digit h1 # c_digit h2 # CHR '':'' #
        c_digit i1 # c_digit i2 # CHR '':'' # c_digit s1 # c_digit s2 # '' GMT''"
    and v: "a * 10 + b = tm_mday (gmtime t)" "y1 * 10 + y2 = (1900 + tm_year (gmtime t)) div 100"
      "y3 * 10 + y4 = (1900 + tm_year (gmtime t)) mod 100"
      "h1 * 10 + h2 = tm_hour (gmtime t)" "i1 * 10 + i2 = tm_min (gmtime t)" "s1 * 10 + s2 = tm_sec (gmtime t)"
    by (elim exE conjE) (rule that)
  let ?R = "c_digit a # c_digit b # CHR '' '' # p # q # r # CHR '' '' #
        c_digit y1 # c_digit y2 # c_digit y3 # c_digit y4 # CHR '' '' # c_digit h1 # c_digit h2 # CHR '':'' #
        c_digit i1 # c_digit i2 # CHR '':'' # c_digit s1 # c_digit s2 # '' GMT''"
  note R = weekday_formats_1123 [OF dl m(2-4)]
  have "19 \<le> (1900 + tm_year (gmtime t)) div 100" using f(1) by (simp add: g)
  then have pos: "\<not> ((1900 + tm_year (gmtime t)) div 100 - 19) * 100 < 0" by simp
  have yr: "((1900 + tm_year (gmtime t)) div 100 - 19) * 100 + (1900 + tm_year (gmtime t)) mod 100 = tm_year (gmtime t)"
    using div_mult_mod_eq [of "1900 + tm_year (gmtime t)" 100] by (simp only: left_diff_distrib)
  have two9: "two ?R (7 + 2) = (1900 + tm_year (gmtime t)) mod 100" using R(4) v(3) by simp
  let ?ds = "tm_zero\<lparr>tm_year := tm_year (gmtime t), tm_mday := tm_mday (gmtime t)\<rparr>"
  have fmt: "date_format (http_str (gmtime t)) = Fmt ?ds (Some (drop 3 ?R)) (Some (drop 12 ?R)) (Some ''GMT'')"
    unfolding str skip_weekday(1) [OF w] R(1) with_year_def R(2,3) two9 v(1,2) Let_def if_not_P [OF pos] yr by (rule refl)
  let ?ds1 = "?ds\<lparr>tm_hour := tm_hour (gmtime t), tm_min := tm_min (gmtime t), tm_sec := tm_sec (gmtime t)\<rparr>"
  let ?ds' = "?ds1\<lparr>tm_mon := int mon\<rparr>"
  have "ap_tm2sec ?ds' = ap_tm2sec (gmtime t)" by (rule ap_tm2sec_cong) (simp_all add: g)
  then have same: "ap_tm2sec ?ds' = Some (int t)" by (simp only: tm2sec_gmtime)
  have "check_day ?ds' (Some ''GMT'') = (case ap_tm2sec ?ds' of None \<Rightarrow> None | Some t \<Rightarrow> dps_tz_adjust t (Some ''GMT''))"
    by (rule day_check [OF f(2,3)]) (simp_all add: g)
  then have day: "check_day ?ds' (Some ''GMT'') = Some (int t)" by (simp only: same option.case tz_GMT)
  have fields: "\<not> (tm_mday ?ds \<le> 0 \<or> 31 < tm_mday ?ds)"
    "\<not> (23 < tm_hour ?ds1 \<or> 59 < tm_min ?ds1 \<or> 61 < tm_sec ?ds1)" using h d31 by (simp_all add: g)
  have "check_fields (Fmt ?ds (Some (drop 3 ?R)) (Some (drop 12 ?R)) (Some ''GMT'')) =
      check_month ?ds1 (Some (drop 3 ?R)) (Some ''GMT'')"
    unfolding check_fields_def date_fmt.case option.case Let_def R(5-7) v(4-6) if_not_P [OF fields(1)] if_not_P [OF fields(2)]
    by (rule refl)
  also have "\<dots> = check_day ?ds' (Some ''GMT'')"
    unfolding check_month_def option.case R(8) mi by (rule refl)
  finally have "check_fields (Fmt ?ds (Some (drop 3 ?R)) (Some (drop 12 ?R)) (Some ''GMT'')) = Some (int t)"
    using day by (rule trans)
  moreover have "dropWhile c_isspace (http_str (gmtime t)) = http_str (gmtime t)" "http_str (gmtime t) \<noteq> []"
    unfolding str using skip_weekday(2,3) [OF w] by (cases w; simp)+
  ultimately show ?thesis by (simp add: DpsHttpDate2Time_t_def DpsTime_t2HttpStr_def fmt)
qed

theorem DpsHttpDate_roundtrip_witness:
  "DpsHttpDate2Time_t (Some (DpsTime_t2HttpStr 951868799)) = Some 951868799"
  using DpsHttpDate_roundtrip [of 951868799] by simp

section \<open>The table of zones\<close>

lemma time_zones_adjacent: "successively (\<lambda>a b. dps_tz_cmp a b < 0) time_zones"
  by (simp add: time_zones_def dps_tz_cmp_def c_tolower_def c_isupper_def)

lemma time_zones_sorted: "sorted_wrt (\<lambda>a b. dps_tz_cmp a b < 0) time_zones"
proof -
  have "dps_tz_cmp a c < 0" if "dps_tz_cmp a b < 0" "dps_tz_cmp b c < 0" for a b c
    using that names.cmp_trans [of "fst c" "fst a" "fst b"] names.cmp_flip [of "fst b" "fst c"]
      names.flip_le [of "fst c" "fst a"] unfolding dps_tz_cmp_def by linarith
  then have "transp (\<lambda>a b. dps_tz_cmp a b < 0)" by (rule transpI)
  then show ?thesis using time_zones_adjacent by (simp add: successively_conv_sorted_wrt)
qed

text \<open>So a name is at most once in the table, and every search that finds it finds the same entry.\<close>

lemma time_zones_unique:
  assumes "z \<in> set time_zones" "dps_tz_cmp key z = 0"
  shows "find (\<lambda>z. dps_tz_cmp key z = 0) time_zones = Some z"
proof -
  have "w = z" if w: "w \<in> set time_zones" "dps_tz_cmp key w = 0" for w
  proof -
    obtain i j where i: "i < length time_zones" "time_zones ! i = w" and j: "j < length time_zones" "time_zones ! j = z"
      using w(1) assms(1) by (auto simp: in_set_conv_nth)
    have e: "dps_tz_cmp w z = 0" "dps_tz_cmp z w = 0"
      using w(2) assms(2) by (simp_all add: dps_tz_cmp_def strcasecmp_0_iff)
    have "i = j"
    proof (rule linorder_cases [of i j])
      assume "i < j"
      then show ?thesis using sorted_wrt_nth_less [OF time_zones_sorted _ j(1), of i] i j e by simp
    next
      assume "j < i"
      then show ?thesis using sorted_wrt_nth_less [OF time_zones_sorted _ i(1), of j] i j e by simp
    qed
    with i j show ?thesis by simp
  qed
  then have unique: "\<And>w. w \<in> set time_zones \<Longrightarrow> dps_tz_cmp key w = 0 \<Longrightarrow> w = z" by blast
  show ?thesis
  proof (cases "find (\<lambda>z. dps_tz_cmp key z = 0) time_zones")
    case None
    then show ?thesis using assms unfolding find_None_iff by blast
  next
    case (Some w)
    then obtain i where "i < length time_zones" "dps_tz_cmp key (time_zones ! i) = 0" "w = time_zones ! i"
      by (auto simp only: find_Some_iff)
    then show ?thesis using unique [of w] Some by (simp only: nth_mem)
  qed
qed

section \<open>Periods\<close>

lemma dec_number_digits:
  "list_all c_isdigit ds \<Longrightarrow> \<not> c_isdigit (char_at r 0) \<Longrightarrow> dec_number acc (ds @ r) = (base_number 10 acc ds, r)"
proof (induction ds arbitrary: acc)
  case Nil
  then show ?case by (cases r) (simp_all add: char_at_def)
next
  case (Cons d ds)
  have "base_digit d = Some (ord d - 48)" "ord d - 48 < 10" "int (ord d - 48) = int (ord d) - 48"
    using Cons.prems(1) by (auto simp: base_digit_def c_isdigit_def)
  then show ?case using Cons by simp
qed

lemma strtol10_digits:
  assumes "\<not> c_isdigit (char_at r 0)" "n < 2 ^ 63"
  shows "c_strtol10 (nat_digits n @ r) = Some (int n, r)"
proof -
  obtain c s where c: "nat_digits n = c # s" using nat_digits_first [of n] by blast
  then have d: "c_isdigit c" using nat_digits_digit [of n] by simp
  then have nc: "\<not> c_isspace c" "c \<noteq> CHR ''-''" "c \<noteq> CHR ''+''" by (auto simp: c_isdigit_def c_isspace_def)
  have "dec_number 0 (nat_digits n @ r) = (int n, r)"
    using dec_number_digits [OF nat_digits_digit assms(1)] by (simp add: base_number_digits)
  moreover have "dropWhile c_isspace (nat_digits n @ r) = nat_digits n @ r" "char_at (nat_digits n @ r) 0 = c"
    using nc c by (simp_all add: char_at_def)
  ultimately show ?thesis using nc d assms(2) by (simp add: c_strtol10_def)
qed

definition show_period :: "(nat \<times> char) list \<Rightarrow> string" where
  "show_period ps = concat (map (\<lambda>(n, u). nat_digits n @ [u]) ps)"

definition period_sum :: "(nat \<times> char) list \<Rightarrow> int" where
  "period_sum ps = sum_list (map (\<lambda>(n, u). int n * the (period_unit u)) ps)"

lemma period_unit_facts:
  "period_unit c = Some m \<Longrightarrow> 1 \<le> m \<and> m < 2 ^ 25 \<and> \<not> c_isdigit c \<and> \<not> c_isspace c"
  by (auto simp: period_unit_def c_isdigit_def c_isspace_def split: if_splits)

lemma period_sum_pos: "list_all (\<lambda>(n, u). period_unit u \<noteq> None) ps \<Longrightarrow> 0 \<le> period_sum ps"
proof (induction ps)
  case (Cons p ps)
  then obtain n u m where "p = (n, u)" "period_unit u = Some m" by (cases p) auto
  with Cons period_unit_facts [of u m] show ?case by (simp add: period_sum_def)
qed (simp add: period_sum_def)

lemma dp2time_loop_sum:
  "ps \<noteq> [] \<Longrightarrow> list_all (\<lambda>(n, u). period_unit u \<noteq> None) ps \<Longrightarrow> 0 \<le> t \<Longrightarrow> t + period_sum ps < 2 ^ 63 \<Longrightarrow>
   dp2time_loop t flag (show_period ps) = Some (t + period_sum ps)"
proof (induction ps arbitrary: t flag)
  case (Cons p ps)
  obtain n u m where p: "p = (n, u)" "period_unit u = Some m" using Cons.prems(2) by (cases p) auto
  have ps: "list_all (\<lambda>(n, u). period_unit u \<noteq> None) ps" "0 \<le> period_sum ps"
    using Cons.prems(2) period_sum_pos [of ps] by simp_all
  have m: "1 \<le> m" "\<not> c_isdigit u" "\<not> c_isspace u" using period_unit_facts [OF p(2)] by simp_all
  have sum: "period_sum (p # ps) = int n * m + period_sum ps" using p by (simp add: period_sum_def)
  then have lim: "t + int n * m < 2 ^ 63" using Cons.prems(4) ps(2) by linarith
  have "int n * 1 \<le> int n * m" using m(1) by (intro mult_left_mono) simp_all
  then have n: "n < 2 ^ 63" "0 \<le> int n * m" using lim Cons.prems(3) by simp_all
  have str: "show_period (p # ps) = nat_digits n @ u # show_period ps" using p(1) by (simp add: show_period_def)
  have "c_strtol10 (show_period (p # ps)) = Some (int n, u # show_period ps)"
    unfolding str by (rule strtol10_digits) (use m(2) n(1) in \<open>simp_all add: char_at_def\<close>)
  moreover have "c_long (int n * m) = Some (int n * m)" "c_long (t + int n * m) = Some (t + int n * m)"
    using lim n(2) Cons.prems(3) by (simp_all add: c_long_def)
  ultimately have step: "dp2time_loop t flag (show_period (p # ps)) =
      (if show_period ps = [] then Some (t + int n * m) else dp2time_loop (t + int n * m) True (show_period ps))"
    using m(3) p(2) by (subst dp2time_loop.simps) simp
  show ?case
  proof (cases "ps = []")
    case True
    then show ?thesis using step sum by (simp add: show_period_def period_sum_def)
  next
    case False
    then have "show_period ps \<noteq> []" by (cases ps) (auto simp: show_period_def)
    moreover have "dp2time_loop (t + int n * m) True (show_period ps) = Some (t + int n * m + period_sum ps)"
      by (rule Cons.IH) (use False ps Cons.prems(3,4) n(2) sum in simp_all)
    ultimately show ?thesis using step sum by (simp add: add.assoc)
  qed
qed simp

text \<open>
  C11. A period such as \<^verbatim>\<open>1d12h\<close> is read as the sum of its numbers times their units, for any
  number of them in any order, as long as the sum is a 64-bit number of seconds.
\<close>

theorem Dps_dp2time_t_sum:
  "ps \<noteq> [] \<Longrightarrow> list_all (\<lambda>(n, u). period_unit u \<noteq> None) ps \<Longrightarrow> period_sum ps < 2 ^ 63 \<Longrightarrow>
   Dps_dp2time_t (Some (show_period ps)) = Some (period_sum ps)"
proof -
  assume a: "ps \<noteq> []" "list_all (\<lambda>(n, u). period_unit u \<noteq> None) ps" "period_sum ps < 2 ^ 63"
  have "show_period ps \<noteq> []" using a(1) by (cases ps) (auto simp: show_period_def)
  then show ?thesis using dp2time_loop_sum [OF a(1,2), of 0 False] a(3) by (simp add: Dps_dp2time_t_def)
qed

theorem Dps_dp2time_t_sum_witness:
  "Dps_dp2time_t (Some (show_period [(1, CHR ''d''), (12, CHR ''h'')])) = Some 129600"
  using Dps_dp2time_t_sum [of "[(1, CHR ''d''), (12, CHR ''h'')]"]
  by (simp add: period_sum_def period_unit_def)

section \<open>Dates the functions get wrong\<close>

text \<open>
  The month of an ISO date and of an FTP date is not checked before it selects an entry of
  \<^verbatim>\<open>dayoffset\<close>: the read is outside the array.
\<close>

lemma month_not_checked:
  "DpsHttpDate2Time_t (Some ''2013-13-01T00:00:00Z'') = None"
  "DpsHttpDate2Time_t (Some ''00/25/2013'') = None"
  "DpsFTPDate2Time_t ''213 20130001000000'' = None"
  by code_simp+

text \<open>
  A zone as RFC 822 has it, without a colon, is taken for 1:12 hours instead of 2: the minutes are
  looked for at the place they have after a colon.
\<close>

lemma zone_without_colon:
  "DpsHttpDate2Time_t (Some ''Sun, 06 Nov 1994 08:49:37 +02:00'') = Some 784104577"
  "DpsHttpDate2Time_t (Some ''Sun, 06 Nov 1994 08:49:37 +0200'') = Some (784104577 + 2880)"
  by code_simp+

end
