(* ===== verification/Dps_Href.thy ===== *)
theory Dps_Href
  imports Dps_Str Dps_Chars Dps_Search
begin

text \<open>
  The cache of the links found in documents (\<^verbatim>\<open>src/hrefs.c\<close>): an array whose first
  \<^verbatim>\<open>shrefs\<close> elements are sorted by URL and searched by halving, and whose tail is searched one
  by one until it is long enough to be sorted in. \<^verbatim>\<open>DpsSort\<close> is the sorting function the build
  selects; it is the argument \<open>dpsort\<close>. The weight of a link, a \<^verbatim>\<open>float\<close> that is only
  copied, has a type variable as its type.
\<close>

section \<open>Links\<close>

record 'w dps_href =
  h_url :: string
  h_referrer :: int
  h_hops :: u32
  h_stored :: int
  h_checked :: int
  h_method :: int
  h_charset_id :: int
  h_delay :: int
  h_site_id :: int
  h_server_id :: int
  h_weight :: 'w

record 'w hreflist =
  l_shrefs :: nat
  l_dhrefs :: nat
  l_Href :: "'w dps_href list"

fun c_strcmp :: "string \<Rightarrow> string \<Rightarrow> int" where
  "c_strcmp [] [] = 0"
| "c_strcmp [] (b # t) = - 1"
| "c_strcmp (a # s) [] = 1"
| "c_strcmp (a # s) (b # t) = (if a = b then c_strcmp s t else if ord a < ord b then - 1 else 1)"

definition cmphrefs :: "'w dps_href \<Rightarrow> 'w dps_href \<Rightarrow> int" where
  "cmphrefs v1 v2 = c_strcmp (h_url v1) (h_url v2)"

section \<open>Adding a link\<close>

text \<open>
  The host name to lower case: from the first at sign, if there is one, to the slash after the
  host.
\<close>

definition lower_host :: "string \<Rightarrow> string" where
  "lower_host ehref =
    (case c_strstr ehref ''://'' of
       None \<Rightarrow> ehref
     | Some (scheme, s) \<Rightarrow>
         (case c_strchr (drop 3 s) CHR ''/'' of
            None \<Rightarrow> ehref
          | Some (host, path) \<Rightarrow>
              let ss = (case c_strchr (drop 3 s) CHR ''@'' of None \<Rightarrow> 0 | Some (user, _) \<Rightarrow> length user)
              in scheme @ ''://'' @ take ss host @
                 map (\<lambda>c. if c_isupper c then dps_tolower c else c) (drop ss host) @ path))"

text \<open>
  The form of a URL in the list. \<^verbatim>\<open>DpsTrim\<close> cuts blanks at the end in place; the pointer past
  the blanks at the start, which it returns, is not used.
\<close>

definition href_url :: "string \<Rightarrow> string" where
  "href_url url = lower_host (DpsStrRemoveChars (DpsRTrim url [CHR '' '', CHR 0x09, CHR 0x0D, CHR 0x0A])
     [CHR 0x09, CHR 0x0D, CHR 0x0A])"

text \<open>The search in the sorted part, with its bounds as the code has them.\<close>

function href_bsearch :: "string \<Rightarrow> 'w dps_href list \<Rightarrow> int \<Rightarrow> int \<Rightarrow> nat option" where
  "href_bsearch ehref Href l r =
    (if l \<le> r then
       (let c = (l + r) div 2; res = c_strcmp (h_url (Href ! nat c)) ehref
        in if res = 0 then Some (nat c)
           else if res < 0 then href_bsearch ehref Href (c + 1) r
           else href_bsearch ehref Href l (c - 1))
     else None)"
  by pat_completeness auto
termination by (relation "measure (\<lambda>(_, _, l, r). nat (r - l + 1))") auto

declare href_bsearch.simps [simp del]

fun href_scan :: "string \<Rightarrow> nat \<Rightarrow> 'w dps_href list \<Rightarrow> nat option" where
  "href_scan ehref i [] = None"
| "href_scan ehref i (h # hs) = (if h_url h = ehref then Some i else href_scan ehref (i + 1) hs)"

definition RESORT_HREFS :: nat where "RESORT_HREFS = 24"

definition DpsHrefListAdd ::
    "('w dps_href list \<Rightarrow> 'w dps_href list) \<Rightarrow> 'w hreflist \<Rightarrow> 'w dps_href \<Rightarrow> 'w hreflist \<times> int" where
  "DpsHrefListAdd dpsort L H =
    (if h_url H = [] then (L, 0)
     else
       let ehref = href_url (h_url H);
           n = l_shrefs L;
           i = (case href_bsearch ehref (l_Href L) 0 (int n - 1) of
                  Some c \<Rightarrow> Some c
                | None \<Rightarrow> href_scan ehref n (drop n (l_Href L)))
       in case i of
            Some c \<Rightarrow> (L\<lparr>l_Href := (l_Href L)[c := H\<lparr>h_url := h_url (l_Href L ! c)\<rparr>]\<rparr>, 0)
          | None \<Rightarrow>
              let hs = l_Href L @ [H\<lparr>h_url := ehref\<rparr>]
              in if length hs - n > RESORT_HREFS
                 then (L\<lparr>l_Href := dpsort hs, l_shrefs := length hs, l_dhrefs := 0\<rparr>, 1)
                 else (L\<lparr>l_Href := hs\<rparr>, 1))"

definition DpsHrefListInit :: "'w hreflist" where
  "DpsHrefListInit = \<lparr>l_shrefs = 0, l_dhrefs = 0, l_Href = []\<rparr>"

section \<open>The order of URLs\<close>

lemma strcmp_flip: "c_strcmp b a = - c_strcmp a b"
  by (induction a b rule: c_strcmp.induct) (auto simp: not_less le_less)

lemma strcmp_trans: "c_strcmp a b \<le> 0 \<Longrightarrow> c_strcmp b c \<le> 0 \<Longrightarrow> c_strcmp a c \<le> 0"
proof (induction a b arbitrary: c rule: c_strcmp.induct)
  case (2 b t)
  then show ?case by (cases c) auto
next
  case (4 a s b t)
  then show ?case by (cases c) (auto split: if_splits)
qed auto

lemma strcmp_0_iff: "c_strcmp a b = 0 \<longleftrightarrow> a = b"
  by (induction a b rule: c_strcmp.induct) auto

interpretation hrefs: key_order cmphrefs
proof
  fix a b c :: "'w dps_href"
  show "cmphrefs a b < 0 \<longleftrightarrow> 0 < cmphrefs b a" using strcmp_flip [of "h_url a" "h_url b"] by (simp add: cmphrefs_def)
  show "cmphrefs a b \<le> 0 \<Longrightarrow> cmphrefs b c \<le> 0 \<Longrightarrow> cmphrefs a c \<le> 0"
    using strcmp_trans by (simp add: cmphrefs_def)
qed

section \<open>The list as a map\<close>

text \<open>
  What the list keeps: the first part is sorted, no URL is there twice, and the tail is short.
\<close>

definition href_ok :: "'w hreflist \<Rightarrow> bool" where
  "href_ok L \<longleftrightarrow> l_shrefs L \<le> length (l_Href L) \<and> cmp_sorted cmphrefs (take (l_shrefs L) (l_Href L)) \<and>
     distinct (map h_url (l_Href L)) \<and> length (l_Href L) - l_shrefs L \<le> RESORT_HREFS"

definition href_map :: "'w hreflist \<Rightarrow> string \<Rightarrow> 'w dps_href option" where
  "href_map L u = find (\<lambda>h. h_url h = u) (l_Href L)"

text \<open>What a sorting function promises.\<close>

definition sorts_hrefs :: "('w dps_href list \<Rightarrow> 'w dps_href list) \<Rightarrow> bool" where
  "sorts_hrefs dpsort \<longleftrightarrow> (\<forall>hs. mset (dpsort hs) = mset hs \<and> cmp_sorted cmphrefs (dpsort hs))"

lemma href_map_iff:
  "distinct (map h_url (l_Href L)) \<Longrightarrow> href_map L u = Some h \<longleftrightarrow> h \<in> set (l_Href L) \<and> h_url h = u"
proof -
  assume d: "distinct (map h_url (l_Href L))"
  then have inj: "inj_on h_url (set (l_Href L))" by (simp add: distinct_map)
  show ?thesis
  proof (cases "href_map L u")
    case None
    then have "\<not> (h \<in> set (l_Href L) \<and> h_url h = u)" by (auto simp: href_map_def find_None_iff)
    with None show ?thesis by simp
  next
    case (Some g)
    then have "g \<in> set (l_Href L)" "h_url g = u" by (auto simp: href_map_def find_Some_iff)
    then show ?thesis using Some inj by (auto simp: inj_on_def)
  qed
qed

lemma href_bsearch_correct:
  "cmp_sorted cmphrefs (take n hs) \<Longrightarrow> n \<le> length hs \<Longrightarrow> 0 \<le> l \<Longrightarrow> r < int n \<Longrightarrow> \<forall>i < n. int i < l \<longrightarrow> h_url (hs ! i) \<noteq> u \<Longrightarrow>
    \<forall>i < n. r < int i \<longrightarrow> h_url (hs ! i) \<noteq> u \<Longrightarrow>
    (case href_bsearch u hs l r of
       Some c \<Rightarrow> c < n \<and> h_url (hs ! c) = u | None \<Rightarrow> \<forall>i < n. h_url (hs ! i) \<noteq> u)"
proof (induction u hs l r rule: href_bsearch.induct)
  case (1 u hs l r)
  show ?case
  proof (cases "l \<le> r")
    case False
    then have "\<forall>i < n. h_url (hs ! i) \<noteq> u" using "1.prems"(5,6) by (metis less_le_not_le linorder_le_less_linear order.strict_trans2)
    then show ?thesis using False by (simp add: href_bsearch.simps)
  next
    case True
    let ?c = "(l + r) div 2"
    have c: "l \<le> ?c" "?c \<le> r" "0 \<le> ?c" "nat ?c < n" using True "1.prems"(3,4) by auto
    have le: "c_strcmp (h_url (hs ! i)) (h_url (hs ! j)) \<le> 0" if "i \<le> j" "j < n" for i j
      using hrefs.sorted_le [of "take n hs" i j] "1.prems"(1,2) that by (simp add: cmphrefs_def)
    consider (eq) "c_strcmp (h_url (hs ! nat ?c)) u = 0" | (lt) "c_strcmp (h_url (hs ! nat ?c)) u < 0"
      | (gt) "0 < c_strcmp (h_url (hs ! nat ?c)) u" by linarith
    then show ?thesis
    proof cases
      case eq
      then show ?thesis using True c by (subst href_bsearch.simps) (simp add: Let_def strcmp_0_iff)
    next
      case lt
      have "h_url (hs ! i) \<noteq> u" if "int i < ?c + 1" for i
      proof -
        have "i \<le> nat ?c" using that by linarith
        then have "c_strcmp (h_url (hs ! i)) (h_url (hs ! nat ?c)) \<le> 0" using le c(4) by blast
        with lt show ?thesis using strcmp_flip [of "h_url (hs ! nat ?c)" u] by auto
      qed
      moreover have "href_bsearch u hs l r = href_bsearch u hs (?c + 1) r"
        using True lt by (subst href_bsearch.simps) (simp add: Let_def)
      ultimately show ?thesis using "1.IH"(1) [OF True refl refl] lt "1.prems" c by simp
    next
      case gt
      have "h_url (hs ! i) \<noteq> u" if "?c - 1 < int i" "i < n" for i
      proof -
        have "nat ?c \<le> i" using that by linarith
        then have "c_strcmp (h_url (hs ! nat ?c)) (h_url (hs ! i)) \<le> 0" using le that(2) by blast
        with gt show ?thesis by auto
      qed
      moreover have "href_bsearch u hs l r = href_bsearch u hs l (?c - 1)"
        using True gt by (subst href_bsearch.simps) (simp add: Let_def)
      ultimately show ?thesis using "1.IH"(2) [OF True refl refl] gt "1.prems" c by simp
    qed
  qed
qed

lemma href_scan_correct:
  "case href_scan u i hs of
     Some c \<Rightarrow> i \<le> c \<and> c < i + length hs \<and> h_url (hs ! (c - i)) = u | None \<Rightarrow> \<forall>h \<in> set hs. h_url h \<noteq> u"
proof (induction u i hs rule: href_scan.induct)
  case (2 u i h hs)
  show ?case
  proof (cases "h_url h = u")
    case False
    then show ?thesis using 2 by (auto split: option.splits simp: nth_Cons' Suc_le_eq)
  qed simp
qed simp

definition href_find :: "string \<Rightarrow> 'w hreflist \<Rightarrow> nat option" where
  "href_find u L =
    (case href_bsearch u (l_Href L) 0 (int (l_shrefs L) - 1) of
       Some c \<Rightarrow> Some c | None \<Rightarrow> href_scan u (l_shrefs L) (drop (l_shrefs L) (l_Href L)))"

lemma href_find_correct:
  assumes "href_ok L"
  shows "case href_find u L of
      Some c \<Rightarrow> c < length (l_Href L) \<and> h_url (l_Href L ! c) = u | None \<Rightarrow> \<forall>h \<in> set (l_Href L). h_url h \<noteq> u"
proof -
  let ?n = "l_shrefs L" and ?hs = "l_Href L"
  have n: "?n \<le> length ?hs" "cmp_sorted cmphrefs (take ?n ?hs)" using assms by (simp_all add: href_ok_def)
  have b: "case href_bsearch u ?hs 0 (int ?n - 1) of
      Some c \<Rightarrow> c < ?n \<and> h_url (?hs ! c) = u | None \<Rightarrow> \<forall>i < ?n. h_url (?hs ! i) \<noteq> u"
    by (rule href_bsearch_correct [OF n(2,1)]) auto
  show ?thesis
  proof (cases "href_bsearch u ?hs 0 (int ?n - 1)")
    case (Some c)
    with b n show ?thesis by (simp add: href_find_def)
  next
    case None
    have "h_url h \<noteq> u" if "h \<in> set (take ?n ?hs)" for h
      using b None that by (auto simp: in_set_conv_nth)
    then have notake: "\<forall>h \<in> set (take ?n ?hs). h_url h \<noteq> u" by blast
    have eq: "href_find u L = href_scan u ?n (drop ?n ?hs)" using None by (simp add: href_find_def)
    note scan = href_scan_correct [where u = u and i = ?n and hs = "drop ?n ?hs"]
    show ?thesis
    proof (cases "href_scan u ?n (drop ?n ?hs)")
      case None
      then have "\<forall>h \<in> set (drop ?n ?hs). h_url h \<noteq> u" using scan by simp
      with notake have "\<forall>h \<in> set (take ?n ?hs @ drop ?n ?hs). h_url h \<noteq> u" by (simp only: set_append) blast
      with None eq show ?thesis by (simp only: append_take_drop_id option.case)
    next
      case (Some c)
      then show ?thesis using scan n(1) unfolding eq by auto
    qed
  qed
qed

lemma DpsHrefListAdd_ok:
  assumes "sorts_hrefs dpsort" "href_ok L" "h_url H \<noteq> []"
  defines "u \<equiv> href_url (h_url H)"
  shows "href_ok (fst (DpsHrefListAdd dpsort L H)) \<and>
    href_map (fst (DpsHrefListAdd dpsort L H)) = (href_map L)(u \<mapsto> H\<lparr>h_url := u\<rparr>) \<and>
    snd (DpsHrefListAdd dpsort L H) = (if href_map L u = None then 1 else 0)"
proof -
  let ?hs = "l_Href L" and ?h = "H\<lparr>h_url := u\<rparr>"
  have d: "distinct (map h_url ?hs)" and len: "l_shrefs L \<le> length ?hs" and srt: "cmp_sorted cmphrefs (take (l_shrefs L) ?hs)"
    using assms(2) by (simp_all add: href_ok_def)
  note f = href_find_correct [OF assms(2), of u]
  have eq: "DpsHrefListAdd dpsort L H =
      (case href_find u L of
         Some c \<Rightarrow> (L\<lparr>l_Href := ?hs[c := H\<lparr>h_url := h_url (?hs ! c)\<rparr>]\<rparr>, 0)
       | None \<Rightarrow> if length (?hs @ [?h]) - l_shrefs L > RESORT_HREFS
           then (L\<lparr>l_Href := dpsort (?hs @ [?h]), l_shrefs := length (?hs @ [?h]), l_dhrefs := 0\<rparr>, 1)
           else (L\<lparr>l_Href := ?hs @ [?h]\<rparr>, 1))"
    using assms(3) by (simp only: DpsHrefListAdd_def Let_def href_find_def u_def if_False)
  show ?thesis
  proof (cases "href_find u L")
    case (Some c)
    then have c: "c < length ?hs" "h_url (?hs ! c) = u" using f by simp_all
    let ?new = "?hs[c := ?h]"
    have res: "DpsHrefListAdd dpsort L H = (L\<lparr>l_Href := ?new\<rparr>, 0)" using eq Some c(2) by simp
    have urls: "map h_url ?new = map h_url ?hs" using c by (metis list_update_id map_update dps_href.select_convs(1) dps_href.surjective dps_href.update_convs(1) nth_map)
    have "cmp_sorted cmphrefs (take (l_shrefs L) ?new)"
    proof -
      have "h_url (?new ! i) = h_url (?hs ! i)" if "i < length ?hs" for i
        using urls that by (metis length_list_update nth_map)
      then show ?thesis using srt len by (auto simp: cmp_sorted_def sorted_wrt_iff_nth_less cmphrefs_def)
    qed
    then have ok: "href_ok (L\<lparr>l_Href := ?new\<rparr>)" using assms(2) urls by (simp add: href_ok_def)
    have "href_map (L\<lparr>l_Href := ?new\<rparr>) v = Some h \<longleftrightarrow> ((href_map L)(u \<mapsto> ?h)) v = Some h" for v h
    proof -
      have "h \<in> set ?new \<longleftrightarrow> h = ?h \<or> (h \<in> set ?hs \<and> h \<noteq> ?hs ! c)"
        using c(1) d by (auto simp: set_update_distinct distinct_map)
      moreover have "h \<in> set ?hs \<Longrightarrow> h_url h = u \<Longrightarrow> h = ?hs ! c"
        using c d by (auto simp: distinct_map inj_on_def)
      ultimately show ?thesis
        using href_map_iff [OF d] href_map_iff [of "L\<lparr>l_Href := ?new\<rparr>" v h] d urls c(2) by auto
    qed
    then have "href_map (L\<lparr>l_Href := ?new\<rparr>) v = ((href_map L)(u \<mapsto> ?h)) v" for v
      by (metis (no_types, lifting) option.exhaust_sel)
    moreover have "href_map L u \<noteq> None"
      using c nth_mem [OF c(1)] unfolding href_map_def find_None_iff by blast
    ultimately show ?thesis using ok res by (simp add: fun_eq_iff)
  next
    case None
    then have new: "\<forall>h \<in> set ?hs. h_url h \<noteq> u" using f by simp
    let ?L = "fst (DpsHrefListAdd dpsort L H)"
    have srts: "mset (dpsort (?hs @ [?h])) = mset (?hs @ [?h])" "cmp_sorted cmphrefs (dpsort (?hs @ [?h]))"
      using assms(1) unfolding sorts_hrefs_def by blast+
    have m: "mset (l_Href ?L) = mset (?hs @ [?h])" using eq None srts(1) by simp
    then have st: "set (l_Href ?L) = insert ?h (set ?hs)" using mset_eq_setD [OF m] by simp
    have "mset (map h_url (l_Href ?L)) = mset (map h_url (?hs @ [?h]))" using m by (metis mset_map)
    then have dist: "distinct (map h_url (l_Href ?L)) = distinct (map h_url (?hs @ [?h]))" by (rule mset_eq_imp_distinct_iff)
    then have dist: "distinct (map h_url (l_Href ?L))" using d new by auto
    have "length (l_Href ?L) = Suc (length ?hs)" using m by (metis length_append_singleton size_mset)
    then have ok: "href_ok ?L"
      using dist srts(2) srt len eq None by (auto simp: href_ok_def)
    have "href_map ?L v = Some h \<longleftrightarrow> ((href_map L)(u \<mapsto> ?h)) v = Some h" for v h
      using href_map_iff [OF dist, of v h] href_map_iff [OF d, of v h] st new by auto
    then have "href_map ?L v = ((href_map L)(u \<mapsto> ?h)) v" for v
      by (metis (no_types, lifting) option.exhaust_sel)
    moreover have "href_map L u = None" using new by (simp add: href_map_def find_None_iff)
    moreover have "snd (DpsHrefListAdd dpsort L H) = 1" using eq None by simp
    ultimately show ?thesis using ok by (simp add: fun_eq_iff)
  qed
qed

text \<open>A sorting function: insertion by halving, one element after the other.\<close>

definition insert_hrefs :: "'w dps_href list \<Rightarrow> 'w dps_href list" where
  "insert_hrefs hs = fold (\<lambda>h acc. DpsVarSortForLast cmphrefs (acc @ [h])) hs []"

lemma insert_hrefs_sorts: "sorts_hrefs (insert_hrefs :: 'w dps_href list \<Rightarrow> 'w dps_href list)"
proof -
  have step: "cmp_sorted cmphrefs acc \<Longrightarrow>
      mset (fold (\<lambda>h acc. DpsVarSortForLast cmphrefs (acc @ [h])) hs acc) = mset acc + mset hs \<and>
      cmp_sorted cmphrefs (fold (\<lambda>h acc. DpsVarSortForLast cmphrefs (acc @ [h])) hs acc)" for hs acc :: "'w dps_href list"
  proof (induction hs arbitrary: acc)
    case (Cons h hs)
    with hrefs.sort_for_last_correct [of "acc @ [h]"] show ?case by simp
  qed simp
  show ?thesis using step [of "[]"] by (simp add: sorts_hrefs_def insert_hrefs_def cmp_sorted_def)
qed

section \<open>Properties\<close>

text \<open>
  C8. The cache of links is a map from URLs to links. With any sorting function that sorts and
  permutes, \<^verbatim>\<open>DpsHrefListAdd\<close> stores the link under the normalised form of its URL, in place of the
  one stored there before, returns 1 exactly when the URL is new, and keeps what the search relies
  on: a sorted first part, no URL twice, at most 24 elements after the first part.
\<close>

theorem DpsHrefListAdd_map:
  "sorts_hrefs dpsort \<Longrightarrow> href_ok L \<Longrightarrow> h_url H \<noteq> [] \<Longrightarrow>
   href_ok (fst (DpsHrefListAdd dpsort L H)) \<and>
   href_map (fst (DpsHrefListAdd dpsort L H)) =
     (href_map L)(href_url (h_url H) \<mapsto> H\<lparr>h_url := href_url (h_url H)\<rparr>) \<and>
   snd (DpsHrefListAdd dpsort L H) = (if href_map L (href_url (h_url H)) = None then 1 else 0)"
  by (rule DpsHrefListAdd_ok)

definition sample_href :: "string \<Rightarrow> u32 \<Rightarrow> unit dps_href" where
  "sample_href url hops =
    \<lparr>h_url = url, h_referrer = 0, h_hops = hops, h_stored = 0, h_checked = 0, h_method = 1, h_charset_id = 0,
      h_delay = 0, h_site_id = 0, h_server_id = 0, h_weight = ()\<rparr>"

theorem DpsHrefListAdd_map_witness:
  "snd (DpsHrefListAdd insert_hrefs DpsHrefListInit (sample_href ''http://Example.com/A'' 1)) = 1 \<and>
   href_map (fst (DpsHrefListAdd insert_hrefs DpsHrefListInit (sample_href ''http://Example.com/A'' 1))) ''http://example.com/A'' =
     Some (sample_href ''http://example.com/A'' 1)"
proof -
  have ok: "href_ok (DpsHrefListInit :: unit hreflist)" by (simp add: href_ok_def DpsHrefListInit_def cmp_sorted_def)
  have ne: "h_url (sample_href ''http://Example.com/A'' 1) \<noteq> []" by (simp add: sample_href_def)
  have u: "href_url (h_url (sample_href ''http://Example.com/A'' 1)) = ''http://example.com/A''" by code_simp
  have e: "href_map (DpsHrefListInit :: unit hreflist) v = None" for v by (simp add: href_map_def DpsHrefListInit_def)
  show ?thesis using DpsHrefListAdd_map [OF insert_hrefs_sorts ok ne] unfolding u by (simp add: e) (simp add: sample_href_def)
qed

text \<open>
  Two forms of a link the list does not make equal to the plain one: with an at sign in the path the
  host keeps its capitals, and blanks at the start stay.
\<close>

lemma href_url_not_normalised:
  "href_url ''http://Example.com/~a@b'' = ''http://Example.com/~a@b''"
  "href_url '' http://example.com/'' = '' http://example.com/''"
  by code_simp+

end
