(* ===== verification/Dps_Sgml.thy ===== *)
theory Dps_Sgml
  imports Dps_Vars
begin

text \<open>
  Entities (\<^verbatim>\<open>src/sgml.c\<close>): \<^verbatim>\<open>DpsSGMLUnescape\<close> on bytes and \<^verbatim>\<open>DpsSGMLUniUnescape\<close> on
  code points, both in place, and the escapes of JSON. A result is the string up to its NUL. The
  table of named entities in \<^verbatim>\<open>sgml.inc\<close> is data; it is the argument \<open>entity\<close>, which has
  for a name the two code points of its row.
\<close>

type_synonym entities = "string \<Rightarrow> (u32 \<times> u32) option"

definition DPS_MAX_SGML_LEN :: nat where "DPS_MAX_SGML_LEN = 32"

text \<open>The number of code points and the code points, as \<^verbatim>\<open>bsearch\<close> in the table finds them.\<close>

definition DpsSgmlToUni :: "entities \<Rightarrow> string \<Rightarrow> u32 list" where
  "DpsSgmlToUni entity sgml =
    (case entity sgml of None \<Rightarrow> [] | Some (u1, u2) \<Rightarrow> if u2 = 0 then [u1] else [u1, u2])"

text \<open>\<^verbatim>\<open>atoi\<close>, as \<^verbatim>\<open>strtol\<close> cut to 32 bits.\<close>

definition atoi32 :: "string \<Rightarrow> int" where
  "atoi32 s = sint (word_of_int (max (- (2 ^ 63)) (min (2 ^ 63 - 1) (c_atoi s))) :: 32 word)"

section \<open>Bytes\<close>

text \<open>
  The digits of a numeric entity and the letters of a named one, at most as many as fit in
  \<^verbatim>\<open>DPS_MAX_SGML_LEN\<close>; \<open>s\<close> is what follows the ampersand.
\<close>

definition entity_digits :: "string \<Rightarrow> string" where
  "entity_digits s = takeWhile c_isdigit (take (DPS_MAX_SGML_LEN - 2) (drop 1 s))"

definition entity_name :: "string \<Rightarrow> string" where
  "entity_name s = takeWhile c_isalpha (take (DPS_MAX_SGML_LEN - 1) s)"

lemma entity_rest_shorter [termination_simp]:
  "drop (Suc (length (entity_digits s))) s = c # r \<Longrightarrow> length r < Suc (length s)"
  "drop (length (entity_name s)) s = c # r \<Longrightarrow> length r < length s"
  by (auto dest!: arg_cong [where f = length])

text \<open>
  After a named entity that became one character the next character is passed over; when the name is
  not known, the NUL that was put in place of the semicolon stays and the string ends there.
\<close>

function sgml_unescape :: "entities \<Rightarrow> string \<Rightarrow> string" where
  "sgml_unescape entity [] = []"
| "sgml_unescape entity (c # s) =
     (if c \<noteq> CHR ''&'' then c # sgml_unescape entity s
      else if char_at s 0 = CHR ''#'' then
        (case drop (Suc (length (entity_digits s))) s of
           [] \<Rightarrow> c # sgml_unescape entity s
         | e # rest \<Rightarrow>
             if e = CHR '';'' then
               let v = atoi32 (drop 1 s); b = (if 0 \<le> v \<and> v \<le> 255 then chr (nat v) else CHR '' '')
               in if b = CHR 0x00 then [] else b # sgml_unescape entity rest
             else c # sgml_unescape entity s)
      else
        (case drop (length (entity_name s)) s of
           [] \<Rightarrow> c # sgml_unescape entity s
         | e # rest \<Rightarrow>
             if e = CHR '';'' then
               (case DpsSgmlToUni entity (entity_name s) of
                  [u] \<Rightarrow>
                    let b = chr (unat u mod 256)
                    in if b = CHR 0x00 then []
                       else (case rest of [] \<Rightarrow> [b] | d # rest' \<Rightarrow> b # d # sgml_unescape entity rest')
                | _ \<Rightarrow> c # entity_name s)
             else c # sgml_unescape entity s))"
  by pat_completeness auto
termination
  by (relation "measure (\<lambda>(entity, s). length s)") (auto dest!: entity_rest_shorter)

definition DpsSGMLUnescape :: "entities \<Rightarrow> string \<Rightarrow> string" where
  "DpsSGMLUnescape entity str = sgml_unescape entity str"

section \<open>Code points\<close>

definition uni_isdigit :: "u32 \<Rightarrow> bool" where "uni_isdigit u \<longleftrightarrow> 48 \<le> u \<and> u \<le> 57"

definition uni_isalpha :: "u32 \<Rightarrow> bool" where
  "uni_isalpha u \<longleftrightarrow> (97 \<le> u \<and> u \<le> 122) \<or> (65 \<le> u \<and> u \<le> 90)"

definition uni_chars :: "ustring \<Rightarrow> string" where
  "uni_chars us = map (\<lambda>u. chr (unat u)) us"

definition uni_entity_digits :: "ustring \<Rightarrow> ustring" where
  "uni_entity_digits s = takeWhile uni_isdigit (take (DPS_MAX_SGML_LEN - 2) (drop 1 s))"

definition uni_entity_name :: "ustring \<Rightarrow> ustring" where
  "uni_entity_name s = takeWhile uni_isalpha (take (DPS_MAX_SGML_LEN - 1) s)"

lemma uni_entity_rest_shorter:
  "drop (Suc (length (uni_entity_digits s))) s = c # r \<Longrightarrow> length r < Suc (length s)"
  "drop (length (uni_entity_name s)) s = c # r \<Longrightarrow> length r < length s"
  by (auto dest!: arg_cong [where f = length])

function uni_unescape :: "entities \<Rightarrow> ustring \<Rightarrow> ustring" where
  "uni_unescape entity [] = []"
| "uni_unescape entity (c # s) =
     (if c \<noteq> 38 then c # uni_unescape entity s
      else if s \<noteq> [] \<and> hd s = 35 then
        (case drop (Suc (length (uni_entity_digits s))) s of
           [] \<Rightarrow> c # uni_unescape entity s
         | e # rest \<Rightarrow>
             if e = 59 then
               let u = word_of_int (atoi32 (uni_chars (uni_entity_digits s)))
               in if u = 0 then [] else u # uni_unescape entity rest
             else c # uni_unescape entity s)
      else
        (case drop (length (uni_entity_name s)) s of
           [] \<Rightarrow> c # uni_unescape entity s
         | e # rest \<Rightarrow>
             if e = 59 then
               (case DpsSgmlToUni entity (uni_chars (uni_entity_name s)) of
                  [] \<Rightarrow> c # uni_unescape entity s
                | u # us \<Rightarrow> if u = 0 then [] else u # uni_unescape entity (us @ rest))
             else c # uni_unescape entity s))"
  by pat_completeness auto
termination
  by (relation "measure (\<lambda>(entity, s). length s)")
     (auto dest!: uni_entity_rest_shorter simp: DpsSgmlToUni_def split: option.splits if_splits)

definition DpsSGMLUniUnescape :: "entities \<Rightarrow> ustring \<Rightarrow> ustring" where
  "DpsSGMLUniUnescape entity ustr = uni_unescape entity ustr"

section \<open>JSON\<close>

text \<open>A digit of an escape: a signed \<^verbatim>\<open>char\<close> less 0x30 or 0x36, as an unsigned number.\<close>

definition json_dig :: "string \<Rightarrow> nat \<Rightarrow> u32" where
  "json_dig json i =
    (let c = ord (char_at json i); v = (if c < 128 then int c else int c - 256)
     in word_of_int (v - (if v > 0x39 then 0x36 else 0x30)))"

text \<open>The code point and the number of characters read, \<^const>\<open>None\<close> for the result 0.\<close>

definition DpsJSONToUni :: "string \<Rightarrow> (u32 \<times> nat) option" where
  "DpsJSONToUni json =
    (let c = char_at json 0 in
     if c = CHR ''b'' then Some (0x08, 1)
     else if c = CHR ''t'' then Some (0x09, 1)
     else if c = CHR ''n'' then Some (0x0A, 1)
     else if c = CHR ''f'' then Some (0x0C, 1)
     else if c = CHR ''r'' then Some (0x0D, 1)
     else if c = CHR 0x22 then Some (0x22, 1)
     else if c = CHR ''/'' then Some (0x2F, 1)
     else if c = CHR 0x5C then Some (0x5C, 1)
     else if c = CHR ''u'' then
       (if json_dig json 1 > 16 \<or> json_dig json 2 > 16 \<or> json_dig json 3 > 16 \<or> json_dig json 4 > 16 then None
        else Some (json_dig json 1 * 0x1000 + json_dig json 2 * 0x100 + json_dig json 3 * 0x10 + json_dig json 4, 5))
     else None)"

section \<open>Room in place\<close>

lemma sgml_unescape_length: "length (sgml_unescape entity s) \<le> length s"
proof (induction "length s" arbitrary: s rule: less_induct)
  case less
  show ?case
  proof (cases s)
    case s: (Cons c t)
    have IH: "length (sgml_unescape entity r) \<le> length r" if "length r < length s" for r
      using less that by blast
    have t: "length (sgml_unescape entity t) \<le> length t" using IH s by simp
    have d: "length (sgml_unescape entity r) \<le> length t"
      if "drop (Suc (length (entity_digits t))) t = e # r" for e r
      using entity_rest_shorter(1) [OF that] IH [of r] s by simp
    have n: "Suc (length (sgml_unescape entity r')) \<le> length t"
      if "drop (length (entity_name t)) t = e # x # r'" for e x r'
      using entity_rest_shorter(2) [OF that] IH [of r'] s by simp
    have l: "length (entity_name t) \<le> length t"
      using length_takeWhile_le [of c_isalpha "take (DPS_MAX_SGML_LEN - 1) t"] by (simp add: entity_name_def)
    show ?thesis unfolding s sgml_unescape.simps
      using t by (auto simp: Let_def d n l split: list.splits)
  qed simp
qed

lemma uni_unescape_length: "length (uni_unescape entity s) \<le> length s"
proof (induction "length s" arbitrary: s rule: less_induct)
  case less
  show ?case
  proof (cases s)
    case s: (Cons c t)
    have IH: "length (uni_unescape entity r) \<le> length r" if "length r < length s" for r
      using less that by blast
    have t: "length (uni_unescape entity t) \<le> length t" using IH s by simp
    have d: "length (uni_unescape entity r) \<le> length t"
      if "drop (Suc (length (uni_entity_digits t))) t = e # r" for e r
      using uni_entity_rest_shorter(1) [OF that] IH [of r] s by simp
    have u: "length us \<le> 1" if "DpsSgmlToUni entity n = u # us" for n u us
      using that by (auto simp: DpsSgmlToUni_def split: option.splits if_splits)
    have n: "length (uni_unescape entity (us @ r)) \<le> length t"
      if "drop (length (uni_entity_name t)) t = e # r" "DpsSgmlToUni entity m = v # us" for e r m v us
      using uni_entity_rest_shorter(2) [OF that(1)] IH [of "us @ r"] u [OF that(2)] s by simp
    show ?thesis unfolding s uni_unescape.simps
      using t by (auto simp: Let_def d n split: list.splits)
  qed simp
qed

section \<open>Numeric entities\<close>

lemma nat_digits_length: "n < 10 ^ Suc k \<Longrightarrow> length (nat_digits n) \<le> Suc k"
proof (induction k arbitrary: n)
  case 0
  then show ?case by (simp add: nat_digits.simps)
next
  case (Suc k)
  have "length (nat_digits (n div 10)) \<le> Suc k" using Suc.prems by (intro Suc.IH) simp
  then show ?case by (subst nat_digits.simps) simp
qed

lemma digits_val_append: "digits_val acc (s @ t) = digits_val (digits_val acc s) t"
  by (induction s arbitrary: acc) auto

lemma digits_val_digits: "digits_val 0 (nat_digits n) = int n"
proof (induction n rule: nat_digits.induct)
  case (1 n)
  have "int (n div 10) * 10 + int (n mod 10) = int (n div 10 * 10 + n mod 10)"
    by (simp only: of_nat_add of_nat_mult of_nat_numeral)
  then have "int (n div 10) * 10 + int (n mod 10) = int n" by (simp only: div_mult_mod_eq)
  then show ?case using 1 by (subst nat_digits.simps) (simp add: digits_val_append digit_val_def)
qed

lemma sint_word32: "- (2 ^ 31) \<le> i \<Longrightarrow> i < 2 ^ 31 \<Longrightarrow> sint (word_of_int i :: 32 word) = i"
  by (simp add: sint_sbintrunc' signed_take_bit_int_eq_self)

lemma atoi32_digits:
  assumes "n < 2 ^ 31" "\<not> c_isdigit (char_at r 0)"
  shows "atoi32 (nat_digits n @ r) = int n"
proof -
  obtain c s where c: "nat_digits n = c # s" using nat_digits_first [of n] by blast
  have d: "list_all c_isdigit (nat_digits n)" by (rule nat_digits_digit)
  then have "\<not> c_isspace c" "c \<noteq> CHR ''-''" "c \<noteq> CHR ''+''" using c by (auto simp: c_isdigit_def c_isspace_def)
  moreover have "takeWhile c_isdigit (nat_digits n @ r) = nat_digits n"
    using d assms(2) by (cases r) (simp_all add: takeWhile_append list_all_iff char_at_def)
  ultimately have "c_atoi (nat_digits n @ r) = int n"
    using c digits_val_digits [of n] by (simp add: c_atoi_def Let_def)
  moreover have "max (- (2 ^ 63)) (min (2 ^ 63 - 1) (int n)) = int n" using assms(1) by simp
  moreover have "sint (word_of_int (int n) :: 32 word) = int n" by (rule sint_word32) (use assms(1) in simp_all)
  ultimately show ?thesis unfolding atoi32_def by (simp only:)
qed

definition num_entity :: "char \<Rightarrow> string" where
  "num_entity c = ''&#'' @ nat_digits (ord c) @ '';''"

lemma unescape_num_entity:
  assumes "c \<noteq> CHR 0x00"
  shows "sgml_unescape entity (num_entity c @ r) = c # sgml_unescape entity r"
proof -
  let ?d = "nat_digits (ord c)"
  have "ord c < 10 ^ Suc 2" using ord_less_256 [of c] by (simp del: ord_less_256)
  then have "length ?d \<le> 3" using nat_digits_length [of "ord c" 2] by simp
  moreover have "list_all c_isdigit ?d" by (rule nat_digits_digit)
  ultimately have dg: "entity_digits (CHR ''#'' # ?d @ CHR '';'' # r) = ?d"
    by (simp add: entity_digits_def DPS_MAX_SGML_LEN_def takeWhile_append list_all_iff takeWhile_eq_all_conv c_isdigit_def
        take_Cons' split: if_splits)
  have v: "atoi32 (?d @ CHR '';'' # r) = int (ord c)"
    by (rule atoi32_digits) (simp_all add: char_at_def c_isdigit_def less_trans [OF ord_less_256])
  have le: "ord c \<le> 255" using ord_less_256 [of c] by linarith
  show ?thesis
    unfolding num_entity_def using assms le
    by (simp add: char_at_def dg v Let_def)
qed

section \<open>Properties\<close>

text \<open>
  Unescaping in place never needs more room than the string has, for bytes and for code points,
  with any table of entities: also where an entity stands for two code points.
\<close>

theorem DpsSGMLUnescape_length:
  "length (DpsSGMLUnescape entity s) \<le> length s \<and> length (DpsSGMLUniUnescape entity us) \<le> length us"
  by (simp add: DpsSGMLUnescape_def DpsSGMLUniUnescape_def sgml_unescape_length uni_unescape_length)

text \<open>
  Every string of bytes, written with a numeric entity for each byte, is read back.
\<close>

theorem DpsSGMLUnescape_numeric:
  "CHR 0x00 \<notin> set s \<Longrightarrow> DpsSGMLUnescape entity (concat (map num_entity s)) = s"
  unfolding DpsSGMLUnescape_def
proof (induction s)
  case (Cons c s)
  then have "c \<noteq> CHR 0x00" by auto
  with Cons show ?case by (simp add: unescape_num_entity)
qed simp

theorem DpsSGMLUnescape_numeric_witness:
  "DpsSGMLUnescape entity (concat (map num_entity ''<&>'')) = ''<&>''"
  by (rule DpsSGMLUnescape_numeric) simp

text \<open>
  Two entities in a row: the second stays. A name that is not in the table: the string ends there.
  An escape of JSON with a letter among its digits: the letter counts one too many.
\<close>

lemma sgml_unescape_wrong:
  "DpsSGMLUnescape [''lt'' \<mapsto> (60, 0), ''gt'' \<mapsto> (62, 0)] ''&lt;&gt;!'' = ''<&gt;!''"
  "DpsSGMLUnescape [''lt'' \<mapsto> (60, 0)] ''a&nosuch;b'' = ''a&nosuch''"
  by code_simp+

lemma json_letter_wrong: "DpsJSONToUni ''u00A0'' = Some (0xB0, 5)" "DpsJSONToUni ''u00a0'' = None"
  by code_simp+

end
