(* ===== verification/Dps_Robots.thy ===== *)
theory Dps_Robots
  imports Dps_UrlParse Dps_Wild Dps_Search Dps_Sgml
begin

text \<open>
  The rules of robots.txt (\<^verbatim>\<open>src/robots.c\<close>): the list of hosts, the parser of the file and the
  search for the rule that decides about a URL. The copies of the rules in the SQL table, the
  download of the file, the pauses between requests and the locks are left out. Arguments stand for
  what other parts do: \<open>dpsort\<close> for \<^verbatim>\<open>DpsSort\<close>, \<open>delay\<close> for the conversion of the text
  of a delay to milliseconds (floating point), \<open>resolves\<close> for \<^verbatim>\<open>DpsHostLookup\<close>, \<open>known\<close>
  for the question whether a URL is in the database, \<open>entity\<close> for the table of entities.
\<close>

section \<open>The list of hosts\<close>

definition DPS_METHOD_UNKNOWN :: nat where "DPS_METHOD_UNKNOWN = 0"
definition DPS_METHOD_GET :: nat where "DPS_METHOD_GET = 1"
definition DPS_METHOD_DISALLOW :: nat where "DPS_METHOD_DISALLOW = 2"
definition DPS_METHOD_VISITLATER :: nat where "DPS_METHOD_VISITLATER = 7"
definition DPS_METHOD_CRAWLDELAY :: nat where "DPS_METHOD_CRAWLDELAY = 12"
definition DPS_METHOD_HOST :: nat where "DPS_METHOD_HOST = 15"

lemmas method_defs = DPS_METHOD_UNKNOWN_def DPS_METHOD_GET_def DPS_METHOD_DISALLOW_def
  DPS_METHOD_VISITLATER_def DPS_METHOD_CRAWLDELAY_def DPS_METHOD_HOST_def

record robot_rule =
  r_cmd :: nat
  r_path :: string

text \<open>\<^verbatim>\<open>last_crawled\<close>, a shared time, belongs to the pauses.\<close>

record robot =
  rb_hostinfo :: string
  rb_crawl_delay :: nat
  rb_rules :: "robot_rule list"

definition DpsRobotCmp :: "robot \<Rightarrow> robot \<Rightarrow> int" where
  "DpsRobotCmp r1 r2 = c_strcasecmp (rb_hostinfo r1) (rb_hostinfo r2)"

definition empty_robot :: "string \<Rightarrow> robot" where
  "empty_robot hostinfo = \<lparr>rb_hostinfo = hostinfo, rb_crawl_delay = 0, rb_rules = []\<rparr>"

definition DpsRobotFind :: "robot list \<Rightarrow> string \<Rightarrow> nat option" where
  "DpsRobotFind Robots hostinfo =
    (if Robots = [] then None
     else if length Robots = 1 then
       (if c_strcasecmp (rb_hostinfo (Robots ! 0)) hostinfo = 0 then Some 0 else None)
     else dps_bsearch DpsRobotCmp (empty_robot hostinfo) Robots)"

text \<open>The rules of a host go; its delay stays.\<close>

definition reset_rules :: "robot \<Rightarrow> robot" where
  "reset_rules r = r\<lparr>rb_rules := []\<rparr>"

definition DeleteRobotRules :: "robot list \<Rightarrow> string \<Rightarrow> robot list \<times> nat option" where
  "DeleteRobotRules Robots hostinfo =
    (case DpsRobotFind Robots hostinfo of
       Some i \<Rightarrow> (Robots[i := reset_rules (Robots ! i)], Some i)
     | None \<Rightarrow> (Robots, None))"

definition DpsRobotAddEmpty :: "(robot list \<Rightarrow> robot list) \<Rightarrow> robot list \<Rightarrow> string \<Rightarrow> robot list \<times> nat option" where
  "DpsRobotAddEmpty dpsort Robots hostinfo =
    (let rs = Robots @ [empty_robot hostinfo]
     in if length rs > 1 then (let rs = dpsort rs in (rs, DpsRobotFind rs hostinfo)) else (rs, Some (length rs - 1)))"

definition AddRobotRule :: "(string \<Rightarrow> nat) \<Rightarrow> robot \<Rightarrow> nat \<Rightarrow> string \<Rightarrow> robot" where
  "AddRobotRule delay robot cmd path =
    robot\<lparr>rb_crawl_delay := (if cmd = DPS_METHOD_CRAWLDELAY then delay path else rb_crawl_delay robot),
      rb_rules := rb_rules robot @ [\<lparr>r_cmd = cmd, r_path = path\<rparr>]\<rparr>"

section \<open>Paths\<close>

text \<open>
  The loop of the normalisation: an asterisk after an asterisk goes, a question mark after an
  asterisk gets a backslash; with it, whether the last character was a dollar sign.
\<close>

fun norm_loop :: "bool \<Rightarrow> bool \<Rightarrow> bool \<Rightarrow> string \<Rightarrow> string \<times> bool" where
  "norm_loop prev_asterisk prev_dollar prev_slash [] = ([], prev_dollar)"
| "norm_loop prev_asterisk prev_dollar prev_slash (c # s) =
     (if c = CHR 0x0D \<or> c = CHR 0x0A then ([], prev_dollar)
      else if c = CHR ''$'' then (let (d, e) = norm_loop False True False s in (c # d, e))
      else if c = CHR ''?'' then
        (let (d, e) = norm_loop False False False s in ((if prev_asterisk then [CHR 0x5C, c] else [c]) @ d, e))
      else if c = CHR 0x5C then (let (d, e) = norm_loop False False (\<not> prev_slash) s in (c # d, e))
      else if c = CHR ''*'' then
        (let (d, e) = norm_loop (\<not> prev_slash) False False s in (if prev_asterisk then d else c # d, e))
      else (let (d, e) = norm_loop False False False s in (c # d, e)))"

definition dps_robots_normalise :: "string \<Rightarrow> string" where
  "dps_robots_normalise s =
    (let (d, prev_dollar) = norm_loop False False False s in if prev_dollar then butlast d else d)"

section \<open>The parser\<close>

record robots_env =
  e_UA :: string
  e_use_sitemaps :: bool
  e_delay :: "string \<Rightarrow> nat"
  e_resolves :: "string \<Rightarrow> int \<Rightarrow> bool"
  e_entity :: entities

record robots_st =
  s_robot :: robot
  s_rule :: bool
  s_common :: bool
  s_my :: bool
  s_newrecord :: bool
  s_has_cmd :: bool
  s_sitemaps :: "string list"

text \<open>A line and what follows it; a carriage return takes the next character with it.\<close>

definition next_line :: "string \<Rightarrow> string \<times> string" where
  "next_line lt =
    (let r = dropWhile (\<lambda>c. c \<noteq> CHR 0x0A \<and> c \<noteq> CHR 0x0D) lt;
         r = (if char_at r 0 = CHR 0x0D then tl r else r)
     in (takeWhile (\<lambda>c. c \<noteq> CHR 0x0A \<and> c \<noteq> CHR 0x0D) lt, tl r))"

text \<open>
  The argument of a directive, the first word from position \<open>k\<close> on and before a comment.
  \<^const>\<open>None\<close>: the line is shorter than that, and the code reads after its end.
\<close>

definition directive_arg :: "bool \<Rightarrow> nat \<Rightarrow> string \<Rightarrow> string option" where
  "directive_arg comment k s =
    (if length s < k then None
     else
       let t = drop k s; t = (if comment then takeWhile (\<lambda>c. c \<noteq> CHR ''#'') t else t)
       in Some (takeWhile (\<lambda>c. c \<notin> {CHR '' '', CHR 0x09}) (dropWhile (\<lambda>c. c \<in> {CHR '' '', CHR 0x09}) t)))"

definition add_rule :: "robots_env \<Rightarrow> nat \<Rightarrow> string \<Rightarrow> robots_st \<Rightarrow> robots_st" where
  "add_rule E cmd path S = S\<lparr>s_robot := AddRobotRule (e_delay E) (s_robot S) cmd path\<rparr>"

definition user_agent_line :: "robots_env \<Rightarrow> string \<Rightarrow> robots_st \<Rightarrow> robots_st" where
  "user_agent_line E s S =
    (let agent = DpsTrim (drop 11 s) [CHR '' '', CHR 0x09, CHR 0x0D, CHR 0x0A];
         S = (if s_has_cmd S then S\<lparr>s_newrecord := True, s_has_cmd := False\<rparr> else S);
         S = (if s_newrecord S then S\<lparr>s_newrecord := False, s_rule := False\<rparr> else S)
     in if agent = ''*'' then
          (if s_my S then S\<lparr>s_rule := False\<rparr> else S\<lparr>s_rule := True, s_common := True\<rparr>)
        else if c_strncaseeq agent (e_UA E) (length agent) \<or> DpsWildCaseCmp (e_UA E) agent = 0 then
          (let S = S\<lparr>s_rule := True, s_my := True\<rparr>
           in if s_common S then S\<lparr>s_robot := reset_rules (s_robot S), s_common := False\<rparr> else S)
        else S)"

text \<open>The host of a Host directive: it must parse as a URL and resolve.\<close>

definition host_line :: "robots_env \<Rightarrow> string \<Rightarrow> robots_st \<Rightarrow> robots_st" where
  "host_line E s S =
    (if s = [] then S
     else
       (case DpsURLParse empty_url (take 511 (''http://'' @ s @ ''/'')) of
          Inl _ \<Rightarrow> S
        | Inr u \<Rightarrow>
            if e_resolves E s (if u_port u \<noteq> 0 then u_port u else u_default_port u)
            then add_rule E DPS_METHOD_HOST s S else S))"

definition directive_line :: "robots_env \<Rightarrow> string \<Rightarrow> robots_st \<Rightarrow> robots_st option" where
  "directive_line E s S =
    (let S = S\<lparr>s_has_cmd := True\<rparr> in
     if c_strncaseeq s ''Disallow'' 8 \<and> s_rule S then
       map_option (\<lambda>a. if a \<noteq> [] then add_rule E DPS_METHOD_DISALLOW (dps_robots_normalise a) S
                       else add_rule E DPS_METHOD_GET ''/'' S) (directive_arg True 9 s)
     else if c_strncaseeq s ''Allow'' 5 \<and> s_rule S then
       map_option (\<lambda>a. if a \<noteq> [] then add_rule E DPS_METHOD_GET (dps_robots_normalise a) S else S)
         (directive_arg True 6 s)
     else if c_strncaseeq s ''Host'' 4 \<and> s_rule S then
       map_option (\<lambda>a. host_line E a S) (directive_arg True 5 s)
     else if c_strncaseeq s ''Sitemap'' 7 \<and> s_rule S \<and> e_use_sitemaps E then
       map_option (\<lambda>a. if a \<noteq> [] then S\<lparr>s_sitemaps := s_sitemaps S @ [DpsSGMLUnescape (e_entity E) a]\<rparr> else S)
         (directive_arg True 8 s)
     else if c_strncaseeq s ''Crawl-delay'' 11 \<and> s_rule S then
       map_option (\<lambda>a. add_rule E DPS_METHOD_CRAWLDELAY a S) (directive_arg False 12 s)
     else Some S)"

definition robots_line :: "robots_env \<Rightarrow> string \<Rightarrow> robots_st \<Rightarrow> robots_st option" where
  "robots_line E s S =
    (let S = (if s = [] then S\<lparr>s_newrecord := True, s_has_cmd := False, s_rule := False\<rparr> else S)
     in if char_at s 0 = CHR ''#'' then Some S
        else if c_strncaseeq s ''User-Agent:'' 11 then Some (user_agent_line E s S)
        else directive_line E s S)"

lemma next_line_shorter: "lt \<noteq> [] \<Longrightarrow> length (snd (next_line lt)) < length lt"
proof -
  assume "lt \<noteq> []"
  define r where "r = dropWhile (\<lambda>c. c \<noteq> CHR 0x0A \<and> c \<noteq> CHR 0x0D) lt"
  have "length (tl (if char_at r 0 = CHR 0x0D then tl r else r)) \<le> length (tl r)" by (simp add: diff_le_mono2)
  moreover have "length r \<le> length lt" by (simp add: r_def length_dropWhile_le)
  moreover have "length (tl r) < length lt"
    using \<open>lt \<noteq> []\<close> \<open>length r \<le> length lt\<close> by (cases r) auto
  ultimately show ?thesis by (simp add: next_line_def Let_def flip: r_def)
qed

lemma next_line_Nil: "next_line [] = ([], [])"
  by (simp add: next_line_def char_at_def)

function parse_lines :: "robots_env \<Rightarrow> string \<Rightarrow> string \<Rightarrow> robots_st \<Rightarrow> robots_st option" where
  "parse_lines E s lt S =
    (if s = [] \<and> lt = [] then Some S
     else
       (case robots_line E s S of
          None \<Rightarrow> None
        | Some S' \<Rightarrow> parse_lines E (fst (next_line lt)) (snd (next_line lt)) S'))"
  by pat_completeness auto
termination
proof (relation "measures [\<lambda>(E, s, lt, S). length lt, \<lambda>(E, s, lt, S). length s]")
  fix E :: robots_env and s lt :: string and S S' :: robots_st
  assume "\<not> (s = [] \<and> lt = [])"
  then show "((E, fst (next_line lt), snd (next_line lt), S'), E, s, lt, S) \<in>
      measures [\<lambda>(E, s, lt, S). length lt, \<lambda>(E, s, lt, S). length s]"
    using next_line_shorter [of lt] by (cases "lt = []") (simp_all add: next_line_Nil)
qed simp

declare parse_lines.simps [simp del]

text \<open>The rules that a file gives for a host that had none.\<close>

definition parse_content :: "robots_env \<Rightarrow> robot \<Rightarrow> string \<Rightarrow> robots_st option" where
  "parse_content E robot content =
    (let s = dropWhile (\<lambda>c. c = CHR 0x0A \<or> c = CHR 0x0D) content;
         S = \<lparr>s_robot = robot, s_rule = False, s_common = False, s_my = False, s_newrecord = True,
              s_has_cmd = False, s_sitemaps = []\<rparr>
     in map_option (\<lambda>S. if rb_rules (s_robot S) = [] then add_rule E DPS_METHOD_GET ''/'' S else S)
          (parse_lines E (fst (next_line s)) (snd (next_line s)) S))"

text \<open>The list of hosts after the file of a host, and the site maps it names.\<close>

definition DpsRobotParse ::
    "(robot list \<Rightarrow> robot list) \<Rightarrow> robots_env \<Rightarrow> robot list \<Rightarrow> string option \<Rightarrow> string \<Rightarrow> (robot list \<times> string list) option" where
  "DpsRobotParse dpsort E Robots content hostinfo =
    (let (Robots, i) =
       (case DeleteRobotRules Robots hostinfo of
          (rs, Some i) \<Rightarrow> (rs, Some i)
        | (rs, None) \<Rightarrow> DpsRobotAddEmpty dpsort rs hostinfo)
     in case i of
          None \<Rightarrow> None
        | Some i \<Rightarrow>
            (case content of
               None \<Rightarrow> Some (Robots, [])
             | Some s \<Rightarrow>
                 map_option (\<lambda>S. (Robots[i := s_robot S], s_sitemaps S)) (parse_content E (Robots ! i) s)))"

section \<open>The rule for a URL\<close>

datatype robot_answer = Rule robot_rule | Host_disallow | No_rule

text \<open>
  The loop of \<^verbatim>\<open>DpsRobotRuleFind\<close>, with \<^verbatim>\<open>have_host\<close>: the first rule whose path is a prefix of
  the URL or, as a pattern, matches it; a Host rule of this host ends the search.
\<close>

fun rule_loop :: "(string \<Rightarrow> bool) \<Rightarrow> string \<Rightarrow> string \<Rightarrow> bool \<Rightarrow> bool \<Rightarrow> robot_rule list \<Rightarrow> robot_answer" where
  "rule_loop known host rurl aliased have_host [] =
     (if have_host \<and> \<not> aliased then Host_disallow else No_rule)"
| "rule_loop known host rurl aliased have_host (r # rs) =
     (if prefix (r_path r) rurl then Rule r
      else if DpsWildCmp rurl (r_path r) = 0 then Rule r
      else if r_cmd r = DPS_METHOD_HOST then
        (if prefix (r_path r) host then No_rule
         else rule_loop known host rurl aliased (have_host \<or> known (take 511 (''http://'' @ r_path r @ ''/''))) rs)
      else rule_loop known host rurl aliased have_host rs)"

text \<open>\<open>robot\<close> is what the list of hosts has for the host of the URL.\<close>

definition robot_rule_find :: "(string \<Rightarrow> bool) \<Rightarrow> dps_url \<Rightarrow> robot option \<Rightarrow> bool \<Rightarrow> robot_answer" where
  "robot_rule_find known URL robot aliased =
    (if \<not> c_strncaseeq (null2empty (u_schema URL)) ''http'' 4 then No_rule
     else
       (case robot of
          None \<Rightarrow> No_rule
        | Some rb \<Rightarrow>
            rule_loop known (null2empty (u_hostinfo URL))
              (null2empty (u_path URL) @ null2empty (u_filename URL) @ null2empty (u_query_string URL))
              aliased False (rb_rules rb)))"

section \<open>Files as lists of lines\<close>

abbreviation nl :: char where "nl \<equiv> CHR 0x0A"

definition clean :: "string \<Rightarrow> bool" where
  "clean l \<longleftrightarrow> nl \<notin> set l \<and> CHR 0x0D \<notin> set l"

definition text_of :: "string list \<Rightarrow> string" where
  "text_of ls = concat (map (\<lambda>l. l @ [nl]) ls)"

fun run_lines :: "robots_env \<Rightarrow> string list \<Rightarrow> robots_st \<Rightarrow> robots_st option" where
  "run_lines E [] S = Some S"
| "run_lines E (l # ls) S = (case robots_line E l S of None \<Rightarrow> None | Some S' \<Rightarrow> run_lines E ls S')"

lemma run_lines_append:
  "run_lines E (as @ bs) S = (case run_lines E as S of None \<Rightarrow> None | Some S' \<Rightarrow> run_lines E bs S')"
  by (induction as arbitrary: S) (auto split: option.splits)

lemma next_line_clean: "clean l \<Longrightarrow> next_line (l @ nl # r) = (l, r)"
  by (simp add: next_line_def clean_def takeWhile_append dropWhile_append char_at_def)
    (auto simp: takeWhile_eq_all_conv)

lemma parse_lines_run:
  "list_all clean (l # ls) \<Longrightarrow> last (l # ls) \<noteq> [] \<Longrightarrow> parse_lines E l (text_of ls) S = run_lines E (l # ls) S"
proof (induction ls arbitrary: l S)
  case Nil
  then show ?case
    by (subst parse_lines.simps) (simp add: text_of_def next_line_Nil parse_lines.simps split: option.splits)
next
  case (Cons m ls)
  have n: "next_line (text_of (m # ls)) = (m, text_of ls)"
    using next_line_clean [of m "text_of ls"] Cons.prems(1) by (simp add: text_of_def)
  have "text_of (m # ls) \<noteq> []" by (simp add: text_of_def)
  then have "parse_lines E l (text_of (m # ls)) S =
      (case robots_line E l S of None \<Rightarrow> None | Some S' \<Rightarrow> parse_lines E m (text_of ls) S')"
    unfolding parse_lines.simps [of E l "text_of (m # ls)"] n by (simp only: fst_conv snd_conv simp_thms if_False)
  also have "\<dots> = run_lines E (l # m # ls) S"
    using Cons.IH [of m] Cons.prems by (auto split: option.splits)
  finally show ?case .
qed

definition start_state :: "robot \<Rightarrow> robots_st" where
  "start_state r = \<lparr>s_robot = r, s_rule = False, s_common = False, s_my = False, s_newrecord = True,
     s_has_cmd = False, s_sitemaps = []\<rparr>"

lemma parse_content_run:
  assumes "list_all clean (l # ls)" "last (l # ls) \<noteq> []" "l \<noteq> []"
  shows "parse_content E r (text_of (l # ls)) =
    map_option (\<lambda>S. if rb_rules (s_robot S) = [] then add_rule E DPS_METHOD_GET ''/'' S else S)
      (run_lines E (l # ls) (start_state r))"
proof -
  have "hd l \<noteq> nl" "hd l \<noteq> CHR 0x0D" using assms(1,3) by (cases l; auto simp: clean_def)+
  then have d: "dropWhile (\<lambda>c. c = nl \<or> c = CHR 0x0D) (text_of (l # ls)) = text_of (l # ls)"
    using assms(3) by (cases l) (simp_all add: text_of_def)
  have n: "next_line (text_of (l # ls)) = (l, text_of ls)"
    using next_line_clean [of l "text_of ls"] assms(1) by (simp add: text_of_def)
  show ?thesis
    using parse_lines_run [OF assms(1,2)] by (simp add: parse_content_def Let_def d n start_state_def)
qed

section \<open>Groups of plain rules\<close>

definition plain_path :: "string \<Rightarrow> bool" where
  "plain_path p \<longleftrightarrow> p \<noteq> [] \<and>
     set p \<inter> {nl, CHR 0x0D, CHR '' '', CHR 0x09, CHR ''#'', CHR ''$'', CHR ''?'', CHR 0x5C, CHR ''*''} = {}"

definition disallow_line :: "string \<Rightarrow> string" where
  "disallow_line p = ''Disallow: '' @ p"

definition disallow_rule :: "string \<Rightarrow> robot_rule" where
  "disallow_rule p = \<lparr>r_cmd = DPS_METHOD_DISALLOW, r_path = p\<rparr>"

lemma norm_plain: "plain_path p \<or> p = [] \<Longrightarrow> norm_loop a d b p = (p, if p = [] then d else False)"
  by (induction p arbitrary: a d b) (auto simp: plain_path_def)

lemma normalise_plain: "plain_path p \<Longrightarrow> dps_robots_normalise p = p"
  using norm_plain [of p False False False] by (simp add: dps_robots_normalise_def plain_path_def)

lemma arg_plain: "plain_path p \<Longrightarrow> directive_arg True 9 (disallow_line p) = Some p"
proof -
  assume p: "plain_path p"
  then have h: "takeWhile (\<lambda>c. c \<noteq> CHR ''#'') p = p"
    and w: "takeWhile (\<lambda>c. c \<notin> {CHR '' '', CHR 0x09}) p = p"
    unfolding plain_path_def by (auto simp: takeWhile_eq_all_conv)
  have d: "dropWhile (\<lambda>c. c \<in> {CHR '' '', CHR 0x09}) (CHR '' '' # p) = p"
    using p unfolding plain_path_def by (cases p) auto
  have "drop 9 (disallow_line p) = CHR '' '' # p" "\<not> length (disallow_line p) < 9"
    by (simp_all add: disallow_line_def)
  moreover have "takeWhile (\<lambda>c. c \<noteq> CHR ''#'') (CHR '' '' # p) = CHR '' '' # p" by (simp only: takeWhile.simps h) simp
  ultimately show ?thesis by (simp only: directive_arg_def Let_def if_True if_False d w)
qed

lemma disallow_step:
  assumes "plain_path p"
  shows "robots_line E (disallow_line p) S =
    Some (if s_rule S
          then S\<lparr>s_has_cmd := True, s_robot := (s_robot S)\<lparr>rb_rules := rb_rules (s_robot S) @ [disallow_rule p]\<rparr>\<rparr>
          else S\<lparr>s_has_cmd := True\<rparr>)"
proof -
  have "take 8 (disallow_line p) = ''Disallow''" "take 11 (disallow_line p) = CHR ''D'' # take 10 (tl (disallow_line p))"
    by (simp_all add: disallow_line_def)
  then have "c_strncaseeq (disallow_line p) ''Disallow'' 8" "\<not> c_strncaseeq (disallow_line p) ''User-Agent:'' 11"
    by (simp_all add: c_strncaseeq_def c_tolower_def c_isupper_def)
  moreover have "char_at (disallow_line p) 0 = CHR ''D''" "disallow_line p \<noteq> []"
    by (simp_all add: disallow_line_def char_at_def)
  moreover have "p \<noteq> []" using assms by (simp add: plain_path_def)
  ultimately show ?thesis
    by (simp add: robots_line_def directive_line_def Let_def arg_plain [OF assms] normalise_plain [OF assms]
        add_rule_def AddRobotRule_def disallow_rule_def method_defs)
qed

lemma disallow_run:
  "list_all plain_path ps \<Longrightarrow> ps \<noteq> [] \<Longrightarrow>
   run_lines E (map disallow_line ps) S =
    Some (if s_rule S
          then S\<lparr>s_has_cmd := True, s_robot := (s_robot S)\<lparr>rb_rules := rb_rules (s_robot S) @ map disallow_rule ps\<rparr>\<rparr>
          else S\<lparr>s_has_cmd := True\<rparr>)"
proof (induction ps arbitrary: S)
  case (Cons p ps)
  then show ?case by (cases "ps = []") (simp_all add: disallow_step)
qed simp

text \<open>A group of rules for an agent.\<close>

definition group_lines :: "string \<Rightarrow> string list \<Rightarrow> string list" where
  "group_lines agent ps = (''User-agent: '' @ agent) # map disallow_line ps"

definition plain_agent :: "string \<Rightarrow> bool" where
  "plain_agent a \<longleftrightarrow> a \<noteq> [] \<and> clean a \<and> \<not> c_isspace (hd a) \<and> \<not> c_isspace (last a)"

lemma trim_agent: "plain_agent a \<Longrightarrow> DpsTrim (CHR '' '' # a) [CHR '' '', CHR 0x09, CHR 0x0D, CHR 0x0A] = a"
proof -
  assume a: "plain_agent a"
  let ?d = "[CHR '' '', CHR 0x09, CHR 0x0D, CHR 0x0A]"
  have l: "last a \<notin> set ?d" "hd a \<notin> set ?d" using a by (auto simp: plain_agent_def c_isspace_def)
  have ne: "a \<noteq> []" using a by (simp add: plain_agent_def)
  then have n: "length (CHR '' '' # a) = Suc (length a)" "(CHR '' '' # a) ! length a = last a"
    by (simp_all add: last_conv_nth nth_Cons' )
  have "rtrim_len (CHR '' '' # a) ?d (Suc (length a)) = Suc (length a)" using l(1) n(2) by simp
  then have "DpsRTrim (CHR '' '' # a) ?d = CHR '' '' # a" by (simp add: DpsRTrim_def)
  then show ?thesis using l(2) ne by (cases a) (simp_all add: DpsTrim_def)
qed

text \<open>Whether a group is one for this robot: its agent starts the robot's name or, as a pattern, matches it.\<close>

definition own_agent :: "robots_env \<Rightarrow> string \<Rightarrow> bool" where
  "own_agent E a \<longleftrightarrow> a \<noteq> ''*'' \<and> (c_strncaseeq a (e_UA E) (length a) \<or> DpsWildCaseCmp (e_UA E) a = 0)"

text \<open>The state between two groups, by what the parser has seen: the rules, and whether they are its own.\<close>

definition add_paths :: "string list \<Rightarrow> robot \<Rightarrow> robot" where
  "add_paths ps r = r\<lparr>rb_rules := rb_rules r @ map disallow_rule ps\<rparr>"

lemma agent_step:
  assumes "plain_agent a" "s_newrecord S \<or> s_has_cmd S"
  shows "robots_line E (''User-agent: '' @ a) S =
    Some (let S = S\<lparr>s_newrecord := False, s_has_cmd := False, s_rule := False\<rparr>
          in if a = ''*'' then (if s_my S then S else S\<lparr>s_rule := True, s_common := True\<rparr>)
             else if own_agent E a then
               S\<lparr>s_rule := True, s_my := True, s_common := False,
                 s_robot := (if s_common S then reset_rules (s_robot S) else s_robot S)\<rparr>
             else S)"
proof -
  let ?l = "''User-agent: '' @ a"
  have "take 11 ?l = ''User-agent:''" by simp
  moreover have "map c_tolower ''User-agent:'' = map c_tolower ''User-Agent:''" by code_simp
  ultimately have "c_strncaseeq ?l ''User-Agent:'' 11" by (simp add: c_strncaseeq_def)
  moreover have "char_at ?l 0 = CHR ''U''" "?l \<noteq> []" by (simp_all add: char_at_def)
  moreover have "drop 11 ?l = CHR '' '' # a" by simp
  ultimately have "robots_line E ?l S = Some (user_agent_line E ?l S)" "drop 11 ?l = CHR '' '' # a"
    by (simp_all add: robots_line_def)
  then show ?thesis using assms(2)
    by (cases S) (auto simp: user_agent_line_def trim_agent [OF assms(1)] own_agent_def Let_def)
qed

lemma group_run:
  assumes "plain_agent a" "list_all plain_path ps" "ps \<noteq> []" "s_newrecord S \<or> s_has_cmd S"
  shows "run_lines E (group_lines a ps) S =
    Some (let S = S\<lparr>s_newrecord := False, s_has_cmd := True, s_rule := False\<rparr>
          in if a = ''*'' then
               (if s_my S then S else S\<lparr>s_rule := True, s_common := True, s_robot := add_paths ps (s_robot S)\<rparr>)
             else if own_agent E a then
               S\<lparr>s_rule := True, s_my := True, s_common := False,
                 s_robot := add_paths ps (if s_common S then reset_rules (s_robot S) else s_robot S)\<rparr>
             else S)"
  unfolding group_lines_def run_lines.simps agent_step [OF assms(1,4)]
  by (simp add: disallow_run [OF assms(2,3)] Let_def add_paths_def)

text \<open>
  What a file of groups means: the paths of the groups for this robot, or, when there is none, those
  of the groups for every robot.
\<close>

definition group_paths :: "(string \<times> string list) list \<Rightarrow> string list" where
  "group_paths gs = concat (map snd gs)"

definition own_groups :: "robots_env \<Rightarrow> (string \<times> string list) list \<Rightarrow> (string \<times> string list) list" where
  "own_groups E = filter (\<lambda>g. own_agent E (fst g))"

definition common_groups :: "(string \<times> string list) list \<Rightarrow> (string \<times> string list) list" where
  "common_groups = filter (\<lambda>g. fst g = ''*'')"

definition paths_for :: "robots_env \<Rightarrow> (string \<times> string list) list \<Rightarrow> string list" where
  "paths_for E gs = group_paths (if own_groups E gs \<noteq> [] then own_groups E gs else common_groups gs)"

definition plain_group :: "string \<times> string list \<Rightarrow> bool" where
  "plain_group g \<longleftrightarrow> plain_agent (fst g) \<and> list_all plain_path (snd g) \<and> snd g \<noteq> []"

definition file_lines :: "(string \<times> string list) list \<Rightarrow> string list" where
  "file_lines gs = concat (map (\<lambda>g. group_lines (fst g) (snd g)) gs)"

lemmas group_simps = group_paths_def own_groups_def common_groups_def paths_for_def file_lines_def

definition groups_state :: "robots_env \<Rightarrow> (string \<times> string list) list \<Rightarrow> robot \<Rightarrow> robots_st \<Rightarrow> bool" where
  "groups_state E gs r S \<longleftrightarrow>
     s_robot S = r\<lparr>rb_rules := map disallow_rule (paths_for E gs)\<rparr> \<and>
     (s_my S \<longleftrightarrow> own_groups E gs \<noteq> []) \<and> (s_common S \<longleftrightarrow> own_groups E gs = [] \<and> common_groups gs \<noteq> []) \<and>
     (s_newrecord S \<or> s_has_cmd S) \<and> s_sitemaps S = []"

lemma groups_run:
  assumes "rb_rules r = []"
  shows "list_all plain_group gs \<Longrightarrow>
    \<exists>S. run_lines E (file_lines gs) (start_state r) = Some S \<and> groups_state E gs r S"
proof (induction gs rule: rev_induct)
  case Nil
  then show ?case using assms by (simp add: groups_state_def group_simps start_state_def)
next
  case (snoc g gs)
  then obtain S where S: "run_lines E (file_lines gs) (start_state r) = Some S" "groups_state E gs r S" by auto
  have g: "plain_agent (fst g)" "list_all plain_path (snd g)" "snd g \<noteq> []"
    using snoc.prems by (auto simp: plain_group_def)
  have st: "s_newrecord S \<or> s_has_cmd S" using S(2) by (simp add: groups_state_def)
  have "file_lines (gs @ [g]) = file_lines gs @ group_lines (fst g) (snd g)" by (simp add: file_lines_def)
  then have run: "run_lines E (file_lines (gs @ [g])) (start_state r) = run_lines E (group_lines (fst g) (snd g)) S"
    by (simp add: run_lines_append S(1))
  have star: "\<not> own_agent E ''*''" by (simp add: own_agent_def)
  show ?case unfolding run group_run [OF g st] using S(2) star
    by (auto simp: groups_state_def group_simps Let_def add_paths_def reset_rules_def)
qed

text \<open>The lines of a group are lines, and not empty.\<close>

lemma group_lines_clean: "plain_group g \<Longrightarrow> list_all (\<lambda>l. clean l \<and> l \<noteq> []) (group_lines (fst g) (snd g))"
  by (auto simp: plain_group_def group_lines_def plain_agent_def plain_path_def disallow_line_def clean_def list_all_iff)

lemma file_lines_clean: "list_all plain_group gs \<Longrightarrow> list_all (\<lambda>l. clean l \<and> l \<noteq> []) (file_lines gs)"
  using group_lines_clean by (fastforce simp: file_lines_def list_all_iff)

lemma parse_groups:
  assumes "list_all plain_group gs" "rb_rules r = []"
  shows "map_option s_robot (parse_content E r (text_of (file_lines gs))) =
    Some (r\<lparr>rb_rules := (if paths_for E gs = [] then [\<lparr>r_cmd = DPS_METHOD_GET, r_path = ''/''\<rparr>]
                        else map disallow_rule (paths_for E gs))\<rparr>)"
proof (cases "file_lines gs")
  case Nil
  then have "gs = []" by (cases gs) (auto simp: file_lines_def group_lines_def)
  then show ?thesis using assms(2)
    by (simp add: parse_content_def text_of_def file_lines_def parse_lines.simps next_line_Nil group_simps
        add_rule_def AddRobotRule_def method_defs)
next
  case (Cons l ls)
  have c: "list_all (\<lambda>l. clean l \<and> l \<noteq> []) (l # ls)" using file_lines_clean [OF assms(1)] by (simp add: Cons)
  then have "list_all clean (l # ls)" "last (l # ls) \<noteq> []" "l \<noteq> []"
    using last_in_set [of "l # ls"] by (auto simp: list_all_iff)
  from parse_content_run [OF this] obtain S where
    "run_lines E (l # ls) (start_state r) = Some S" "groups_state E gs r S"
    and p: "parse_content E r (text_of (l # ls)) =
      map_option (\<lambda>S. if rb_rules (s_robot S) = [] then add_rule E DPS_METHOD_GET ''/'' S else S)
        (run_lines E (l # ls) (start_state r))"
    using groups_run [OF assms(2,1), of E] by (auto simp: Cons)
  then show ?thesis unfolding Cons p
    by (simp add: groups_state_def add_rule_def AddRobotRule_def method_defs)
qed

section \<open>The answer for a URL\<close>

lemma glob_plain: "plain_path p \<or> p = [] \<Longrightarrow> glob (\<lambda>c. c) (=) True p s \<longleftrightarrow> s = p"
proof (induction p arbitrary: s)
  case (Cons c p)
  then have "plain_path p \<or> p = []" "c \<noteq> CHR ''*''" "c \<noteq> CHR ''?''" "c \<noteq> CHR 0x5C"
    by (auto simp: plain_path_def)
  then show ?case using Cons.IH [of "tl s"] by (cases s) auto
qed simp

lemma wild_plain: "plain_path p \<Longrightarrow> DpsWildCmp s p = 0 \<longleftrightarrow> s = p"
  using wild_correct(1) [of "\<lambda>c. c" p "(=)" True s] glob_plain [of p s]
  by (auto simp: DpsWildCmp_def plain_path_def)

lemma rule_loop_plain:
  "list_all plain_path ps \<Longrightarrow>
   rule_loop known host url aliased False (map disallow_rule ps) =
     (case find (\<lambda>p. prefix p url) ps of Some p \<Rightarrow> Rule (disallow_rule p) | None \<Rightarrow> No_rule)"
  by (induction ps) (auto simp: disallow_rule_def wild_plain method_defs)

lemma paths_for_plain: "list_all plain_group gs \<Longrightarrow> list_all plain_path (paths_for E gs)"
  by (auto simp: group_simps list_all_iff plain_group_def)

definition url_text :: "dps_url \<Rightarrow> string" where
  "url_text u = null2empty (u_path u) @ null2empty (u_filename u) @ null2empty (u_query_string u)"

lemma exclusion:
  assumes "list_all plain_group gs" "rb_rules r = []" "c_strncaseeq (null2empty (u_schema URL)) ''http'' 4"
  shows "map_option (\<lambda>S. robot_rule_find known URL (Some (s_robot S)) aliased) (parse_content E r (text_of (file_lines gs))) =
    Some (if paths_for E gs = [] then
            (if prefix ''/'' (url_text URL) then Rule \<lparr>r_cmd = DPS_METHOD_GET, r_path = ''/''\<rparr> else No_rule)
          else (case find (\<lambda>p. prefix p (url_text URL)) (paths_for E gs) of
                  Some p \<Rightarrow> Rule (disallow_rule p) | None \<Rightarrow> No_rule))"
proof -
  let ?ps = "paths_for E gs"
  obtain S where S: "parse_content E r (text_of (file_lines gs)) = Some S" and
    "s_robot S = r\<lparr>rb_rules := (if ?ps = [] then [\<lparr>r_cmd = DPS_METHOD_GET, r_path = ''/''\<rparr>] else map disallow_rule ?ps)\<rparr>"
    using parse_groups [OF assms(1,2), of E] by auto
  then have rules: "rb_rules (s_robot S) =
      (if ?ps = [] then [\<lparr>r_cmd = DPS_METHOD_GET, r_path = ''/''\<rparr>] else map disallow_rule ?ps)" by simp
  have slash: "DpsWildCmp (url_text URL) ''/'' = 0 \<longleftrightarrow> url_text URL = ''/''" by (rule wild_plain) (simp add: plain_path_def)
  show ?thesis unfolding S
    using assms(3) rules rule_loop_plain [OF paths_for_plain [OF assms(1), of E], where known = known and url = "url_text URL" and aliased = aliased] slash
    by (auto simp: robot_rule_find_def method_defs simp flip: url_text_def)
qed

section \<open>The list of hosts is a map\<close>

definition rkey :: "robot \<Rightarrow> string" where
  "rkey r = map c_tolower (rb_hostinfo r)"

definition robots_map :: "robot list \<Rightarrow> string \<Rightarrow> robot option" where
  "robots_map rs = map_of (map (\<lambda>r. (rkey r, r)) rs)"

definition robots_ok :: "robot list \<Rightarrow> bool" where
  "robots_ok rs \<longleftrightarrow> cmp_sorted DpsRobotCmp rs \<and> distinct (map rkey rs)"

definition sorts_robots :: "(robot list \<Rightarrow> robot list) \<Rightarrow> bool" where
  "sorts_robots dpsort \<longleftrightarrow> (\<forall>rs. mset (dpsort rs) = mset rs \<and> cmp_sorted DpsRobotCmp (dpsort rs))"

interpretation robots: key_order DpsRobotCmp
  by standard (simp_all add: DpsRobotCmp_def names.cmp_flip names.cmp_trans [of "rb_hostinfo _"])

lemma RobotCmp_0: "DpsRobotCmp a b = 0 \<longleftrightarrow> rkey a = rkey b"
  by (simp add: DpsRobotCmp_def rkey_def strcasecmp_0_iff)

lemma robots_map_iff: "distinct (map rkey rs) \<Longrightarrow> robots_map rs k = Some r \<longleftrightarrow> r \<in> set rs \<and> rkey r = k"
  by (auto simp: robots_map_def map_of_eq_Some_iff o_def)

lemma robots_map_update:
  assumes "distinct (map rkey rs)" "i < length rs" "rkey r = rkey (rs ! i)"
  shows "robots_map (rs[i := r]) = (robots_map rs)(rkey r \<mapsto> r)"
proof -
  have k: "map rkey (rs[i := r]) = map rkey rs" using assms(2,3) by (simp add: map_update) (metis list_update_id map_update)
  have "robots_map (rs[i := r]) h = Some q \<longleftrightarrow> ((robots_map rs)(rkey r \<mapsto> r)) h = Some q" for h q
  proof -
    have "distinct rs" using assms(1) by (simp add: distinct_map)
    then have "q \<in> set (rs[i := r]) \<longleftrightarrow> q = r \<or> (q \<in> set rs \<and> q \<noteq> rs ! i)"
      using assms(2) by (auto simp: set_update_distinct)
    moreover have "q \<in> set rs \<Longrightarrow> rkey q = rkey r \<Longrightarrow> q = rs ! i"
      using assms by (metis distinct_map inj_on_contraD nth_mem)
    ultimately show ?thesis
      using robots_map_iff [OF assms(1)] robots_map_iff [of "rs[i := r]" h q] assms k by auto
  qed
  then show ?thesis by (metis (no_types, lifting) ext option.exhaust_sel)
qed

lemma robots_ok_update:
  "robots_ok rs \<Longrightarrow> i < length rs \<Longrightarrow> rb_hostinfo r = rb_hostinfo (rs ! i) \<Longrightarrow> robots_ok (rs[i := r])"
  by (auto simp: robots_ok_def map_update rkey_def cmp_sorted_def sorted_wrt_iff_nth_less nth_list_update DpsRobotCmp_def)
    (metis list_update_id map_update rkey_def)

lemma RobotFind_map:
  assumes "robots_ok rs"
  shows "case DpsRobotFind rs h of
      Some i \<Rightarrow> i < length rs \<and> robots_map rs (map c_tolower h) = Some (rs ! i) \<and> rkey (rs ! i) = map c_tolower h
    | None \<Rightarrow> robots_map rs (map c_tolower h) = None"
proof -
  have d: "distinct (map rkey rs)" and s: "cmp_sorted DpsRobotCmp rs" using assms by (simp_all add: robots_ok_def)
  have h: "rkey (empty_robot h) = map c_tolower h" by (simp add: rkey_def empty_robot_def)
  have none: "robots_map rs k = None \<longleftrightarrow> (\<forall>r \<in> set rs. rkey r \<noteq> k)" for k
    by (auto simp: robots_map_def map_of_eq_None_iff image_image)
  consider (nil) "rs = []" | (one) r where "rs = [r]" | (more) "rs \<noteq> []" "length rs \<noteq> 1"
    by (metis One_nat_def length_0_conv length_Suc_conv)
  then show ?thesis
  proof cases
    case nil
    then show ?thesis by (simp add: DpsRobotFind_def robots_map_def)
  next
    case one
    then show ?thesis by (simp add: DpsRobotFind_def robots_map_def rkey_def strcasecmp_0_iff)
  next
    case more
    then have "DpsRobotFind rs h = dps_bsearch DpsRobotCmp (empty_robot h) rs" by (simp add: DpsRobotFind_def)
    with robots.bsearch_correct [OF s, of "empty_robot h"] show ?thesis
      using robots_map_iff [OF d] none by (auto simp: RobotCmp_0 h split: option.splits)
  qed
qed

lemma AddEmpty_map:
  assumes "robots_ok rs" "sorts_robots dpsort" "robots_map rs (map c_tolower h) = None"
  shows "\<exists>rs' i. DpsRobotAddEmpty dpsort rs h = (rs', Some i) \<and> robots_ok rs' \<and> i < length rs' \<and>
    rs' ! i = empty_robot h \<and> robots_map rs' = (robots_map rs)(map c_tolower h \<mapsto> empty_robot h)"
proof -
  let ?e = "empty_robot h" and ?k = "map c_tolower h"
  have d: "distinct (map rkey rs)" using assms(1) by (simp add: robots_ok_def)
  have h: "rkey ?e = ?k" by (simp add: rkey_def empty_robot_def)
  have new: "\<forall>r \<in> set rs. rkey r \<noteq> ?k" using assms(3) by (auto simp: robots_map_def map_of_eq_None_iff image_iff)
  define rs' where "rs' = (if length (rs @ [?e]) > 1 then dpsort (rs @ [?e]) else rs @ [?e])"
  have srt: "mset (dpsort xs) = mset xs" "cmp_sorted DpsRobotCmp (dpsort xs)" for xs
    using assms(2) by (auto simp: sorts_robots_def)
  have m: "mset rs' = mset (rs @ [?e])" by (simp add: rs'_def srt(1))
  then have "mset (map rkey rs') = mset (map rkey (rs @ [?e]))" by (metis mset_map)
  then have "distinct (map rkey rs') = distinct (map rkey (rs @ [?e]))" by (rule mset_eq_imp_distinct_iff)
  then have d': "distinct (map rkey rs')" using d new h by auto
  have "cmp_sorted DpsRobotCmp rs'" by (cases rs) (simp_all add: rs'_def srt(2) cmp_sorted_def [of _ "[_]"])
  then have ok: "robots_ok rs'" using d' by (simp add: robots_ok_def)
  have st: "set rs' = insert ?e (set rs)" using mset_eq_setD [OF m] by simp
  have "robots_map rs' k = Some q \<longleftrightarrow> ((robots_map rs)(?k \<mapsto> ?e)) k = Some q" for k q
    using robots_map_iff [OF d, of k q] robots_map_iff [OF d', of k q] st h new by auto
  then have mp: "robots_map rs' = (robots_map rs)(?k \<mapsto> ?e)" by (metis (no_types, lifting) ext option.exhaust_sel)
  have "\<exists>i. DpsRobotAddEmpty dpsort rs h = (rs', Some i) \<and> i < length rs' \<and> rs' ! i = ?e"
  proof (cases "rs = []")
    case True
    then show ?thesis by (simp add: DpsRobotAddEmpty_def rs'_def)
  next
    case False
    then have "DpsRobotAddEmpty dpsort rs h = (rs', DpsRobotFind rs' h)" by (simp add: DpsRobotAddEmpty_def rs'_def Let_def)
    then show ?thesis using RobotFind_map [OF ok, of h] mp by (auto split: option.splits)
  qed
  then show ?thesis using ok mp by blast
qed

text \<open>Parsing changes the rules and the delay of a robot, not its name.\<close>

lemma add_rule_host: "rb_hostinfo (s_robot (add_rule E cmd a S)) = rb_hostinfo (s_robot S)"
  by (simp add: add_rule_def AddRobotRule_def)

lemma user_agent_line_host: "rb_hostinfo (s_robot (user_agent_line E s S)) = rb_hostinfo (s_robot S)"
  by (simp add: user_agent_line_def reset_rules_def Let_def)

lemma host_line_host: "rb_hostinfo (s_robot (host_line E s S)) = rb_hostinfo (s_robot S)"
  by (simp add: host_line_def add_rule_host split: sum.split)

lemma map_option_host: "map_option f a = Some S' \<Longrightarrow> (\<And>x. h (f x) = k) \<Longrightarrow> h S' = k"
  by auto

lemma some_host: "Some x = Some S' \<Longrightarrow> h x = k \<Longrightarrow> h S' = k"
  by auto

lemma directive_line_host: "directive_line E s S = Some S' \<Longrightarrow> rb_hostinfo (s_robot S') = rb_hostinfo (s_robot S)"
  unfolding directive_line_def Let_def
  by (simp only: split: if_split_asm) (erule map_option_host some_host, simp add: host_line_host add_rule_host)+

lemma robots_line_host: "robots_line E s S = Some S' \<Longrightarrow> rb_hostinfo (s_robot S') = rb_hostinfo (s_robot S)"
  unfolding robots_line_def Let_def
  by (simp only: split: if_split_asm) ((erule some_host | drule directive_line_host), simp add: user_agent_line_host)+

lemma parse_lines_host: "parse_lines E s lt S = Some S' \<Longrightarrow> rb_hostinfo (s_robot S') = rb_hostinfo (s_robot S)"
proof (induction E s lt S rule: parse_lines.induct)
  case (1 E s lt S)
  show ?case
  proof (cases "s = [] \<and> lt = []")
    case True
    then show ?thesis using "1.prems" by (simp add: parse_lines.simps)
  next
    case False
    with "1.prems" obtain T where "robots_line E s S = Some T"
      "parse_lines E (fst (next_line lt)) (snd (next_line lt)) T = Some S'"
      unfolding parse_lines.simps [of E s lt S] by (simp only: if_False) (cases "robots_line E s S"; simp)
    then show ?thesis using "1.IH" [OF False] robots_line_host by simp
  qed
qed

lemma parse_content_host: "parse_content E r s = Some S \<Longrightarrow> rb_hostinfo (s_robot S) = rb_hostinfo r"
  by (auto simp: parse_content_def Let_def add_rule_def AddRobotRule_def dest!: parse_lines_host split: if_splits)

definition fresh_robot :: "robot list \<Rightarrow> string \<Rightarrow> robot" where
  "fresh_robot rs h = (case robots_map rs (map c_tolower h) of Some r \<Rightarrow> reset_rules r | None \<Rightarrow> empty_robot h)"

lemma RobotParse_map:
  assumes "robots_ok rs" "sorts_robots dpsort"
  shows "case parse_content E (fresh_robot rs h) s of
      None \<Rightarrow> DpsRobotParse dpsort E rs (Some s) h = None
    | Some S \<Rightarrow> \<exists>rs'. DpsRobotParse dpsort E rs (Some s) h = Some (rs', s_sitemaps S) \<and> robots_ok rs' \<and>
        robots_map rs' = (robots_map rs)(map c_tolower h \<mapsto> s_robot S)"
proof -
  let ?k = "map c_tolower h"
  have "\<exists>rs1 i. (case DeleteRobotRules rs h of (rs, Some i) \<Rightarrow> (rs, Some i) | (rs, None) \<Rightarrow> DpsRobotAddEmpty dpsort rs h) = (rs1, Some i) \<and>
      robots_ok rs1 \<and> i < length rs1 \<and> rs1 ! i = fresh_robot rs h \<and> rkey (rs1 ! i) = ?k \<and>
      robots_map rs1 = (robots_map rs)(?k \<mapsto> rs1 ! i)"
  proof (cases "DpsRobotFind rs h")
    case None
    then have n: "robots_map rs ?k = None" using RobotFind_map [OF assms(1), of h] by simp
    then show ?thesis using AddEmpty_map [OF assms n] None
      by (auto simp: DeleteRobotRules_def fresh_robot_def rkey_def empty_robot_def)
  next
    case (Some i)
    then have i: "i < length rs" "robots_map rs ?k = Some (rs ! i)" "rkey (rs ! i) = ?k"
      using RobotFind_map [OF assms(1), of h] by simp_all
    have "rb_hostinfo (reset_rules (rs ! i)) = rb_hostinfo (rs ! i)" by (simp add: reset_rules_def)
    with i have "robots_ok (rs[i := reset_rules (rs ! i)])"
      "robots_map (rs[i := reset_rules (rs ! i)]) = (robots_map rs)(?k \<mapsto> reset_rules (rs ! i))"
      using robots_ok_update [OF assms(1)] robots_map_update [of rs i "reset_rules (rs ! i)"] assms(1)
      by (auto simp: rkey_def robots_ok_def)
    then show ?thesis using i Some by (auto simp: DeleteRobotRules_def fresh_robot_def rkey_def reset_rules_def)
  qed
  then obtain rs1 i where
    step: "(case DeleteRobotRules rs h of (rs, Some i) \<Rightarrow> (rs, Some i) | (rs, None) \<Rightarrow> DpsRobotAddEmpty dpsort rs h) = (rs1, Some i)"
    and r: "robots_ok rs1" "i < length rs1" "rs1 ! i = fresh_robot rs h" "rkey (rs1 ! i) = ?k"
      "robots_map rs1 = (robots_map rs)(?k \<mapsto> rs1 ! i)" by blast
  have parse: "DpsRobotParse dpsort E rs (Some s) h =
      map_option (\<lambda>S. (rs1[i := s_robot S], s_sitemaps S)) (parse_content E (fresh_robot rs h) s)"
    unfolding DpsRobotParse_def step by (simp add: r(3))
  show ?thesis
  proof (cases "parse_content E (fresh_robot rs h) s")
    case (Some S)
    have n: "rb_hostinfo (s_robot S) = rb_hostinfo (rs1 ! i)" using parse_content_host [OF Some] r(3) by simp
    then have k: "rkey (s_robot S) = ?k" using r(4) by (simp add: rkey_def)
    have "robots_map (rs1[i := s_robot S]) = (robots_map rs)(?k \<mapsto> s_robot S)"
      using robots_map_update [OF _ r(2), of "s_robot S"] r(1,4,5) k by (simp add: robots_ok_def)
    then show ?thesis using parse Some robots_ok_update [OF r(1,2) n] by simp
  qed (use parse in simp)
qed

section \<open>Properties\<close>

text \<open>
  C6. Robot exclusion, from the text of a robots.txt file to the answer for a URL. The file is any
  sequence of groups, each an agent line and one or more plain Disallow lines. The parser accepts
  it, and the rule found for an http URL is the first path that is a prefix of it among the groups
  for this robot, wherever they stand in the file, or, when no group is for this robot, among
  those of the groups for all robots. A file with no such path allows everything.
\<close>

theorem robots_exclusion:
  "list_all plain_group gs \<Longrightarrow> rb_rules r = [] \<Longrightarrow> c_strncaseeq (null2empty (u_schema URL)) ''http'' 4 \<Longrightarrow>
   map_option (\<lambda>S. robot_rule_find known URL (Some (s_robot S)) aliased) (parse_content E r (text_of (file_lines gs))) =
    Some (if paths_for E gs = [] then
            (if prefix ''/'' (url_text URL) then Rule \<lparr>r_cmd = DPS_METHOD_GET, r_path = ''/''\<rparr> else No_rule)
          else (case find (\<lambda>p. prefix p (url_text URL)) (paths_for E gs) of
                  Some p \<Rightarrow> Rule (disallow_rule p) | None \<Rightarrow> No_rule))"
  by (rule exclusion)

definition sample_env :: robots_env where
  "sample_env = \<lparr>e_UA = ''DataparkSearch/4.54'', e_use_sitemaps = False, e_delay = (\<lambda>_. 0),
     e_resolves = (\<lambda>_ _. False), e_entity = (\<lambda>_. None)\<rparr>"

definition sample_url :: dps_url where
  "sample_url = empty_url\<lparr>u_schema := Some ''http'', u_hostinfo := Some ''a.org'', u_path := Some ''/tmp/'', u_filename := Some ''x.html''\<rparr>"

theorem robots_exclusion_witness:
  "map_option (\<lambda>S. robot_rule_find (\<lambda>_. False) sample_url (Some (s_robot S)) False)
     (parse_content sample_env (empty_robot ''a.org'')
        (text_of (file_lines [(''*'', [''/'']), (''datapark'', [''/cgi'', ''/tmp'']), (''*'', [''/tmp/x''])]))) =
   Some (Rule (disallow_rule ''/tmp''))"
proof -
  let ?gs = "[(''*'', [''/'']), (''datapark'', [''/cgi'', ''/tmp'']), (''*'', [''/tmp/x''])]"
  have g: "list_all plain_group ?gs" by code_simp
  have p: "paths_for sample_env ?gs = [''/cgi'', ''/tmp'']" by code_simp
  have u: "url_text sample_url = ''/tmp/x.html''" by (simp add: url_text_def sample_url_def null2empty_def empty_url_def)
  have s: "c_strncaseeq (null2empty (u_schema sample_url)) ''http'' 4" by (simp add: sample_url_def null2empty_def c_strncaseeq_def)
  have e: "rb_rules (empty_robot ''a.org'') = []" by (simp add: empty_robot_def)
  show ?thesis using robots_exclusion [OF g e s, of "\<lambda>_. False" False sample_env] unfolding p u by simp
qed

text \<open>
  C7. The list of hosts is a map from host names, without regard to case, to rules. Parsing the file
  of a host starts from the host's entry without its rules, or a new one, and replaces that entry
  and no other; the list stays sorted, with one entry for a host. The parser fails (reads after a
  line) on the same files whatever the list is.
\<close>

theorem DpsRobotParse_refines:
  "robots_ok rs \<Longrightarrow> sorts_robots dpsort \<Longrightarrow>
   (case parse_content E (fresh_robot rs h) s of
      None \<Rightarrow> DpsRobotParse dpsort E rs (Some s) h = None
    | Some S \<Rightarrow> \<exists>rs'. DpsRobotParse dpsort E rs (Some s) h = Some (rs', s_sitemaps S) \<and> robots_ok rs' \<and>
        robots_map rs' = (robots_map rs)(map c_tolower h \<mapsto> s_robot S))"
  by (rule RobotParse_map)

definition insert_robots :: "robot list \<Rightarrow> robot list" where
  "insert_robots = foldl (\<lambda>rs r. DpsVarSortForLast DpsRobotCmp (rs @ [r])) []"

lemma insert_robots_sorts: "sorts_robots insert_robots"
proof -
  have "mset (foldl (\<lambda>rs r. DpsVarSortForLast DpsRobotCmp (rs @ [r])) xs rs) = mset xs + mset rs \<and>
      cmp_sorted DpsRobotCmp (foldl (\<lambda>rs r. DpsVarSortForLast DpsRobotCmp (rs @ [r])) xs rs)"
    if "cmp_sorted DpsRobotCmp xs" for xs rs
    using that
  proof (induction rs arbitrary: xs)
    case (Cons r rs)
    then show ?case using robots.sort_for_last_correct [of "xs @ [r]"] by simp
  qed simp
  from this [of "[]"] show ?thesis by (simp add: sorts_robots_def insert_robots_def cmp_sorted_def)
qed

theorem DpsRobotParse_refines_witness:
  "\<exists>rs'. DpsRobotParse insert_robots sample_env [empty_robot ''b.org''] (Some ''User-agent: *'') ''A.org'' = Some (rs', []) \<and>
     robots_ok rs' \<and> robots_map rs' ''b.org'' = Some (empty_robot ''b.org'') \<and>
     robots_map rs' ''a.org'' = Some ((empty_robot ''A.org'')\<lparr>rb_rules := [\<lparr>r_cmd = DPS_METHOD_GET, r_path = ''/''\<rparr>]\<rparr>)"
proof -
  have ok: "robots_ok [empty_robot ''b.org'']" by (simp add: robots_ok_def cmp_sorted_def)
  have k: "map c_tolower ''A.org'' = ''a.org''" by code_simp
  have b: "rkey (empty_robot ''b.org'') = ''b.org''" by code_simp
  have f: "fresh_robot [empty_robot ''b.org''] ''A.org'' = empty_robot ''A.org''"
    by (simp only: fresh_robot_def robots_map_def k) (simp add: b)
  obtain S where S: "parse_content sample_env (empty_robot ''A.org'') ''User-agent: *'' = Some S"
    "s_sitemaps S = []" "s_robot S = (empty_robot ''A.org'')\<lparr>rb_rules := [\<lparr>r_cmd = DPS_METHOD_GET, r_path = ''/''\<rparr>]\<rparr>"
  proof -
    have "map_option (\<lambda>S. (s_sitemaps S, s_robot S)) (parse_content sample_env (empty_robot ''A.org'') ''User-agent: *'') =
      Some ([], (empty_robot ''A.org'')\<lparr>rb_rules := [\<lparr>r_cmd = DPS_METHOD_GET, r_path = ''/''\<rparr>]\<rparr>)" by code_simp
    then show ?thesis using that by auto
  qed
  show ?thesis using DpsRobotParse_refines [OF ok insert_robots_sorts, where E = sample_env and h = "''A.org''" and s = "''User-agent: *''"]
    by (simp only: f S(1) option.case k S(2,3)) (auto simp: robots_map_def b)
qed

section \<open>Files that are read otherwise than meant\<close>

definition rules_of :: "string \<Rightarrow> (nat \<times> string) list option" where
  "rules_of s = map_option (\<lambda>S. map (\<lambda>r. (r_cmd r, r_path r)) (rb_rules (s_robot S)))
     (parse_content sample_env (empty_robot ''a.org'') s)"

text \<open>An end-of-URL mark is dropped from a path, which then is a prefix rule.\<close>

lemma dollar_dropped: "dps_robots_normalise ''/a$'' = ''/a'' \<and> prefix ''/a'' ''/a/b''"
  by code_simp

text \<open>Two agents over one group, the robot and all robots: the rules are not taken.\<close>

lemma shared_group_ignored:
  "rules_of (text_of [''User-agent: datapark'', ''User-agent: *'', ''Disallow: /tmp'']) = Some [(DPS_METHOD_GET, ''/'')]"
  "rules_of (text_of [''User-agent: *'', ''User-agent: datapark'', ''Disallow: /tmp'']) = Some [(DPS_METHOD_DISALLOW, ''/tmp'')]"
  by code_simp+

text \<open>After a line that ends in a carriage return alone, the next line loses its first character.\<close>

lemma cr_line_eats: "rules_of (''User-agent: *'' @ [CHR 0x0D] @ ''Disallow: /tmp'') = Some [(DPS_METHOD_GET, ''/'')]"
  by code_simp

text \<open>A directive that ends before its colon is read beyond its end.\<close>

lemma short_directive: "rules_of (text_of [''User-agent: *'', ''Disallow'']) = None"
  by code_simp

text \<open>A delay without a value is a rule whose path is a prefix of every URL, and hides the rules after it.\<close>

lemma empty_delay_rule:
  "rules_of (text_of [''User-agent: *'', ''Crawl-delay:'', ''Disallow: /tmp'']) =
     Some [(DPS_METHOD_CRAWLDELAY, []), (DPS_METHOD_DISALLOW, ''/tmp'')]"
  "rule_loop known host url aliased False [\<lparr>r_cmd = DPS_METHOD_CRAWLDELAY, r_path = []\<rparr>, disallow_rule ''/tmp''] =
     Rule \<lparr>r_cmd = DPS_METHOD_CRAWLDELAY, r_path = []\<rparr>"
  by (code_simp, simp)

end
