(* ===== verification/Dps_Sort.thy ===== *)
theory Dps_Sort
  imports Dps_Search
begin

text \<open>
  The two sorting algorithms of \<^verbatim>\<open>src/searchtool.c\<close>, on arrays of any type with any comparison:
  a heap sort that moves a hole down, and a quick sort with a pivot from nine positions that ends in
  a selection sort. The code has each twice, for the comparison by site and the one by pattern. Its
  parallel arrays are one list of rows here, since the code moves their elements together; indices
  are those of the code. Sorting the smaller part in a thread of its own is left out: the two parts
  are disjoint.
\<close>

section \<open>The heap sort\<close>

text \<open>The child of a row that is moved up when the hole gets there.\<close>

definition larger_child :: "('a \<Rightarrow> 'a \<Rightarrow> int) \<Rightarrow> nat \<Rightarrow> 'a list \<Rightarrow> nat \<Rightarrow> nat" where
  "larger_child cmp n a parent =
    (let child = 2 * parent + 1
     in if child + 1 < n \<and> cmp (a ! (child + 1)) (a ! child) > 0 then child + 1 else child)"

lemma larger_child: "2 * p + 1 < n \<Longrightarrow> larger_child cmp n a p < n \<and> p < larger_child cmp n a p \<and> (larger_child cmp n a p - 1) div 2 = p"
  by (simp add: larger_child_def Let_def)

text \<open>\<open>Tmp\<close> is the row taken out, \<open>parent\<close> the hole.\<close>

function sift :: "('a \<Rightarrow> 'a \<Rightarrow> int) \<Rightarrow> 'a \<Rightarrow> nat \<Rightarrow> nat \<Rightarrow> 'a list \<Rightarrow> 'a list" where
  "sift cmp Tmp n parent a =
    (if 2 * parent + 1 < n \<and> cmp (a ! larger_child cmp n a parent) Tmp > 0
     then sift cmp Tmp n (larger_child cmp n a parent) (a[parent := a ! larger_child cmp n a parent])
     else a[parent := Tmp])"
  by pat_completeness auto
termination
  by (relation "measure (\<lambda>(cmp, Tmp, n, parent, a). n - parent)")
    (simp, use larger_child in \<open>fastforce intro: diff_less_mono2\<close>)

declare sift.simps [simp del]

function heap_loop :: "('a \<Rightarrow> 'a \<Rightarrow> int) \<Rightarrow> nat \<Rightarrow> nat \<Rightarrow> 'a list \<Rightarrow> 'a list" where
  "heap_loop cmp n i a =
    (if i > 0 then heap_loop cmp n (i - 1) (sift cmp (a ! (i - 1)) n (i - 1) a)
     else if n - 1 = 0 then a
     else heap_loop cmp (n - 1) 0 (sift cmp (a ! (n - 1)) (n - 1) 0 (a[n - 1 := a ! 0])))"
  by pat_completeness auto
termination
  by (relation "measures [\<lambda>(cmp, n, i, a). n, \<lambda>(cmp, n, i, a). i]") auto

declare heap_loop.simps [simp del]

definition heap_sort :: "('a \<Rightarrow> 'a \<Rightarrow> int) \<Rightarrow> 'a list \<Rightarrow> 'a list" where
  "heap_sort cmp a = (if length a < 2 then a else heap_loop cmp (length a) (length a div 2) a)"

section \<open>Its correctness\<close>

abbreviation par :: "nat \<Rightarrow> nat" where "par c \<equiv> (c - 1) div 2"

definition heap_from :: "('a \<Rightarrow> 'a \<Rightarrow> int) \<Rightarrow> nat \<Rightarrow> nat \<Rightarrow> 'a list \<Rightarrow> bool" where
  "heap_from cmp lo n a \<longleftrightarrow> (\<forall>c. 0 < c \<longrightarrow> c < n \<longrightarrow> lo \<le> par c \<longrightarrow> cmp (a ! c) (a ! par c) \<le> 0)"

lemma sift_outside:
  "length (sift cmp Tmp n p a) = length a \<and> (p < n \<longrightarrow> drop n (sift cmp Tmp n p a) = drop n a)"
proof (induction cmp Tmp n p a rule: sift.induct)
  case (1 cmp Tmp n parent a)
  show ?case
  proof (cases "2 * parent + 1 < n \<and> cmp (a ! larger_child cmp n a parent) Tmp > 0")
    case True
    then have c: "larger_child cmp n a parent < n" "parent < larger_child cmp n a parent"
      using larger_child [of parent n cmp a] by auto
    then show ?thesis
      using "1.IH" [OF True] unfolding sift.simps [of cmp Tmp n parent a] if_P [OF True] by (simp only: length_list_update) simp
  next
    case False
    then show ?thesis unfolding sift.simps [of cmp Tmp n parent a] if_not_P [OF False] by simp
  qed
qed

lemma sift_length [simp]: "length (sift cmp Tmp n p a) = length a"
  by (rule sift_outside [THEN conjunct1])

lemma sift_drop: "p < n \<Longrightarrow> drop n (sift cmp Tmp n p a) = drop n a"
  by (rule sift_outside [THEN conjunct2, THEN mp])

lemma sift_mset: "n \<le> length a \<Longrightarrow> p < n \<Longrightarrow> mset (sift cmp Tmp n p a) = mset (a[p := Tmp])"
proof (induction cmp Tmp n p a rule: sift.induct)
  case (1 cmp Tmp n parent a)
  let ?c = "larger_child cmp n a parent"
  show ?case
  proof (cases "2 * parent + 1 < n \<and> cmp (a ! ?c) Tmp > 0")
    case False
    then show ?thesis unfolding sift.simps [of cmp Tmp n parent a] if_not_P [OF False] by simp
  next
    case True
    then have c: "?c < n" "?c \<noteq> parent" using larger_child [of parent n cmp a] by auto
    let ?b = "a[parent := Tmp]"
    have "mset (?b[parent := ?b ! ?c, ?c := ?b ! parent]) = mset ?b"
      using mset_swap [of ?c ?b parent] c(1) "1.prems" by simp
    moreover have "?b[parent := ?b ! ?c, ?c := ?b ! parent] = a[parent := a ! ?c, ?c := Tmp]"
      using c(2) "1.prems" by simp
    moreover have "mset (sift cmp Tmp n ?c (a[parent := a ! ?c])) = mset (a[parent := a ! ?c, ?c := Tmp])"
      using "1.IH" [OF True] c(1) "1.prems" by simp
    moreover have "sift cmp Tmp n parent a = sift cmp Tmp n ?c (a[parent := a ! ?c])"
      unfolding sift.simps [of cmp Tmp n parent a] if_P [OF True] by simp
    ultimately show ?thesis by simp
  qed
qed

context key_order
begin

text \<open>
  The rows are a heap but for the hole, where the row taken out is put; the rows under the hole are
  not above the row over it.
\<close>

lemma sift_heap:
  assumes "lo \<le> p" "p < n" "n \<le> length a"
    and "\<And>c. 0 < c \<Longrightarrow> c < n \<Longrightarrow> lo \<le> par c \<Longrightarrow> par c \<noteq> p \<Longrightarrow> cmp (a[p := Tmp] ! c) (a[p := Tmp] ! par c) \<le> 0"
    and "\<And>c. 0 < c \<Longrightarrow> c < n \<Longrightarrow> par c = p \<Longrightarrow> 0 < p \<Longrightarrow> lo \<le> par p \<Longrightarrow> cmp (a ! c) (a ! par p) \<le> 0"
  shows "heap_from cmp lo n (sift cmp Tmp n p a)"
  using assms
proof (induction "n - p" arbitrary: p a rule: less_induct)
  case less
  define m where "m = larger_child cmp n a p"
  have par_p: "c = 2 * p + 1 \<or> c = 2 * p + 2" if "par c = p" "0 < c" for c using that by presburger
  show ?case
  proof (cases "2 * p + 1 < n")
    case False
    have "cmp (a[p := Tmp] ! c) (a[p := Tmp] ! par c) \<le> 0" if "0 < c" "c < n" "lo \<le> par c" for c
      using less.prems(4) [OF that] par_p [of c] that False by auto
    then show ?thesis using False by (simp add: heap_from_def sift.simps [of cmp Tmp n p a])
  next
    case True
    then have m: "m < n" "p < m" "par m = p" "0 < m" using larger_child [OF True, of cmp a] by (simp_all add: m_def)
    have top: "cmp (a ! c) (a ! m) \<le> 0" if "par c = p" "0 < c" "c < n" for c
      using par_p [OF that(1,2)] that(3) cmp_refl flip_le [of "a ! (2 * p + 1)" "a ! (2 * p + 2)"] by (auto simp: m_def larger_child_def Let_def)
    show ?thesis
    proof (cases "cmp (a ! m) Tmp > 0")
      case False
      have "cmp (a[p := Tmp] ! c) (a[p := Tmp] ! par c) \<le> 0" if c: "0 < c" "c < n" "lo \<le> par c" for c
      proof (cases "par c = p")
        case True
        have "c \<noteq> p" using c True by auto
        moreover have "cmp (a ! c) Tmp \<le> 0" using cmp_trans [OF top [OF True c(1,2)], of Tmp] False by simp
        ultimately show ?thesis using True less.prems(2,3) by simp
      qed (rule less.prems(4) [OF c])
      moreover have "sift cmp Tmp n p a = a[p := Tmp]"
        using False by (simp add: sift.simps [of cmp Tmp n p a] m_def)
      ultimately show ?thesis by (simp add: heap_from_def)
    next
      case big: True
      let ?a = "a[p := a ! m]"
      have b: "?a[m := Tmp] ! k = (if k = m then Tmp else if k = p then a ! m else a ! k)" if "k < n" for k
        using m less.prems(2,3) that by (simp add: nth_list_update)
      have parlt: "par c < n" if "c < n" for c using that by linarith
      have "heap_from cmp lo n (sift cmp Tmp n m ?a)"
      proof (rule less.hyps)
        show "n - m < n - p" "lo \<le> m" "m < n" "n \<le> length ?a" using m less.prems by auto
        show "cmp (?a ! c) (?a ! par m) \<le> 0" if "0 < c" "c < n" "par c = m" "0 < m" "lo \<le> par m" for c
        proof -
          have "c \<noteq> p" "par c \<noteq> p" "c \<noteq> m" "m \<noteq> p" using that m by auto
          then show ?thesis using less.prems(4) [of c] that m less.prems(1,2,3) by simp
        qed
        show "cmp (?a[m := Tmp] ! c) (?a[m := Tmp] ! par c) \<le> 0" if c: "0 < c" "c < n" "lo \<le> par c" "par c \<noteq> m" for c
        proof -
          consider (m) "c = m" | (sib) "c \<noteq> m" "par c = p" | (p) "c = p" | (other) "c \<noteq> p" "par c \<noteq> p" "c \<noteq> m"
            by blast
          then show ?thesis
          proof cases
            case m
            then show ?thesis using big flip_le [of "Tmp" "a ! m"] \<open>par m = p\<close> \<open>p < m\<close>
              unfolding b [OF c(2)] b [OF parlt [OF c(2)]] by simp
          next
            case sib
            then have "c \<noteq> p" using c by auto
            then show ?thesis using sib top [OF sib(2) c(1,2)] \<open>p < m\<close> unfolding b [OF c(2)] b [OF parlt [OF c(2)]] by simp
          next
            case p
            then have "par c \<noteq> p" using c by auto
            then show ?thesis using p less.prems(5) [of m] m c unfolding b [OF c(2)] b [OF parlt [OF c(2)]] by simp
          next
            case other
            then show ?thesis using less.prems(4) [OF c(1,2,3)] c(4) parlt [OF c(2)] less.prems(2,3)
              unfolding b [OF c(2)] b [OF parlt [OF c(2)]] by (simp add: nth_list_update)
          qed
        qed
      qed
      moreover have "sift cmp Tmp n p a = sift cmp Tmp n m ?a"
        using True big by (simp add: sift.simps [of cmp Tmp n p a] m_def)
      ultimately show ?thesis by simp
    qed
  qed
qed

lemma heap_max: "heap_from cmp 0 n a \<Longrightarrow> k < n \<Longrightarrow> cmp (a ! k) (a ! 0) \<le> 0"
proof (induction k rule: less_induct)
  case (less k)
  show ?case
  proof (cases "k = 0")
    case False
    then have "cmp (a ! par k) (a ! 0) \<le> 0" "cmp (a ! k) (a ! par k) \<le> 0"
      using less by (auto simp: heap_from_def)
    then show ?thesis using cmp_trans by blast
  qed (simp add: cmp_refl)
qed

lemma heap_loop_correct:
  "0 < n \<Longrightarrow> n \<le> length a \<Longrightarrow> i \<le> n \<Longrightarrow> heap_from cmp i n a \<Longrightarrow> cmp_sorted cmp (drop n a) \<Longrightarrow>
   \<forall>x \<in> set (take n a). \<forall>y \<in> set (drop n a). cmp x y \<le> 0 \<Longrightarrow>
   cmp_sorted cmp (heap_loop cmp n i a) \<and> mset (heap_loop cmp n i a) = mset a"
proof (induction "(n, i)" arbitrary: n i a rule: wf_induct_rule [OF wf_lex_prod [OF wf_less_than wf_less_than]])
  case (1 n i)
  show ?case
  proof (cases "i > 0")
    case True
    let ?b = "sift cmp (a ! (i - 1)) n (i - 1) a"
    have h: "heap_from cmp (i - 1) n ?b"
    proof (rule sift_heap)
      show "cmp (a[i - 1 := a ! (i - 1)] ! c) (a[i - 1 := a ! (i - 1)] ! par c) \<le> 0"
        if "0 < c" "c < n" "i - 1 \<le> par c" "par c \<noteq> i - 1" for c
        using 1(5) that by (simp add: heap_from_def)
    qed (use True 1(3,4) in auto)
    have m: "mset ?b = mset a" using sift_mset [of n a "i - 1"] True 1(3,4) by simp
    have d: "drop n ?b = drop n a" using True 1(4) by (simp add: sift_drop)
    then have "mset (take n ?b) = mset (take n a)"
      using m by (metis append_take_drop_id mset_append add_right_cancel)
    then have t: "set (take n ?b) = set (take n a)" by (metis set_mset_mset)
    have "cmp_sorted cmp (heap_loop cmp n (i - 1) ?b) \<and> mset (heap_loop cmp n (i - 1) ?b) = mset ?b"
      using 1(1) [of n "i - 1" ?b] True 1(2-7) h d t by simp
    then show ?thesis using True m by (subst (1 2) heap_loop.simps) simp
  next
    case i: False
    show ?thesis
    proof (cases "n - 1 = 0")
      case True
      then have n: "n = 1" using 1(2) by simp
      then have "a = a ! 0 # drop 1 a" using 1(3) by (metis Cons_nth_drop_Suc One_nat_def drop0 less_eq_Suc_le)
      then obtain x xs where "a = x # xs" by blast
      then have "cmp_sorted cmp a" using 1(6,7) n by (simp add: cmp_sorted_def)
      then show ?thesis using i True by (subst (1 2) heap_loop.simps) simp
    next
      case False
      let ?a = "a[n - 1 := a ! 0]" and ?T = "a ! (n - 1)"
      let ?b = "sift cmp ?T (n - 1) 0 ?a"
      have hp: "heap_from cmp 0 n a" using i 1(5) by simp
      have h: "heap_from cmp 0 (n - 1) ?b"
      proof (rule sift_heap)
        show "cmp (?a[0 := ?T] ! c) (?a[0 := ?T] ! par c) \<le> 0"
          if "0 < c" "c < n - 1" "0 \<le> par c" "par c \<noteq> 0" for c
        proof -
          have "par c \<noteq> n - 1" "c \<noteq> n - 1" "c < n" using that by auto
          then show ?thesis using hp that by (simp add: heap_from_def)
        qed
      qed (use False 1(3) in auto)
      have "n - 1 < length a" "0 < length a" using 1(2,3) by auto
      then have m0: "mset (a[0 := a ! (n - 1), n - 1 := a ! 0]) = mset a" by (rule mset_swap)
      have "mset ?b = mset (?a[0 := ?T])" using sift_mset [of "n - 1" ?a 0] False 1(3) by simp
      moreover have "?a[0 := ?T] = a[0 := a ! (n - 1), n - 1 := a ! 0]" using False by (simp add: list_update_swap)
      ultimately have m: "mset ?b = mset a" using m0 by simp
      have "drop (n - 1) ?b = drop (n - 1) ?a" using False by (simp add: sift_drop)
      also have "\<dots> = a ! 0 # drop n a" using 1(2,3) by (simp add: drop_update_swap) (metis One_nat_def Suc_pred Cons_nth_drop_Suc drop_update_cancel lessI less_eq_Suc_le list_update_code(2) nth_list_update_eq length_list_update)
      finally have d: "drop (n - 1) ?b = a ! 0 # drop n a" .
      have "mset (take (n - 1) ?b) + {#a ! 0#} + mset (drop n a) = mset (take (n - 1) ?b) + mset (drop (n - 1) ?b)"
        unfolding d by simp
      also have "\<dots> = mset ?b" by (metis append_take_drop_id mset_append)
      also have "\<dots> = mset (take n a) + mset (drop n a)" unfolding m by (metis append_take_drop_id mset_append)
      finally have "mset (take (n - 1) ?b) + {#a ! 0#} = mset (take n a)" by simp
      then have t: "set (take (n - 1) ?b) \<subseteq> set (take n a)" by (metis mset_subset_eqD mset_subset_eq_add_left set_mset_mset subsetI)
      have top: "cmp x (a ! 0) \<le> 0" if "x \<in> set (take n a)" for x
        using that heap_max [OF hp] by (auto simp: in_set_conv_nth)
      have root: "a ! 0 \<in> set (take n a)" using 1(2,3) by (auto simp: in_set_conv_nth intro: exI [of _ 0])
      have s: "cmp_sorted cmp (drop (n - 1) ?b)" unfolding d using 1(6,7) root by (simp add: cmp_sorted_def)
      have le: "\<forall>x \<in> set (take (n - 1) ?b). \<forall>y \<in> set (drop (n - 1) ?b). cmp x y \<le> 0"
        unfolding d using t top 1(7) by auto
      have "cmp_sorted cmp (heap_loop cmp (n - 1) 0 ?b) \<and> mset (heap_loop cmp (n - 1) 0 ?b) = mset ?b"
        using 1(1) [of "n - 1" 0 ?b] False 1(3) h s le by simp
      then show ?thesis using i False m by (subst (1 2) heap_loop.simps) simp
    qed
  qed
qed

lemma heap_sort_correct: "cmp_sorted cmp (heap_sort cmp a) \<and> mset (heap_sort cmp a) = mset a"
proof (cases "length a < 2")
  case True
  then have "a = [] \<or> (\<exists>x. a = [x])" by (cases a; cases "tl a") auto
  then show ?thesis by (auto simp: heap_sort_def cmp_sorted_def)
next
  case False
  have "heap_from cmp (length a div 2) (length a) a" by (auto simp: heap_from_def)
  with False have "cmp_sorted cmp (heap_loop cmp (length a) (length a div 2) a) \<and>
      mset (heap_loop cmp (length a) (length a div 2) a) = mset a"
    by (intro heap_loop_correct) (auto simp: cmp_sorted_def)
  with False show ?thesis by (simp add: heap_sort_def)
qed

end

section \<open>The quick sort\<close>

definition arr_swap :: "nat \<Rightarrow> nat \<Rightarrow> 'a list \<Rightarrow> 'a list" where
  "arr_swap i j a = a[i := a ! j, j := a ! i]"

text \<open>The median of three positions; \<open>f\<close> compares the rows there. The three differ in how they treat ties.\<close>

definition med3a :: "(nat \<Rightarrow> nat \<Rightarrow> int) \<Rightarrow> nat \<Rightarrow> nat \<Rightarrow> nat \<Rightarrow> nat" where
  "med3a f a b c =
    (if f a b < 0 then (if f b c < 0 then b else if f a c < 0 then c else a)
     else (if f b c > 0 then b else if f a c \<le> 0 then a else c))"

definition med3b :: "(nat \<Rightarrow> nat \<Rightarrow> int) \<Rightarrow> nat \<Rightarrow> nat \<Rightarrow> nat \<Rightarrow> nat" where
  "med3b f a b c =
    (if f a b < 0 then (if f b c \<le> 0 then b else if f a c < 0 then c else a)
     else (if f b c \<ge> 0 then b else if f a c < 0 then a else c))"

definition med3c :: "(nat \<Rightarrow> nat \<Rightarrow> int) \<Rightarrow> nat \<Rightarrow> nat \<Rightarrow> nat \<Rightarrow> nat" where
  "med3c f a b c =
    (if f a b < 0 then (if f b c < 0 then b else if f a c \<le> 0 then c else a)
     else (if f b c > 0 then b else if f a c < 0 then a else c))"

definition pivot_pos :: "('a \<Rightarrow> 'a \<Rightarrow> int) \<Rightarrow> 'a list \<Rightarrow> nat \<Rightarrow> nat \<Rightarrow> nat" where
  "pivot_pos cmp a p r =
    (let f = (\<lambda>i j. cmp (a ! i) (a ! j)); pm = (p + r) div 2; d = (r - p) div 8;
         pl = med3c f p (p + d) (p + 2 * d);
         pm = med3b f (pm - d) pm (pm + d);
         pn = med3a f (r - 2 * d) (r - d) r
     in med3b f pl pm pn)"

text \<open>
  The two inner loops of the partition, which meet only at \<open>i = j\<close> (they start from
  \<open>i \<le> j\<close>); \<^const>\<open>Inl\<close> is a return from the function.
\<close>

function scan_up :: "('a \<Rightarrow> 'a \<Rightarrow> int) \<Rightarrow> 'a list \<Rightarrow> nat \<Rightarrow> nat \<Rightarrow> nat \<Rightarrow> nat + nat" where
  "scan_up cmp a r i j =
    (if cmp (a ! i) (a ! r) \<le> 0 then (if i \<ge> j then Inl i else scan_up cmp a r (i + 1) j) else Inr i)"
  by pat_completeness auto
termination by (relation "measure (\<lambda>(cmp, a, r, i, j). j - i)") auto

function scan_down :: "('a \<Rightarrow> 'a \<Rightarrow> int) \<Rightarrow> 'a list \<Rightarrow> nat \<Rightarrow> nat \<Rightarrow> nat \<Rightarrow> nat \<Rightarrow> nat + nat" where
  "scan_down cmp a p r i j =
    (if cmp (a ! j) (a ! r) \<ge> 0 then
       (if i \<ge> j then Inl (if i > p then i - 1 else i) else scan_down cmp a p r i (j - 1))
     else Inr j)"
  by pat_completeness auto
termination by (relation "measure (\<lambda>(cmp, a, p, r, i, j). j - i)") auto

declare scan_up.simps [simp del] scan_down.simps [simp del]

lemma scan_up_spec:
  "i \<le> j \<Longrightarrow>
   (case scan_up cmp a r i j of
      Inl k \<Rightarrow> k = j \<and> (\<forall>m. i \<le> m \<longrightarrow> m \<le> j \<longrightarrow> cmp (a ! m) (a ! r) \<le> 0)
    | Inr k \<Rightarrow> i \<le> k \<and> k \<le> j \<and> 0 < cmp (a ! k) (a ! r) \<and> (\<forall>m. i \<le> m \<longrightarrow> m < k \<longrightarrow> cmp (a ! m) (a ! r) \<le> 0))"
proof (induction cmp a r i j rule: scan_up.induct)
  case (1 cmp a r i j)
  note eq = scan_up.simps [of cmp a r i j]
  consider (gt) "0 < cmp (a ! i) (a ! r)" | (stop) "cmp (a ! i) (a ! r) \<le> 0" "i = j" | (step) "cmp (a ! i) (a ! r) \<le> 0" "i < j"
    using "1.prems" by linarith
  then show ?case
  proof cases
    case step
    have "m = i \<or> i + 1 \<le> m" if "i \<le> m" for m using that by linarith
    with step 1 show ?thesis unfolding eq by (fastforce split: sum.splits)
  next
    case stop
    then have "scan_up cmp a r i j = Inl i" unfolding eq by simp
    then show ?thesis using stop by (auto dest: le_antisym)
  qed (use "1.prems" in \<open>simp add: eq\<close>)
qed

lemma scan_down_spec:
  "i \<le> j \<Longrightarrow> p \<le> i \<Longrightarrow>
   (case scan_down cmp a p r i j of
      Inl k \<Rightarrow> k = (if i > p then i - 1 else i) \<and> (\<forall>m. i \<le> m \<longrightarrow> m \<le> j \<longrightarrow> 0 \<le> cmp (a ! m) (a ! r))
    | Inr k \<Rightarrow> i \<le> k \<and> k \<le> j \<and> cmp (a ! k) (a ! r) < 0 \<and> (\<forall>m. k < m \<longrightarrow> m \<le> j \<longrightarrow> 0 \<le> cmp (a ! m) (a ! r)))"
proof (induction cmp a p r i j rule: scan_down.induct)
  case (1 cmp a p r i j)
  note eq = scan_down.simps [of cmp a p r i j]
  consider (lt) "cmp (a ! j) (a ! r) < 0" | (stop) "0 \<le> cmp (a ! j) (a ! r)" "i = j" | (step) "0 \<le> cmp (a ! j) (a ! r)" "i < j"
    using "1.prems" by linarith
  then show ?case
  proof cases
    case step
    have "m = j \<or> m \<le> j - 1" if "m \<le> j" for m using that by linarith
    with step 1 show ?thesis unfolding eq by (fastforce split: sum.splits)
  next
    case stop
    then have "scan_down cmp a p r i j = Inl (if i > p then i - 1 else i)" unfolding eq by simp
    then show ?thesis using stop by (auto dest: le_antisym)
  qed (use "1.prems" in \<open>simp add: eq\<close>)
qed

function part_loop :: "('a \<Rightarrow> 'a \<Rightarrow> int) \<Rightarrow> 'a list \<Rightarrow> nat \<Rightarrow> nat \<Rightarrow> nat \<Rightarrow> nat \<Rightarrow> 'a list \<times> nat" where
  "part_loop cmp a p r i j =
    (if i \<le> j then
       (case scan_up cmp a r i j of
          Inl q \<Rightarrow> (a, q)
        | Inr i' \<Rightarrow>
            (case scan_down cmp a p r i' j of
               Inl q \<Rightarrow> (a, q)
             | Inr j' \<Rightarrow> part_loop cmp (arr_swap i' j' a) p r (i' + 1) (j' - 1)))
     else (a, j))"
  by pat_completeness auto
termination
proof (relation "measure (\<lambda>(cmp, a, p, r, i, j). Suc j - i)")
  fix cmp :: "'a \<Rightarrow> 'a \<Rightarrow> int" and a p r i j i' j'
  assume "i \<le> j" "scan_up cmp a r i j = Inr i'" "scan_down cmp a p r i' j = Inr j'"
  then have "i \<le> i'" "i' \<le> j" using scan_up_spec [of i j cmp a r] by auto
  moreover have "j' \<le> j" using \<open>i' \<le> j\<close> \<open>scan_down cmp a p r i' j = Inr j'\<close>
  proof (induction cmp a p r i' j rule: scan_down.induct)
    case (1 cmp a p r i j)
    then show ?case unfolding scan_down.simps [of cmp a p r i j] by (cases "i < j") (fastforce split: if_splits)+
  qed
  ultimately show "((cmp, arr_swap i' j' a, p, r, i' + 1, j' - 1), cmp, a, p, r, i, j)
      \<in> measure (\<lambda>(cmp, a, p, r, i, j). Suc j - i)" using \<open>i \<le> j\<close> by auto
qed simp

declare part_loop.simps [simp del]

definition partition_rows :: "('a \<Rightarrow> 'a \<Rightarrow> int) \<Rightarrow> 'a list \<Rightarrow> nat \<Rightarrow> nat \<Rightarrow> 'a list \<times> nat" where
  "partition_rows cmp a p r = part_loop cmp (arr_swap (pivot_pos cmp a p r) r a) p r p (r - 1)"

text \<open>A slice of at most ten rows is sorted by selection; the two copies of the code differ in the test.\<close>

definition MIN_SLICE :: nat where "MIN_SLICE = 9"

fun select_min :: "('a \<Rightarrow> 'a \<Rightarrow> int) \<Rightarrow> bool \<Rightarrow> 'a list \<Rightarrow> nat \<Rightarrow> nat list \<Rightarrow> nat" where
  "select_min cmp ties a iMin [] = iMin"
| "select_min cmp ties a iMin (j # js) =
    select_min cmp ties a (if cmp (a ! j) (a ! iMin) < 0 \<or> ties \<and> cmp (a ! j) (a ! iMin) = 0 then j else iMin) js"

fun select_loop :: "('a \<Rightarrow> 'a \<Rightarrow> int) \<Rightarrow> bool \<Rightarrow> nat \<Rightarrow> 'a list \<Rightarrow> nat list \<Rightarrow> 'a list" where
  "select_loop cmp ties r a [] = a"
| "select_loop cmp ties r a (i # is) =
    select_loop cmp ties r (arr_swap i (select_min cmp ties a i [i + 1 ..< r + 1]) a) is"

text \<open>
  One round of the partition, by cases: it returns at once, from one of the inner loops, or swaps a
  row above the pivot with a later one below it.
\<close>

lemma part_round:
  assumes "p \<le> i" "i \<le> j"
  obtains (up) "part_loop cmp a p r i j = (a, j)" "\<And>m. i \<le> m \<Longrightarrow> m \<le> j \<Longrightarrow> cmp (a ! m) (a ! r) \<le> 0"
  | (down) k where "part_loop cmp a p r i j = (a, if k > p then k - 1 else k)" "i \<le> k" "k \<le> j"
      "\<And>m. i \<le> m \<Longrightarrow> m < k \<Longrightarrow> cmp (a ! m) (a ! r) \<le> 0" "\<And>m. k \<le> m \<Longrightarrow> m \<le> j \<Longrightarrow> 0 \<le> cmp (a ! m) (a ! r)"
  | (swap) i' j' where "scan_up cmp a r i j = Inr i'" "scan_down cmp a p r i' j = Inr j'"
      "part_loop cmp a p r i j = part_loop cmp (arr_swap i' j' a) p r (i' + 1) (j' - 1)"
      "i \<le> i'" "i' < j'" "j' \<le> j" "0 < cmp (a ! i') (a ! r)" "cmp (a ! j') (a ! r) < 0"
      "\<And>m. i \<le> m \<Longrightarrow> m < i' \<Longrightarrow> cmp (a ! m) (a ! r) \<le> 0" "\<And>m. j' < m \<Longrightarrow> m \<le> j \<Longrightarrow> 0 \<le> cmp (a ! m) (a ! r)"
proof (cases "scan_up cmp a r i j")
  case (Inl q)
  then show ?thesis using scan_up_spec [OF assms(2), of cmp a r] assms(2)
    by (intro up) (simp_all add: part_loop.simps [of cmp a p r i j])
next
  case (Inr i')
  note u = Inr
  have i': "i \<le> i'" "i' \<le> j" "0 < cmp (a ! i') (a ! r)" "\<And>m. i \<le> m \<Longrightarrow> m < i' \<Longrightarrow> cmp (a ! m) (a ! r) \<le> 0"
    using u scan_up_spec [OF assms(2), of cmp a r] by simp_all
  have p: "p \<le> i'" using assms(1) i'(1) by linarith
  note d = scan_down_spec [OF i'(2) p, of cmp a r]
  show ?thesis
  proof (cases "scan_down cmp a p r i' j")
    case (Inl q)
    then show ?thesis using d u i' assms(2) by (intro down [of i']) (auto simp: part_loop.simps [of cmp a p r i j])
  next
    case (Inr j')
    then have "i' \<le> j'" "j' \<le> j" "cmp (a ! j') (a ! r) < 0" "\<And>m. j' < m \<Longrightarrow> m \<le> j \<Longrightarrow> 0 \<le> cmp (a ! m) (a ! r)"
      using d by simp_all
    moreover have "i' \<noteq> j'" using i'(3) \<open>cmp (a ! j') (a ! r) < 0\<close> by auto
    ultimately show ?thesis using u Inr i' assms(2) by (intro swap [of i' j']) (simp_all add: part_loop.simps [of cmp a p r i j])
  qed
qed

lemma part_loop_range:
  "p \<le> i \<Longrightarrow> i \<le> j + 1 \<Longrightarrow> p \<le> j \<Longrightarrow> p \<le> snd (part_loop cmp a p r i j) \<and> snd (part_loop cmp a p r i j) \<le> j"
proof (induction cmp a p r i j rule: part_loop.induct)
  case (1 cmp a p r i j)
  show ?case
  proof (cases "i \<le> j")
    case False
    then show ?thesis using "1.prems" by (simp add: part_loop.simps [of cmp a p r i j])
  next
    case True
    from "1.prems"(1) True show ?thesis
    proof (cases rule: part_round [where cmp = cmp and a = a and r = r])
      case up
      then show ?thesis using "1.prems" by simp
    next
      case (down k)
      then show ?thesis using "1.prems" by auto
    next
      case (swap i' j')
      then have "p \<le> j' - 1" "j' - 1 \<le> j" "p \<le> i' + 1" "i' + 1 \<le> j' - 1 + 1" using "1.prems" by linarith+
      then show ?thesis using "1.IH" [OF True swap(1,2)] unfolding swap(3) by linarith
    qed
  qed
qed

lemma partition_range: "p < r \<Longrightarrow> p \<le> snd (partition_rows cmp a p r) \<and> snd (partition_rows cmp a p r) < r"
  using part_loop_range [of p p "r - 1" cmp "arr_swap (pivot_pos cmp a p r) r a" r]
  unfolding partition_rows_def by linarith

function qsort_rows :: "('a \<Rightarrow> 'a \<Rightarrow> int) \<Rightarrow> bool \<Rightarrow> nat \<Rightarrow> nat \<Rightarrow> 'a list \<Rightarrow> 'a list" where
  "qsort_rows cmp ties l r a =
    (if l \<ge> r then a
     else if r - l \<le> MIN_SLICE then select_loop cmp ties r a [l ..< r]
     else
       (let q = snd (partition_rows cmp a l r); a = fst (partition_rows cmp a l r)
        in if q - l > r - q then qsort_rows cmp ties l q (qsort_rows cmp ties (q + 1) r a)
           else qsort_rows cmp ties (q + 1) r (qsort_rows cmp ties l q a)))"
  by pat_completeness auto
termination
proof (relation "measure (\<lambda>(cmp, ties, l, r, a). r - l)", goal_cases)
  case 1
  show ?case by simp
next
  case (2 cmp ties l r a q a')
  then show ?case using partition_range [of l r cmp a] by auto
next
  case (3 cmp ties l r a q a')
  then show ?case using partition_range [of l r cmp a] by auto
next
  case (4 cmp ties l r a q a')
  then show ?case using partition_range [of l r cmp a] by auto
next
  case (5 cmp ties l r a q a')
  then show ?case using partition_range [of l r cmp a] by auto
qed

declare qsort_rows.simps [simp del]

definition quick_sort :: "('a \<Rightarrow> 'a \<Rightarrow> int) \<Rightarrow> bool \<Rightarrow> 'a list \<Rightarrow> 'a list" where
  "quick_sort cmp ties a = (if length a > 1 then qsort_rows cmp ties 0 (length a - 1) a else a)"

section \<open>Sorting a slice\<close>

text \<open>The array \<open>b\<close> is \<open>a\<close> with the rows from \<open>l\<close> to \<open>r\<close> permuted.\<close>

definition perm_on :: "nat \<Rightarrow> nat \<Rightarrow> 'a list \<Rightarrow> 'a list \<Rightarrow> bool" where
  "perm_on l r a b \<longleftrightarrow> length b = length a \<and> mset b = mset a \<and> (\<forall>k. k < l \<or> r < k \<longrightarrow> b ! k = a ! k)"

lemma perm_on_refl [simp]: "perm_on l r a a"
  by (simp add: perm_on_def)

lemma perm_on_trans: "perm_on l r a b \<Longrightarrow> perm_on l r b c \<Longrightarrow> perm_on l r a c"
  by (simp add: perm_on_def)

lemma perm_on_mono: "perm_on l r a b \<Longrightarrow> l' \<le> l \<Longrightarrow> r \<le> r' \<Longrightarrow> perm_on l' r' a b"
  by (auto simp: perm_on_def)

lemma perm_on_chain: "perm_on l r a b \<Longrightarrow> perm_on l' r' b c \<Longrightarrow> l \<le> l' \<Longrightarrow> r' \<le> r \<Longrightarrow> perm_on l r a c"
  by (blast intro: perm_on_trans perm_on_mono)

lemma perm_on_length: "perm_on l r a b \<Longrightarrow> length b = length a"
  by (simp add: perm_on_def)

lemma perm_on_swap: "l \<le> i \<Longrightarrow> i \<le> r \<Longrightarrow> l \<le> j \<Longrightarrow> j \<le> r \<Longrightarrow> r < length a \<Longrightarrow> perm_on l r a (arr_swap i j a)"
  by (auto simp: perm_on_def arr_swap_def mset_swap)

lemma arr_swap_nth: "i < length a \<Longrightarrow> j < length a \<Longrightarrow> arr_swap i j a ! k = (if k = j then a ! i else if k = i then a ! j else a ! k)"
  by (simp add: arr_swap_def nth_list_update)

lemma perm_on_all:
  assumes "perm_on l r a b" "r < length a" "\<And>k. l \<le> k \<Longrightarrow> k \<le> r \<Longrightarrow> P (a ! k)" "l \<le> k" "k \<le> r"
  shows "P (b ! k)"
proof -
  let ?seg = "\<lambda>xs. take (r + 1 - l) (drop l xs)"
  have split: "xs = take l xs @ ?seg xs @ drop (r + 1) xs" for xs :: "'a list"
  proof -
    have "drop (r + 1 - l) (drop l xs) = drop (r + 1) xs" using assms(4,5) by simp
    then show ?thesis by (metis append_take_drop_id)
  qed
  have "take l b = take l a" "drop (r + 1) b = drop (r + 1) a"
    using assms(1) by (auto intro!: nth_equalityI simp: perm_on_def)
  moreover have "mset (take l b @ ?seg b @ drop (r + 1) b) = mset (take l a @ ?seg a @ drop (r + 1) a)"
    using assms(1) split by (simp add: perm_on_def)
  ultimately have "mset (?seg b) = mset (?seg a)" by simp
  then have "set (?seg b) = set (?seg a)" by (rule mset_eq_setD)
  moreover have "b ! k \<in> set (?seg b)"
    using assms(2,4,5) perm_on_length [OF assms(1)] by (auto simp: in_set_conv_nth intro!: exI [of _ "k - l"])
  ultimately have "b ! k \<in> set (?seg a)" by simp
  then obtain m where "m < r + 1 - l" "b ! k = a ! (l + m)" using assms(2) by (auto simp: in_set_conv_nth)
  then show ?thesis using assms(3) [of "l + m"] by simp
qed

lemma part_loop_perm: "p \<le> i \<Longrightarrow> j < length a \<Longrightarrow> perm_on i j a (fst (part_loop cmp a p r i j))"
proof (induction cmp a p r i j rule: part_loop.induct)
  case (1 cmp a p r i j)
  show ?case
  proof (cases "i \<le> j")
    case False
    then show ?thesis by (simp add: part_loop.simps [of cmp a p r i j])
  next
    case True
    from "1.prems"(1) True show ?thesis
    proof (cases rule: part_round [where cmp = cmp and a = a and r = r])
      case (swap i' j')
      then have s: "perm_on i j a (arr_swap i' j' a)" using "1.prems" by (intro perm_on_swap) auto
      have "p \<le> i' + 1" "j' - 1 < length (arr_swap i' j' a)"
        using "1.prems" swap(4,5,6) by (auto simp: arr_swap_def)
      from "1.IH" [OF True swap(1,2) this] have "perm_on (i' + 1) (j' - 1) (arr_swap i' j' a) (fst (part_loop cmp a p r i j))"
        unfolding swap(3) .
      then have "perm_on i j (arr_swap i' j' a) (fst (part_loop cmp a p r i j))"
        using swap(4-6) by (auto elim: perm_on_mono)
      with s show ?thesis by (rule perm_on_trans)
    qed simp_all
  qed
qed

text \<open>
  The partition: if the slice has a row below the pivot, the rows up to the result are not above the
  pivot and those after it not below.
\<close>

lemma part_loop_correct:
  "p \<le> i \<Longrightarrow> i \<le> j + 1 \<Longrightarrow> p \<le> j \<Longrightarrow> j < r \<Longrightarrow> r < length a \<Longrightarrow>
   \<forall>m. p \<le> m \<longrightarrow> m < i \<longrightarrow> cmp (a ! m) (a ! r) \<le> 0 \<Longrightarrow> \<forall>m. j < m \<longrightarrow> m < r \<longrightarrow> 0 \<le> cmp (a ! m) (a ! r) \<Longrightarrow>
   p < i \<or> (\<exists>m. p \<le> m \<and> m \<le> j \<and> cmp (a ! m) (a ! r) < 0) \<Longrightarrow> 
   (let (b, q) = part_loop cmp a p r i j
    in (\<forall>m. p \<le> m \<longrightarrow> m \<le> q \<longrightarrow> cmp (b ! m) (a ! r) \<le> 0) \<and> (\<forall>m. q < m \<longrightarrow> m < r \<longrightarrow> 0 \<le> cmp (b ! m) (a ! r)))"
proof (induction cmp a p r i j rule: part_loop.induct)
  case (1 cmp a p r i j)
  show ?case
  proof (cases "i \<le> j")
    case False
    then have "i = j + 1" using "1.prems"(2) by simp
    then show ?thesis using "1.prems"(6,7) by (simp add: part_loop.simps [of cmp a p r "Suc j" j] less_Suc_eq_le)
  next
    case True
    from "1.prems"(1) True show ?thesis
    proof (cases rule: part_round [where cmp = cmp and a = a and r = r])
      case up
      then show ?thesis using "1.prems"(6,7) by (auto simp: not_less)
    next
      case (down k)
      have lo: "cmp (a ! m) (a ! r) \<le> 0" if "p \<le> m" "m < k" for m
        using that "1.prems"(6) down(4) [of m] by (cases "m < i") auto
      have hi: "0 \<le> cmp (a ! m) (a ! r)" if "k \<le> m" "m < r" for m
        using that "1.prems"(7) down(5) [of m] by (cases "m \<le> j") auto
      have "p < k"
      proof (rule ccontr)
        assume "\<not> p < k"
        then have "k = p" "i = p" using down(2) "1.prems"(1) by auto
        then obtain m where "p \<le> m" "m \<le> j" "cmp (a ! m) (a ! r) < 0" using "1.prems"(8) by auto
        then show False using hi [of m] \<open>k = p\<close> "1.prems"(4) by auto
      qed
      then show ?thesis unfolding down(1) using lo hi by (auto simp: not_less)
    next
      case (swap i' j')
      let ?a = "arr_swap i' j' a"
      have b: "?a ! k = (if k = j' then a ! i' else if k = i' then a ! j' else a ! k)" for k
        using swap(4-6) "1.prems"(4,5) by (intro arr_swap_nth) auto
      have r: "?a ! r = a ! r" using swap(4-6) "1.prems"(4) b [of r] by auto
      have "let (b, q) = part_loop cmp ?a p r (i' + 1) (j' - 1)
        in (\<forall>m. p \<le> m \<longrightarrow> m \<le> q \<longrightarrow> cmp (b ! m) (?a ! r) \<le> 0) \<and> (\<forall>m. q < m \<longrightarrow> m < r \<longrightarrow> 0 \<le> cmp (b ! m) (?a ! r))"
      proof (rule "1.IH" [OF True swap(1,2)])
        show "p \<le> i' + 1" "i' + 1 \<le> j' - 1 + 1" "p \<le> j' - 1" "j' - 1 < r" "r < length ?a"
          using swap(4-6) "1.prems"(1-5) by (auto simp: arr_swap_def)
        show "\<forall>m. p \<le> m \<longrightarrow> m < i' + 1 \<longrightarrow> cmp (?a ! m) (?a ! r) \<le> 0"
        proof (intro allI impI)
          fix m assume m: "p \<le> m" "m < i' + 1"
          show "cmp (?a ! m) (?a ! r) \<le> 0"
          proof (cases "m = i'")
            case False
            then have "m < i'" "m \<noteq> j'" using m swap(5) by auto
            then show ?thesis using "1.prems"(6) swap(9) [of m] m(1) False unfolding r b [of m] by (cases "m < i") auto
          qed (use swap(5,8) b [of i'] in \<open>simp add: r\<close>)
        qed
        show "\<forall>m. j' - 1 < m \<longrightarrow> m < r \<longrightarrow> 0 \<le> cmp (?a ! m) (?a ! r)"
        proof (intro allI impI)
          fix m assume m: "j' - 1 < m" "m < r"
          show "0 \<le> cmp (?a ! m) (?a ! r)"
          proof (cases "m = j'")
            case False
            then have "j' < m" "m \<noteq> i'" using m swap(5) by auto
            then show ?thesis using "1.prems"(7) swap(10) [of m] m(2) False unfolding r b [of m] by (cases "m \<le> j") auto
          qed (use swap(7) b [of j'] in \<open>simp add: r\<close>)
        qed
        show "p < i' + 1 \<or> (\<exists>m. p \<le> m \<and> m \<le> j' - 1 \<and> cmp (?a ! m) (?a ! r) < 0)" using swap(4) "1.prems"(1) by simp
      qed
      then show ?thesis unfolding swap(3) r .
    qed
  qed
qed

definition sorted_on :: "('a \<Rightarrow> 'a \<Rightarrow> int) \<Rightarrow> nat \<Rightarrow> nat \<Rightarrow> 'a list \<Rightarrow> bool" where
  "sorted_on cmp l r a \<longleftrightarrow> (\<forall>k m. l \<le> k \<longrightarrow> k < m \<longrightarrow> m \<le> r \<longrightarrow> cmp (a ! k) (a ! m) \<le> 0)"

lemma sorted_on_perm: "perm_on l' r' a b \<Longrightarrow> r < l' \<or> r' < l \<Longrightarrow> sorted_on cmp l r a \<Longrightarrow> sorted_on cmp l r b"
  by (auto simp: sorted_on_def perm_on_def)

lemma sorted_on_full: "a \<noteq> [] \<Longrightarrow> sorted_on cmp 0 (length a - 1) a \<Longrightarrow> cmp_sorted cmp a"
  by (auto simp: sorted_on_def cmp_sorted_def sorted_wrt_iff_nth_less)

lemma med3_cases:
  "med3a f a b c \<in> {a, b, c}" "med3b f a b c \<in> {a, b, c}" "med3c f a b c \<in> {a, b, c}"
  by (simp_all add: med3a_def med3b_def med3c_def)

lemma thirds:
  fixes p r :: nat
  assumes "p + 10 \<le> r"
  shows "p + 2 * ((r - p) div 8) < (p + r) div 2 - (r - p) div 8 \<and> (p + r) div 2 + (r - p) div 8 < r - 2 * ((r - p) div 8)"
proof -
  obtain n where n: "r = p + n" using assms le_Suc_ex [of p r] by auto
  have m: "(p + r) div 2 = p + n div 2" "r - p = n" unfolding n by simp_all
  define d h where "d = n div 8" and "h = n div 2"
  have "8 * d \<le> n" "n < 8 * d + 8" "2 * h \<le> n" "n < 2 * h + 2" unfolding d_def h_def by simp_all
  moreover have "10 \<le> n" using assms n by simp
  ultimately have "p + 2 * d < p + h - d" "p + h + d < p + n - 2 * d" by linarith+
  then show ?thesis unfolding m d_def h_def unfolding n by blast
qed

lemma pivot_three:
  assumes "p + 10 \<le> r"
  obtains i j k where "p \<le> i" "i < j" "j < k" "k \<le> r" "pivot_pos cmp a p r = med3b (\<lambda>i j. cmp (a ! i) (a ! j)) i j k"
proof -
  let ?f = "\<lambda>i j. cmp (a ! i) (a ! j)" and ?d = "(r - p) div 8" and ?m = "(p + r) div 2"
  let ?i = "med3c ?f p (p + ?d) (p + 2 * ?d)" and ?j = "med3b ?f (?m - ?d) ?m (?m + ?d)" and ?k = "med3a ?f (r - 2 * ?d) (r - ?d) r"
  note t = thirds [OF assms]
  have i: "p \<le> ?i" "?i \<le> p + 2 * ?d" using med3_cases(3) [of ?f p "p + ?d" "p + 2 * ?d"] by auto
  have j: "?m - ?d \<le> ?j" "?j \<le> ?m + ?d" using med3_cases(2) [of ?f "?m - ?d" ?m "?m + ?d"]
    by (auto intro: le_trans [OF diff_le_self le_add1])
  have k: "r - 2 * ?d \<le> ?k" "?k \<le> r" using med3_cases(1) [of ?f "r - 2 * ?d" "r - ?d" r] diff_le_mono2 [of ?d "2 * ?d" r] by auto
  show ?thesis
  proof (rule that)
    show "?i < ?j" by (rule le_less_trans [OF i(2) less_le_trans [OF conjunct1 [OF t] j(1)]])
    show "?j < ?k" by (rule le_less_trans [OF j(2) less_le_trans [OF conjunct2 [OF t] k(1)]])
  qed (rule i(1) k(2) | simp add: pivot_pos_def Let_def)+
qed

lemma select_min_in: "select_min cmp ties a iMin js \<in> insert iMin (set js)"
proof (induction js arbitrary: iMin)
  case (Cons j js)
  let ?m = "if cmp (a ! j) (a ! iMin) < 0 \<or> ties \<and> cmp (a ! j) (a ! iMin) = 0 then j else iMin"
  show ?case using Cons [of ?m] by (cases "?m = j") auto
qed simp

lemma select_loop_perm: "i \<le> r \<Longrightarrow> r < length a \<Longrightarrow> perm_on i r a (select_loop cmp ties r a [i ..< r])"
proof (induction "r - i" arbitrary: i a)
  case (Suc n)
  define s where "s = select_min cmp ties a i [i + 1 ..< r + 1]"
  have "s \<in> insert i (set [i + 1 ..< r + 1])" unfolding s_def by (rule select_min_in)
  then have "i \<le> s" "s \<le> r" using Suc.prems by auto
  then have p: "perm_on i r a (arr_swap i s a)" using Suc.prems by (intro perm_on_swap) auto
  have "perm_on (i + 1) r (arr_swap i s a) (select_loop cmp ties r (arr_swap i s a) [i + 1 ..< r])"
    using Suc.hyps(2) Suc.prems by (intro Suc.hyps(1)) (auto simp: arr_swap_def)
  with p have "perm_on i r a (select_loop cmp ties r (arr_swap i s a) [i + 1 ..< r])" by (rule perm_on_chain) auto
  moreover have "[i ..< r] = i # [i + 1 ..< r]" using Suc.hyps(2) by (simp add: upt_conv_Cons)
  ultimately show ?case by (simp only: select_loop.simps flip: s_def)
qed simp

lemma partition_perm: "p + 10 \<le> r \<Longrightarrow> r < length a \<Longrightarrow> perm_on p r a (fst (partition_rows cmp a p r))"
proof -
  assume r: "p + 10 \<le> r" "r < length a"
  let ?m = "pivot_pos cmp a p r"
  have "p \<le> ?m" "?m \<le> r"
    using pivot_three [OF r(1), of cmp a] med3_cases(2) by (metis (no_types, lifting) empty_iff insertE le_trans less_imp_le)+
  then have "perm_on p r a (arr_swap ?m r a)" using r by (intro perm_on_swap) auto
  moreover have "perm_on p (r - 1) (arr_swap ?m r a) (fst (partition_rows cmp a p r))"
    unfolding partition_rows_def using r by (intro part_loop_perm) (auto simp: arr_swap_def)
  ultimately show ?thesis by (rule perm_on_chain) auto
qed

lemma qsort_perm: "r < length a \<Longrightarrow> perm_on l r a (qsort_rows cmp ties l r a)"
proof (induction cmp ties l r a rule: qsort_rows.induct)
  case (1 cmp ties l r a)
  show ?case
  proof (cases "l \<ge> r")
    case True
    then show ?thesis by (simp add: qsort_rows.simps [of cmp ties l r a])
  next
    case l: False
    show ?thesis
    proof (cases "r - l \<le> MIN_SLICE")
      case True
      then show ?thesis using l select_loop_perm [of l r a cmp ties] "1.prems"
        by (simp add: qsort_rows.simps [of cmp ties l r a])
    next
      case False
      define b q where "b = fst (partition_rows cmp a l r)" and "q = snd (partition_rows cmp a l r)"
      have p: "perm_on l r a b" using partition_perm [of l r a cmp] False "1.prems" by (simp add: b_def MIN_SLICE_def)
      have q: "l \<le> q" "q < r" using partition_range [of l r cmp a] l by (auto simp: q_def)
      have len: "length b = length a" using perm_on_length [OF p] .
      show ?thesis
      proof (cases "q - l > r - q")
        case True
        let ?c = "qsort_rows cmp ties (q + 1) r b"
        have c: "perm_on (q + 1) r b ?c" using "1.IH"(1) [OF l False q_def b_def True] len "1.prems" by simp
        then have "perm_on l q ?c (qsort_rows cmp ties l q ?c)"
          using "1.IH"(2) [OF l False q_def b_def True] len "1.prems" q perm_on_length [OF c] by simp
        then have "perm_on l r b (qsort_rows cmp ties l q ?c)"
          using perm_on_chain [OF perm_on_mono [OF c, of l r]] q by simp
        then show ?thesis using p l False True
          by (simp add: qsort_rows.simps [of cmp ties l r a] Let_def flip: b_def q_def) (blast intro: perm_on_trans)
      next
        case lt: False
        let ?c = "qsort_rows cmp ties l q b"
        have c: "perm_on l q b ?c" using "1.IH"(3) [OF l False q_def b_def lt] len "1.prems" q by simp
        then have "perm_on (q + 1) r ?c (qsort_rows cmp ties (q + 1) r ?c)"
          using "1.IH"(4) [OF l False q_def b_def lt] len "1.prems" perm_on_length [OF c] by simp
        then have "perm_on l r b (qsort_rows cmp ties (q + 1) r ?c)"
          using perm_on_chain [OF perm_on_mono [OF c, of l r]] q by simp
        then show ?thesis using p l False lt
          by (simp add: qsort_rows.simps [of cmp ties l r a] Let_def flip: b_def q_def) (blast intro: perm_on_trans)
      qed
    qed
  qed
qed

text \<open>The rows of an array are told apart by the comparison.\<close>

definition no_ties :: "('a \<Rightarrow> 'a \<Rightarrow> int) \<Rightarrow> 'a list \<Rightarrow> bool" where
  "no_ties cmp a \<longleftrightarrow> distinct a \<and> (\<forall>x \<in> set a. \<forall>y \<in> set a. cmp x y = 0 \<longrightarrow> x = y)"

lemma no_ties_nth: "no_ties cmp a \<Longrightarrow> i < length a \<Longrightarrow> j < length a \<Longrightarrow> i \<noteq> j \<Longrightarrow> cmp (a ! i) (a ! j) \<noteq> 0"
  unfolding no_ties_def using nth_eq_iff_index_eq [of a i j] nth_mem by metis

lemma no_ties_perm: "perm_on l r a b \<Longrightarrow> no_ties cmp a \<Longrightarrow> no_ties cmp b"
  by (auto simp: no_ties_def perm_on_def dest: mset_eq_imp_distinct_iff mset_eq_setD)

context key_order
begin

lemma select_min_le:
  "cmp (a ! select_min cmp ties a iMin js) (a ! iMin) \<le> 0 \<and> (\<forall>k \<in> set js. cmp (a ! select_min cmp ties a iMin js) (a ! k) \<le> 0)"
proof (induction js arbitrary: iMin)
  case (Cons j js)
  let ?m = "if cmp (a ! j) (a ! iMin) < 0 \<or> ties \<and> cmp (a ! j) (a ! iMin) = 0 then j else iMin"
  have "cmp (a ! ?m) (a ! iMin) \<le> 0" "cmp (a ! ?m) (a ! j) \<le> 0"
    using cmp_refl [of "a ! j"] cmp_refl [of "a ! iMin"] flip_le [of "a ! iMin" "a ! j"] by auto
  then show ?case using Cons [of ?m] by (auto intro: cmp_trans)
qed (simp add: cmp_refl)

lemma select_loop_sorted:
  "l \<le> i \<Longrightarrow> i \<le> r \<Longrightarrow> r < length a \<Longrightarrow> (\<And>k m. l \<le> k \<Longrightarrow> k < i \<Longrightarrow> k < m \<Longrightarrow> m \<le> r \<Longrightarrow> cmp (a ! k) (a ! m) \<le> 0) \<Longrightarrow>
   sorted_on cmp l r (select_loop cmp ties r a [i ..< r])"
proof (induction "r - i" arbitrary: i a)
  case 0
  then show ?case by (simp add: sorted_on_def)
next
  case (Suc n)
  define s where "s = select_min cmp ties a i [i + 1 ..< r + 1]"
  let ?a = "arr_swap i s a"
  have "s \<in> insert i (set [i + 1 ..< r + 1])" unfolding s_def by (rule select_min_in)
  then have s: "i \<le> s" "s \<le> r" using Suc.prems by auto
  have p: "perm_on i r a ?a" using s Suc.prems by (intro perm_on_swap) auto
  have least: "cmp (a ! s) (a ! m) \<le> 0" if "i \<le> m" "m \<le> r" for m
    using select_min_le [of a ties i "[i + 1 ..< r + 1]"] that unfolding s_def [symmetric] by (cases "m = i") auto
  have "sorted_on cmp l r (select_loop cmp ties r ?a [i + 1 ..< r])"
  proof (rule Suc.hyps(1))
    show "cmp (?a ! k) (?a ! m) \<le> 0" if km: "l \<le> k" "k < i + 1" "k < m" "m \<le> r" for k m
    proof (cases "k = i")
      case True
      have "?a ! i = a ! s" using s Suc.prems by (simp add: arr_swap_nth)
      moreover have "cmp (a ! s) (?a ! m) \<le> 0"
        using perm_on_all [OF p Suc.prems(3), where P = "\<lambda>x. cmp (a ! s) x \<le> 0" and k = m] least km True by simp
      ultimately show ?thesis using True by simp
    next
      case False
      then have k: "k < i" "?a ! k = a ! k" using km p by (auto simp: perm_on_def)
      show ?thesis
      proof (cases "m < i")
        case True
        then show ?thesis using k p Suc.prems(4) [of k m] km by (simp add: perm_on_def)
      next
        case False
        then show ?thesis
          using perm_on_all [OF p Suc.prems(3), where P = "\<lambda>x. cmp (a ! k) x \<le> 0" and k = m] Suc.prems(4) [of k] k km by simp
      qed
    qed
  qed (use Suc in \<open>auto simp: arr_swap_def\<close>)
  moreover have "[i ..< r] = i # [i + 1 ..< r]" using Suc.hyps(2) by (simp add: upt_conv_Cons)
  ultimately show ?case by (simp only: select_loop.simps flip: s_def)
qed

text \<open>Without ties, the median of three rows has a row below it.\<close>

lemma med3b_not_least:
  assumes "cmp (a ! i) (a ! j) \<noteq> 0" "cmp (a ! j) (a ! k) \<noteq> 0" "cmp (a ! i) (a ! k) \<noteq> 0"
  shows "\<exists>m \<in> {i, j, k}. cmp (a ! m) (a ! med3b (\<lambda>i j. cmp (a ! i) (a ! j)) i j k) < 0"
  using assms cmp_flip [of "a ! i" "a ! j"] cmp_flip [of "a ! j" "a ! i"] cmp_flip [of "a ! j" "a ! k"] cmp_flip [of "a ! k" "a ! j"]
    cmp_flip [of "a ! i" "a ! k"] cmp_flip [of "a ! k" "a ! i"]
  by (simp add: med3b_def) linarith

lemma partition_correct:
  assumes "p + 10 \<le> r" "r < length a" "no_ties cmp a"
  defines "b \<equiv> fst (partition_rows cmp a p r)" and "q \<equiv> snd (partition_rows cmp a p r)" and "v \<equiv> a ! pivot_pos cmp a p r"
  shows "(\<forall>m. p \<le> m \<longrightarrow> m \<le> q \<longrightarrow> cmp (b ! m) v \<le> 0) \<and> (\<forall>m. q < m \<longrightarrow> m \<le> r \<longrightarrow> cmp v (b ! m) \<le> 0)"
proof -
  let ?m = "pivot_pos cmp a p r"
  obtain i j k where ijk: "p \<le> i" "i < j" "j < k" "k \<le> r" and m: "?m = med3b (\<lambda>i j. cmp (a ! i) (a ! j)) i j k"
    using assms(1) by (rule pivot_three)
  have "?m \<in> {i, j, k}" unfolding m by (rule med3_cases(2))
  then have mr: "p \<le> ?m" "?m \<le> r" using ijk by auto
  have "\<exists>n \<in> {i, j, k}. cmp (a ! n) v < 0"
    unfolding v_def m using ijk assms(2) by (intro med3b_not_least no_ties_nth [OF assms(3)]) auto
  then obtain n where n: "p \<le> n" "n \<le> r" "cmp (a ! n) v < 0"
  proof -
    from \<open>\<exists>n \<in> {i, j, k}. cmp (a ! n) v < 0\<close> obtain n where n: "n \<in> {i, j, k}" "cmp (a ! n) v < 0" ..
    then have "p \<le> n" "n \<le> r" using ijk by auto
    from this n(2) show ?thesis by (rule that)
  qed
  then have "n \<noteq> ?m" using cmp_refl [of v] by (auto simp: v_def)
  let ?a = "arr_swap ?m r a"
  have nth: "?a ! l = (if l = r then v else if l = ?m then a ! r else a ! l)" for l
    using mr assms(2) by (simp add: arr_swap_nth v_def)
  have low: "\<exists>l. p \<le> l \<and> l \<le> r - 1 \<and> cmp (?a ! l) (?a ! r) < 0"
  proof (cases "n = r")
    case True
    then have "?m \<noteq> r" using \<open>n \<noteq> ?m\<close> by simp
    then show ?thesis using n True mr by (intro exI [of _ ?m]) (auto simp: nth)
  next
    case False
    then show ?thesis using n \<open>n \<noteq> ?m\<close> by (intro exI [of _ n]) (auto simp: nth)
  qed
  have r: "r - 1 < r" "p \<le> r - 1" "r < length ?a" using assms(1,2) by (auto simp: arr_swap_def)
  have "let (b, q) = part_loop cmp ?a p r p (r - 1)
    in (\<forall>m. p \<le> m \<longrightarrow> m \<le> q \<longrightarrow> cmp (b ! m) (?a ! r) \<le> 0) \<and> (\<forall>m. q < m \<longrightarrow> m < r \<longrightarrow> 0 \<le> cmp (b ! m) (?a ! r))"
    using low r by (intro part_loop_correct) auto
  then have h: "\<forall>m. p \<le> m \<longrightarrow> m \<le> q \<longrightarrow> cmp (b ! m) v \<le> 0" "\<forall>m. q < m \<longrightarrow> m < r \<longrightarrow> 0 \<le> cmp (b ! m) v"
    by (auto simp: b_def q_def partition_rows_def nth split_def Let_def)
  have "perm_on p (r - 1) ?a b" unfolding b_def partition_rows_def using r by (intro part_loop_perm) auto
  then have "b ! r = v" using r by (auto simp: perm_on_def nth)
  then have "cmp v (b ! m) \<le> 0" if "q < m" "m \<le> r" for m
    using h(2) that cmp_refl [of v] flip_le [of v "b ! m"] by (cases "m = r") auto
  with h(1) show ?thesis by blast
qed

lemma sorted_on_join:
  assumes "sorted_on cmp l q c" "sorted_on cmp (q + 1) r c"
    and "\<And>m. l \<le> m \<Longrightarrow> m \<le> q \<Longrightarrow> cmp (c ! m) v \<le> 0" "\<And>m. q < m \<Longrightarrow> m \<le> r \<Longrightarrow> cmp v (c ! m) \<le> 0"
  shows "sorted_on cmp l r c"
proof -
  have "cmp (c ! k) (c ! m) \<le> 0" if "l \<le> k" "k < m" "m \<le> r" for k m
  proof -
    consider "m \<le> q" | "q < k" | "k \<le> q" "q < m" by linarith
    then show ?thesis
    proof cases
      case 3
      then show ?thesis using cmp_trans [OF assms(3) assms(4)] that by blast
    qed (use assms(1,2) that in \<open>auto simp: sorted_on_def\<close>)
  qed
  then show ?thesis by (simp add: sorted_on_def)
qed

lemma qsort_sorted: "r < length a \<Longrightarrow> no_ties cmp a \<Longrightarrow> sorted_on cmp l r (qsort_rows cmp ties l r a)"
proof (induction "r - l" arbitrary: l r a rule: less_induct)
  case less
  note unf = qsort_rows.simps [of cmp ties l r a]
  consider (one) "l \<ge> r" | (small) "l < r" "r - l \<le> MIN_SLICE" | (big) "l < r" "\<not> r - l \<le> MIN_SLICE" by linarith
  then show ?case
  proof cases
    case one
    then show ?thesis by (simp add: unf sorted_on_def)
  next
    case small
    then show ?thesis using select_loop_sorted [of l l r a ties] less.prems by (simp add: unf)
  next
    case big
    define b q v where "b = fst (partition_rows cmp a l r)" and "q = snd (partition_rows cmp a l r)" and "v = a ! pivot_pos cmp a l r"
    have r: "l + 10 \<le> r" using big by (simp add: MIN_SLICE_def)
    have q: "l \<le> q" "q < r" using partition_range [of l r cmp a] big(1) by (auto simp: q_def)
    have ab: "perm_on l r a b" unfolding b_def by (rule partition_perm [OF r less.prems(1)])
    have len: "length b = length a" by (rule perm_on_length [OF ab])
    have part: "(\<forall>m. l \<le> m \<longrightarrow> m \<le> q \<longrightarrow> cmp (b ! m) v \<le> 0) \<and> (\<forall>m. q < m \<longrightarrow> m \<le> r \<longrightarrow> cmp v (b ! m) \<le> 0)"
      unfolding b_def q_def v_def by (rule partition_correct [OF r less.prems])
    have lo: "cmp (c ! m) v \<le> 0" if "perm_on l q b' c" "l \<le> m" "m \<le> q" "q < length b'" "\<And>m. l \<le> m \<Longrightarrow> m \<le> q \<Longrightarrow> b' ! m = b ! m"
      for c b' m using perm_on_all [OF that(1,4), where P = "\<lambda>x. cmp x v \<le> 0" and k = m] part that by simp
    have hi: "cmp v (c ! m) \<le> 0" if "perm_on (q + 1) r b' c" "q < m" "m \<le> r" "r < length b'" "\<And>m. q < m \<Longrightarrow> m \<le> r \<Longrightarrow> b' ! m = b ! m"
      for c b' m using perm_on_all [OF that(1,4), where P = "\<lambda>x. cmp v x \<le> 0" and k = m] part that by simp
    have nb: "no_ties cmp b" by (rule no_ties_perm [OF ab less.prems(2)])
    have len: "r < length b" "q < length b" using len less.prems(1) q by auto
    have lt: "r - (q + 1) < r - l" "q - l < r - l" using q by auto
    show ?thesis
    proof (cases "q - l > r - q")
      case True
      let ?c = "qsort_rows cmp ties (q + 1) r b"
      let ?d = "qsort_rows cmp ties l q ?c"
      have c: "perm_on (q + 1) r b ?c" by (rule qsort_perm [OF len(1)])
      have cs: "sorted_on cmp (q + 1) r ?c" by (rule less.hyps [OF lt(1) len(1) nb])
      have nc: "no_ties cmp ?c" by (rule no_ties_perm [OF c nb])
      have lc: "q < length ?c" using perm_on_length [OF c] len by simp
      have d: "perm_on l q ?c ?d" by (rule qsort_perm [OF lc])
      have ds: "sorted_on cmp l q ?d" by (rule less.hyps [OF lt(2) lc nc])
      have "sorted_on cmp l r ?d"
      proof (rule sorted_on_join [OF ds sorted_on_perm [OF d _ cs]])
        show "cmp (?d ! m) v \<le> 0" if "l \<le> m" "m \<le> q" for m
          by (rule lo [OF d that lc]) (use c in \<open>simp add: perm_on_def\<close>)
        show "cmp v (?d ! m) \<le> 0" if m: "q < m" "m \<le> r" for m
        proof -
          have "?d ! m = ?c ! m" using d m by (simp add: perm_on_def)
          moreover have "cmp v (?c ! m) \<le> 0" by (rule hi [OF c m len(1)]) simp
          ultimately show ?thesis by simp
        qed
      qed simp
      then show ?thesis using big True by (simp add: unf Let_def flip: b_def q_def)
    next
      case ge: False
      let ?c = "qsort_rows cmp ties l q b"
      let ?d = "qsort_rows cmp ties (q + 1) r ?c"
      have c: "perm_on l q b ?c" by (rule qsort_perm [OF len(2)])
      have cs: "sorted_on cmp l q ?c" by (rule less.hyps [OF lt(2) len(2) nb])
      have nc: "no_ties cmp ?c" by (rule no_ties_perm [OF c nb])
      have lc: "r < length ?c" using perm_on_length [OF c] len by simp
      have d: "perm_on (q + 1) r ?c ?d" by (rule qsort_perm [OF lc])
      have ds: "sorted_on cmp (q + 1) r ?d" by (rule less.hyps [OF lt(1) lc nc])
      have "sorted_on cmp l r ?d"
      proof (rule sorted_on_join [OF sorted_on_perm [OF d _ cs] ds])
        show "cmp (?d ! m) v \<le> 0" if m: "l \<le> m" "m \<le> q" for m
        proof -
          have "?d ! m = ?c ! m" using d m by (simp add: perm_on_def)
          moreover have "cmp (?c ! m) v \<le> 0" by (rule lo [OF c m len(2)]) simp
          ultimately show ?thesis by simp
        qed
        show "cmp v (?d ! m) \<le> 0" if "q < m" "m \<le> r" for m
          by (rule hi [OF d that lc]) (use c in \<open>simp add: perm_on_def\<close>)
      qed simp
      then show ?thesis using big ge by (simp add: unf Let_def flip: b_def q_def)
    qed
  qed
qed

lemma quick_sort_correct:
  "mset (quick_sort cmp ties a) = mset a \<and> (no_ties cmp a \<longrightarrow> cmp_sorted cmp (quick_sort cmp ties a))"
proof (cases "length a > 1")
  case False
  then have "a = [] \<or> (\<exists>x. a = [x])" by (cases a; cases "tl a") auto
  then show ?thesis by (auto simp: quick_sort_def cmp_sorted_def)
next
  case True
  let ?b = "qsort_rows cmp ties 0 (length a - 1) a"
  have p: "perm_on 0 (length a - 1) a ?b" using True by (intro qsort_perm) simp
  have "cmp_sorted cmp ?b" if "no_ties cmp a"
  proof (rule sorted_on_full)
    show "?b \<noteq> []" using True perm_on_length [OF p] by auto
    show "sorted_on cmp 0 (length ?b - 1) ?b" unfolding perm_on_length [OF p] using True that by (intro qsort_sorted) auto
  qed
  then show ?thesis using p True by (simp add: quick_sort_def perm_on_def)
qed

end

end
