(* ===== verification/Dps_Rank.thy ===== *)
theory Dps_Rank
  imports Dps_Sort Dps_BoolOps
begin

text \<open>
  The order of the results of a search (\<^verbatim>\<open>src/searchtool.c\<close>): the comparisons by pattern and
  by site, the sorting of the found documents by them, the grouping of documents by site, and how
  \<^verbatim>\<open>src/cache.c\<close> and \<^verbatim>\<open>src/db.c\<close> combine these. The popularity of a document is a
  floating-point number: its type is any linear order (there is no NaN), and the two operations the
  code performs on it are arguments. The arrays \<^verbatim>\<open>Coords\<close> and \<^verbatim>\<open>Data\<close> of a list of results
  are one list of pairs; \<^verbatim>\<open>PerSite\<close>, which may be missing, is a list of its own. Nothing depends
  on the optional \<^verbatim>\<open>Track\<close>, which moves with the other two, and \<^verbatim>\<open>WITH_GOOGLEGRP\<close> is not set.
\<close>

section \<open>Comparisons\<close>

record 'f urldata =
  d_url_id :: u32
  d_site_id :: u32
  d_last_mod_time :: u64
  d_pop_rank :: 'f

type_synonym 'f row = "crd \<times> 'f urldata"

text \<open>A popularity times a rating, and a thousand times a popularity plus a rating.\<close>

record 'f fp_ops =
  fp_times :: "'f \<Rightarrow> u32 \<Rightarrow> 'f"
  fp_thousand_plus :: "'f \<Rightarrow> u32 \<Rightarrow> 'f"

definition descending :: "'k::linorder \<Rightarrow> 'k \<Rightarrow> int" where
  "descending x y = (if x > y then - 1 else if x < y then 1 else 0)"

definition ascending :: "'k::linorder \<Rightarrow> 'k \<Rightarrow> int" where
  "ascending x y = (if x < y then - 1 else if x > y then 1 else 0)"

abbreviation row_id :: "'f row \<Rightarrow> u32" where "row_id x \<equiv> url_id (fst x)"
abbreviation row_coord :: "'f row \<Rightarrow> u32" where "row_coord x \<equiv> coord (fst x)"
abbreviation row_rank :: "'f row \<Rightarrow> 'f" where "row_rank x \<equiv> d_pop_rank (snd x)"
abbreviation row_time :: "'f row \<Rightarrow> u64" where "row_time x \<equiv> d_last_mod_time (snd x)"
abbreviation row_site :: "'f row \<Rightarrow> u32" where "row_site x \<equiv> d_site_id (snd x)"

definition DpsCmpPattern_U :: "'f::linorder row \<Rightarrow> 'f row \<Rightarrow> int" where
  "DpsCmpPattern_U x y = (if row_id x > row_id y then - 1 else if row_id x < row_id y then 1 else 0)"

definition DpsCmpPattern_DRP :: "'f::linorder row \<Rightarrow> 'f row \<Rightarrow> int" where
  "DpsCmpPattern_DRP x y =
    (if row_time x > row_time y then - 1 else if row_time x < row_time y then 1
     else if row_coord x > row_coord y then - 1 else if row_coord x < row_coord y then 1
     else if row_rank x > row_rank y then - 1 else if row_rank x < row_rank y then 1 else 0)"

definition DpsCmpPattern_PRD :: "'f::linorder row \<Rightarrow> 'f row \<Rightarrow> int" where
  "DpsCmpPattern_PRD x y =
    (if row_rank x > row_rank y then - 1 else if row_rank x < row_rank y then 1
     else if row_coord x > row_coord y then - 1 else if row_coord x < row_coord y then 1
     else if row_time x > row_time y then - 1 else if row_time x < row_time y then 1 else 0)"

definition DpsCmpPattern_RP :: "'f::linorder row \<Rightarrow> 'f row \<Rightarrow> int" where
  "DpsCmpPattern_RP x y =
    (if row_coord x > row_coord y then - 1 else if row_coord x < row_coord y then 1
     else if row_rank x > row_rank y then - 1 else if row_rank x < row_rank y then 1 else 0)"

definition DpsCmpPattern_RPD :: "'f::linorder row \<Rightarrow> 'f row \<Rightarrow> int" where
  "DpsCmpPattern_RPD x y =
    (if row_coord x > row_coord y then - 1 else if row_coord x < row_coord y then 1
     else if row_rank x > row_rank y then - 1 else if row_rank x < row_rank y then 1
     else if row_time x > row_time y then - 1 else if row_time x < row_time y then 1 else 0)"

definition DpsCmpPattern_IRPD :: "'f::linorder fp_ops \<Rightarrow> 'f row \<Rightarrow> 'f row \<Rightarrow> int" where
  "DpsCmpPattern_IRPD F x y =
    (let m1 = fp_times F (row_rank x) (row_coord x); m2 = fp_times F (row_rank y) (row_coord y) in
     if m1 > m2 then - 1 else if m1 < m2 then 1
     else if row_coord x > row_coord y then - 1 else if row_coord x < row_coord y then 1
     else if row_rank x > row_rank y then - 1 else if row_rank x < row_rank y then 1
     else if row_time x > row_time y then - 1 else if row_time x < row_time y then 1 else 0)"

text \<open>One letter of a pattern: capitals sort downwards, and other letters are passed over.\<close>

definition letter_cmp :: "'f::linorder fp_ops \<Rightarrow> char \<Rightarrow> 'f row \<Rightarrow> 'f row \<Rightarrow> int" where
  "letter_cmp F c x y =
    (if c = CHR ''U'' then descending (row_id x) (row_id y)
     else if c = CHR ''u'' then ascending (row_id x) (row_id y)
     else if c = CHR ''R'' then descending (row_coord x) (row_coord y)
     else if c = CHR ''r'' then ascending (row_coord x) (row_coord y)
     else if c = CHR ''P'' then descending (row_rank x) (row_rank y)
     else if c = CHR ''p'' then ascending (row_rank x) (row_rank y)
     else if c = CHR ''D'' then descending (row_time x) (row_time y)
     else if c = CHR ''d'' then ascending (row_time x) (row_time y)
     else if c = CHR ''I'' then descending (fp_times F (row_rank x) (row_coord x)) (fp_times F (row_rank y) (row_coord y))
     else if c = CHR ''i'' then ascending (fp_times F (row_rank x) (row_coord x)) (fp_times F (row_rank y) (row_coord y))
     else if c = CHR ''A'' then
       descending (fp_thousand_plus F (row_rank x) (row_coord x)) (fp_thousand_plus F (row_rank y) (row_coord y))
     else if c = CHR ''a'' then
       ascending (fp_thousand_plus F (row_rank x) (row_coord x)) (fp_thousand_plus F (row_rank y) (row_coord y))
     else 0)"

fun DpsCmpPattern_full :: "'f::linorder fp_ops \<Rightarrow> string \<Rightarrow> 'f row \<Rightarrow> 'f row \<Rightarrow> int" where
  "DpsCmpPattern_full F [] x y = 0"
| "DpsCmpPattern_full F (c # pattern) x y =
    (if letter_cmp F c x y \<noteq> 0 then letter_cmp F c x y else DpsCmpPattern_full F pattern x y)"

text \<open>The comparison the sorting functions choose for a pattern.\<close>

definition DpsCmpPattern :: "'f::linorder fp_ops \<Rightarrow> string \<Rightarrow> 'f row \<Rightarrow> 'f row \<Rightarrow> int" where
  "DpsCmpPattern F pattern =
    (if pattern = ''DRP'' then DpsCmpPattern_DRP
     else if pattern = ''IRPD'' then DpsCmpPattern_IRPD F
     else if pattern = ''PRD'' then DpsCmpPattern_PRD
     else if pattern = ''RP'' then DpsCmpPattern_RP
     else if pattern = ''RPD'' then DpsCmpPattern_RPD
     else if pattern = ''U'' then DpsCmpPattern_U
     else DpsCmpPattern_full F pattern)"

definition DpsCmpSiteid :: "'f::linorder fp_ops \<Rightarrow> string \<Rightarrow> 'f row \<Rightarrow> 'f row \<Rightarrow> int" where
  "DpsCmpSiteid F pattern x y =
    (if row_site x < row_site y then - 1 else if row_site x > row_site y then 1 else DpsCmpPattern F pattern x y)"

section \<open>Sorting and grouping\<close>

text \<open>\<open>heap\<close> is the choice of \<^verbatim>\<open>configure\<close>. By site the counts move with the rows.\<close>

definition DpsSortSearchWordsBySite ::
    "bool \<Rightarrow> 'f::linorder fp_ops \<Rightarrow> string \<Rightarrow> 'f row list \<Rightarrow> nat list option \<Rightarrow> 'f row list \<times> nat list option" where
  "DpsSortSearchWordsBySite heap F pattern rows PerSite =
    (case PerSite of
       None \<Rightarrow> ((if heap then heap_sort (DpsCmpSiteid F pattern) rows else quick_sort (DpsCmpSiteid F pattern) False rows), None)
     | Some ps \<Rightarrow>
         (let cmp = (\<lambda>x y. DpsCmpSiteid F pattern (fst x) (fst y)); z = zip rows ps;
              z = (if heap then heap_sort cmp z else quick_sort cmp False z)
          in (map fst z, Some (map snd z))))"

text \<open>By pattern the heap sort leaves the counts where they are, since \<^verbatim>\<open>merge\<close> is zero.\<close>

definition DpsSortSearchWordsByPattern ::
    "bool \<Rightarrow> 'f::linorder fp_ops \<Rightarrow> string \<Rightarrow> 'f row list \<Rightarrow> nat list option \<Rightarrow> 'f row list \<times> nat list option" where
  "DpsSortSearchWordsByPattern heap F pattern rows PerSite =
    (if heap then (heap_sort (DpsCmpPattern F pattern) rows, PerSite)
     else
       (case PerSite of
          None \<Rightarrow> (quick_sort (DpsCmpPattern F pattern) True rows, None)
        | Some ps \<Rightarrow>
            (let z = quick_sort (\<lambda>x y. DpsCmpPattern F pattern (fst x) (fst y)) True (zip rows ps)
             in (map fst z, Some (map snd z)))))"

text \<open>The loop over the rows after the first, each with its number of documents.\<close>

fun group_loop :: "u32 \<Rightarrow> nat \<Rightarrow> ('f row \<times> nat) list \<Rightarrow> 'f row list \<times> nat list" where
  "group_loop Doc_site cnt [] = ([], [cnt])"
| "group_loop Doc_site cnt ((x, c) # xs) =
    (if Doc_site = row_site x then group_loop Doc_site (cnt + c) xs
     else (let (os, cs) = group_loop (row_site x) c xs in (x # os, cnt # cs)))"

definition DpsGroupBySite :: "'f row list \<Rightarrow> nat list option \<Rightarrow> 'f row list \<times> nat list option" where
  "DpsGroupBySite rows PerSite =
    (let ps = (case PerSite of None \<Rightarrow> replicate (length rows) 1 | Some ps \<Rightarrow> ps) in
     case zip rows ps of
       [] \<Rightarrow> (rows, PerSite)
     | (x, c) # xs \<Rightarrow> (let (os, cs) = group_loop (row_site x) c xs in (x # os, Some cs)))"

definition DPS_GROUP_NO :: nat where "DPS_GROUP_NO = 0"
definition DPS_GROUP_YES :: nat where "DPS_GROUP_YES = 1"
definition DPS_GROUP_FULL :: nat where "DPS_GROUP_FULL = 2"

definition DpsGroupBySiteMode :: "string option \<Rightarrow> nat" where
  "DpsGroupBySiteMode mode =
    (case mode of
       None \<Rightarrow> DPS_GROUP_NO
     | Some m \<Rightarrow>
         if char_at m 0 \<in> {CHR ''y'', CHR ''Y''} then DPS_GROUP_YES
         else if char_at m 0 \<in> {CHR ''f'', CHR ''F''} then DPS_GROUP_FULL
         else DPS_GROUP_NO)"

text \<open>The last part of a search: \<open>use_site\<close> is whether no single site is asked for.\<close>

definition order_results ::
    "bool \<Rightarrow> 'f::linorder fp_ops \<Rightarrow> string \<Rightarrow> string option \<Rightarrow> bool \<Rightarrow> 'f row list \<Rightarrow> 'f row list \<times> nat list option" where
  "order_results heap F pattern mode use_site rows =
    (let g = DpsGroupBySiteMode mode; use_site_id = (g \<noteq> DPS_GROUP_NO \<and> use_site);
         (rows, ps) =
           (if use_site_id \<and> g = DPS_GROUP_FULL then
              (let (rows, ps) = DpsSortSearchWordsBySite heap F pattern rows None in DpsGroupBySite rows ps)
            else (rows, None));
         (rows, ps) = DpsSortSearchWordsByPattern heap F pattern rows ps
     in if use_site_id \<and> g = DPS_GROUP_YES then DpsGroupBySite rows ps else (rows, ps))"

text \<open>The removal of duplicates when several databases are searched: \<open>p\<close> is the row kept last.\<close>

fun unique_ids :: "'f row \<Rightarrow> 'f row list \<Rightarrow> 'f row list" where
  "unique_ids p [] = [p]"
| "unique_ids p (x # xs) = (if row_id p = row_id x then unique_ids p xs else p # unique_ids x xs)"

definition remove_duplicates :: "bool \<Rightarrow> 'f::linorder fp_ops \<Rightarrow> 'f row list \<Rightarrow> 'f row list" where
  "remove_duplicates heap F rows =
    (case fst (DpsSortSearchWordsByPattern heap F ''U'' rows None) of [] \<Rightarrow> [] | x # xs \<Rightarrow> unique_ids x xs)"

section \<open>The comparisons are orders\<close>

lemma key_order_ascending: "key_order (\<lambda>x y. ascending (f x) (f y))"
  by standard (auto simp: ascending_def split: if_splits)

lemma key_order_descending: "key_order (\<lambda>x y. descending (f x) (f y))"
  by standard (auto simp: descending_def split: if_splits)

lemma key_order_zero: "key_order (\<lambda>x y. 0)"
  by standard auto

lemma key_order_lex:
  assumes "key_order c" "key_order d"
  shows "key_order (\<lambda>x y. if c x y \<noteq> 0 then c x y else d x y)"
proof -
  note C = key_order.cmp_flip [OF assms(1)] key_order.cmp_trans [OF assms(1)] key_order.flip_le [OF assms(1)]
  note D = key_order.cmp_flip [OF assms(2)] key_order.cmp_trans [OF assms(2)]
  show ?thesis
  proof
    show "((if c a b \<noteq> 0 then c a b else d a b) < 0) = (0 < (if c b a \<noteq> 0 then c b a else d b a))" for a b
      using C(1) [of a b] C(1) [of b a] D(1) [of a b] by auto
    fix x y z
    assume a: "(if c x y \<noteq> 0 then c x y else d x y) \<le> 0" and b: "(if c y z \<noteq> 0 then c y z else d y z) \<le> 0"
    then have le: "c x y \<le> 0" "c y z \<le> 0" by (auto split: if_splits)
    then have xz: "c x z \<le> 0" by (rule C(2))
    show "(if c x z \<noteq> 0 then c x z else d x z) \<le> 0"
    proof (cases "c x z = 0")
      case True
      then have zx: "c z x \<le> 0" using C(3) [of z x] by simp
      have "c z y \<le> 0" "c y x \<le> 0" using C(2) [OF zx le(1)] C(2) [OF le(2) zx] by auto
      then have "c x y = 0" "c y z = 0" using le C(3) [of z y] C(3) [of y x] by linarith+
      then show ?thesis using a b True D(2) [of x y z] by simp
    qed (use xz in simp)
  qed
qed

lemma key_order_if:
  "key_order c \<Longrightarrow> key_order d \<Longrightarrow> key_order (\<lambda>x y. if P then c x y else d x y)"
  by (cases P) simp_all

interpretation letter: key_order "letter_cmp F c" for F :: "'f::linorder fp_ops" and c
  unfolding letter_cmp_def [abs_def]
  by (intro key_order_if key_order_ascending key_order_descending key_order_zero)

lemma key_order_full: "key_order (DpsCmpPattern_full F pattern)"
proof (induction pattern)
  case Nil
  then show ?case using key_order_zero by (simp add: fun_eq_iff key_order_def)
next
  case (Cons c pattern)
  have "DpsCmpPattern_full F (c # pattern) =
      (\<lambda>x y. if letter_cmp F c x y \<noteq> 0 then letter_cmp F c x y else DpsCmpPattern_full F pattern x y)"
    by (simp add: fun_eq_iff)
  then show ?case using key_order_lex [OF letter.key_order_axioms Cons.IH] by simp
qed

text \<open>The comparisons written out for the usual patterns are the general one.\<close>

lemma pattern_full: "DpsCmpPattern F pattern = DpsCmpPattern_full F pattern"
proof -
  have "DpsCmpPattern_DRP = DpsCmpPattern_full F ''DRP''" "DpsCmpPattern_IRPD F = DpsCmpPattern_full F ''IRPD''"
    "DpsCmpPattern_PRD = DpsCmpPattern_full F ''PRD''" "DpsCmpPattern_RP = DpsCmpPattern_full F ''RP''"
    "DpsCmpPattern_RPD = DpsCmpPattern_full F ''RPD''" "DpsCmpPattern_U = DpsCmpPattern_full F ''U''"
    by (auto simp: fun_eq_iff letter_cmp_def descending_def DpsCmpPattern_DRP_def DpsCmpPattern_IRPD_def DpsCmpPattern_PRD_def
        DpsCmpPattern_RP_def DpsCmpPattern_RPD_def DpsCmpPattern_U_def Let_def)
  then show ?thesis by (simp add: DpsCmpPattern_def)
qed

interpretation pattern: key_order "DpsCmpPattern F pattern" for F :: "'f::linorder fp_ops" and pattern
  unfolding pattern_full by (rule key_order_full)

interpretation siteid: key_order "DpsCmpSiteid F pattern" for F :: "'f::linorder fp_ops" and pattern
proof -
  have "DpsCmpSiteid F pattern = (\<lambda>x y. if ascending (row_site x) (row_site y) \<noteq> 0
      then ascending (row_site x) (row_site y) else DpsCmpPattern F pattern x y)"
    by (auto simp: fun_eq_iff DpsCmpSiteid_def ascending_def)
  then show "key_order (DpsCmpSiteid F pattern)"
    using key_order_lex [OF key_order_ascending pattern.key_order_axioms] by simp
qed

lemma key_order_fst: "key_order cmp \<Longrightarrow> key_order (\<lambda>x y. cmp (fst x) (fst y))"
  unfolding key_order_def by blast

section \<open>Grouping\<close>

text \<open>What grouping means: one row for each site, the first of it, and the sum of its numbers.\<close>

definition of_site :: "u32 \<Rightarrow> ('f row \<times> nat) list \<Rightarrow> ('f row \<times> nat) list" where
  "of_site s z = filter (\<lambda>y. row_site (fst y) = s) z"

definition site_group :: "('f row \<times> nat) list \<Rightarrow> u32 \<Rightarrow> 'f row \<times> nat" where
  "site_group z s = (fst (hd (of_site s z)), sum_list (map snd (of_site s z)))"

definition sites :: "('f row \<times> nat) list \<Rightarrow> u32 list" where
  "sites z = map (\<lambda>y. row_site (fst y)) z"

lemma group_loop_ref:
  "sorted (sites ((x, c) # xs)) \<Longrightarrow>
   (let (os, cs) = group_loop (row_site x) c xs
    in length cs = Suc (length os) \<and> zip (x # os) cs = map (site_group ((x, c) # xs)) (remdups_adj (sites ((x, c) # xs))))"
proof (induction xs arbitrary: x c)
  case Nil
  then show ?case by (simp add: site_group_def of_site_def sites_def)
next
  case (Cons y xs)
  obtain z d where y: "y = (z, d)" by (cases y)
  show ?case
  proof (cases "row_site x = row_site z")
    case True
    have "site_group ((x, c) # y # xs) s = site_group ((x, c + d) # xs) s" if "s \<in> set (sites ((x, c + d) # xs))" for s
      using True y by (auto simp: site_group_def of_site_def)
    then have "map (site_group ((x, c) # y # xs)) (remdups_adj (sites ((x, c + d) # xs))) =
        map (site_group ((x, c + d) # xs)) (remdups_adj (sites ((x, c + d) # xs)))" by simp
    moreover have "remdups_adj (sites ((x, c) # y # xs)) = remdups_adj (sites ((x, c + d) # xs))"
      using True y by (simp add: sites_def)
    moreover have "sorted (sites ((x, c + d) # xs))" using Cons.prems by (simp add: sites_def)
    ultimately show ?thesis using Cons.IH [of x "c + d"] True y by (simp only: group_loop.simps if_True simp_thms)
  next
    case False
    have lt: "row_site x < row_site z" using Cons.prems False y by (auto simp: sites_def le_less)
    have ne: "row_site x \<noteq> s" if "s \<in> set (sites (y # xs))" for s
      using that lt Cons.prems y by (fastforce simp: sites_def)
    have s: "sorted (sites ((z, d) # xs))" using Cons.prems y by (simp add: sites_def)
    have "site_group ((x, c) # y # xs) (row_site x) = (x, c)"
    proof -
      have "row_site (fst w) \<noteq> row_site x" if "w \<in> set (y # xs)" for w
      proof -
        have "row_site (fst w) \<in> set (sites (y # xs))" unfolding sites_def set_map by (rule imageI [OF that])
        from ne [OF this] show ?thesis by simp
      qed
      then have "of_site (row_site x) (y # xs) = []" by (simp only: of_site_def filter_empty_conv) blast
      then show ?thesis by (simp add: site_group_def of_site_def)
    qed
    moreover have "site_group ((x, c) # y # xs) s = site_group (y # xs) s" if "s \<in> set (sites (y # xs))" for s
      using ne [OF that] by (simp add: site_group_def of_site_def)
    then have "map (site_group ((x, c) # y # xs)) (remdups_adj (sites (y # xs))) = map (site_group (y # xs)) (remdups_adj (sites (y # xs)))"
      by simp
    moreover have "remdups_adj (sites ((x, c) # y # xs)) = row_site x # remdups_adj (sites (y # xs))"
      using False y by (simp add: sites_def)
    ultimately show ?thesis using Cons.IH [OF s] False y by (auto simp: Let_def split: prod.splits)
  qed
qed

lemma sorted_sites:
  fixes F :: "'f::linorder fp_ops"
  assumes "cmp_sorted (DpsCmpSiteid F pattern) rows" "length ps = length rows"
  shows "sorted (sites (zip rows ps))"
proof -
  have "sites (zip rows ps) = map row_site rows"
  proof -
    have "map row_site (map fst (zip rows ps)) = map row_site rows" using assms(2) by (simp only: map_fst_zip)
    then show ?thesis by (simp add: sites_def o_def)
  qed
  moreover have "sorted (map row_site rows)"
    using assms(1) unfolding cmp_sorted_def sorted_map
    by (rule sorted_wrt_mono_rel [rotated]) (auto simp: DpsCmpSiteid_def not_less split: if_splits)
  ultimately show ?thesis by simp
qed

lemma distinct_remdups_adj: "sorted xs \<Longrightarrow> distinct (remdups_adj xs)"
  by (induction xs rule: remdups_adj.induct) (auto simp: le_less)

text \<open>Sorting by site and then grouping, with the counts made anew.\<close>

lemma group_sorted:
  fixes F :: "'f::linorder fp_ops"
  assumes "cmp_sorted (DpsCmpSiteid F pattern) rows"
  defines "found \<equiv> fst (DpsGroupBySite rows None)" and "counts \<equiv> (case snd (DpsGroupBySite rows None) of None \<Rightarrow> [] | Some cs \<Rightarrow> cs)"
  shows "distinct (map row_site found) \<and> set (map row_site found) = set (map row_site rows) \<and> length counts = length found \<and>
    (\<forall>k < length found. found ! k \<in> set rows \<and> counts ! k = length (filter (\<lambda>x. row_site x = row_site (found ! k)) rows) \<and>
       (\<forall>x \<in> set rows. row_site x = row_site (found ! k) \<longrightarrow> DpsCmpPattern F pattern (found ! k) x \<le> 0))"
proof (cases rows)
  case Nil
  then show ?thesis by (simp add: found_def counts_def DpsGroupBySite_def)
next
  case (Cons r rs)
  define zz where "zz = map (\<lambda>x. (x, 1 :: nat)) rows"
  let ?of = "\<lambda>s. filter (\<lambda>x. row_site x = s) rows"
  have z: "zip rows (replicate (length rows) 1) = zz" by (simp add: zz_def zip_replicate2)
  have st: "sites zz = map row_site rows" by (simp add: zz_def sites_def)
  have srt: "sorted (sites zz)" using sorted_sites [OF assms(1), of "replicate (length rows) 1"] z by simp
  obtain os cs where g: "group_loop (row_site r) 1 (map (\<lambda>x. (x, 1)) rs) = (os, cs)" by force
  have len: "length cs = Suc (length os)" and ref: "zip (r # os) cs = map (site_group zz) (remdups_adj (sites zz))"
    using group_loop_ref [of r 1 "map (\<lambda>x. (x, 1)) rs"] srt g Cons by (auto simp: zz_def)
  have "DpsGroupBySite rows None = (r # os, Some cs)" using z g Cons by (simp add: zz_def DpsGroupBySite_def)
  then have dc: "found = r # os" "counts = cs" by (simp_all add: found_def counts_def)
  define ss where "ss = remdups_adj (map row_site rows)"
  have ss: "distinct ss" "set ss = set (map row_site rows)"
    using distinct_remdups_adj [OF srt] unfolding st ss_def by auto
  have grp: "site_group zz s = (hd (?of s), length (?of s))" if "s \<in> set ss" for s
  proof -
    have "of_site s zz = map (\<lambda>x. (x, 1)) (?of s)" by (simp add: zz_def of_site_def filter_map o_def)
    moreover have "?of s \<noteq> []" using that ss(2) by (auto simp: filter_empty_conv)
    ultimately show ?thesis by (simp add: site_group_def hd_map o_def sum_list_triv)
  qed
  have "found = map fst (zip found counts)" "counts = map snd (zip found counts)" using len dc by simp_all
  then have f: "found = map (\<lambda>s. hd (?of s)) ss" and c: "counts = map (\<lambda>s. length (?of s)) ss"
    unfolding dc ref st ss_def [symmetric] by (simp_all add: grp)
  have hd: "hd (?of s) \<in> set rows \<and> row_site (hd (?of s)) = s" if "s \<in> set ss" for s
  proof -
    have "?of s \<noteq> []" using that ss(2) by (auto simp: filter_empty_conv)
    then have "hd (?of s) \<in> set (?of s)" by (rule hd_in_set)
    then show ?thesis by simp
  qed
  then have fs: "map row_site found = ss" unfolding f by (simp add: map_idI)
  have best: "DpsCmpPattern F pattern (hd (?of s)) x \<le> 0" if "s \<in> set ss" "x \<in> set rows" "row_site x = s" for s x
  proof -
    have "cmp_sorted (DpsCmpSiteid F pattern) (?of s)" using assms(1) by (simp add: cmp_sorted_def sorted_wrt_filter)
    moreover have "x \<in> set (?of s)" using that by simp
    ultimately have "DpsCmpSiteid F pattern (hd (?of s)) x \<le> 0"
      by (cases "?of s") (auto simp: cmp_sorted_def siteid.cmp_refl)
    then show ?thesis using that hd [OF that(1)] by (simp add: DpsCmpSiteid_def)
  qed
  have "found ! k = hd (?of (ss ! k)) \<and> counts ! k = length (?of (ss ! k)) \<and> ss ! k \<in> set ss" if "k < length found" for k
    using that unfolding f c by simp
  then show ?thesis using fs ss hd best by (auto simp: f c simp del: filter.simps)
qed

lemma unique_ids_ref:
  "sorted_wrt (\<lambda>x y. row_id y \<le> row_id x) (p # xs) \<Longrightarrow>
   distinct (map row_id (unique_ids p xs)) \<and> set (map row_id (unique_ids p xs)) = set (map row_id (p # xs)) \<and>
   set (unique_ids p xs) \<subseteq> set (p # xs)"
proof (induction p xs rule: unique_ids.induct)
  case (2 p x xs)
  show ?case
  proof (cases "row_id p = row_id x")
    case True
    then show ?thesis using 2 by auto
  next
    case False
    have "row_id w \<le> row_id x" if "w \<in> set (x # xs)" for w using 2(3) that by auto
    moreover have "row_id x < row_id p" using 2(3) False by (auto simp: le_less)
    ultimately have "row_id p \<notin> set (map row_id (x # xs))" by fastforce
    then show ?thesis using 2(2) [OF False] 2(3) False by auto
  qed
qed simp

section \<open>Properties\<close>

text \<open>
  C35. The comparison the sorting functions choose for a pattern, six of which are written out, is the
  lexicographic comparison by the letters of the pattern.
\<close>

theorem DpsCmpPattern_letters: "DpsCmpPattern F pattern x y = DpsCmpPattern_full F pattern x y"
  by (simp add: pattern_full)

text \<open>
  C33. With the heap sort, sorting the results by any pattern gives the same results in the order of
  the pattern, whatever rows compare equal.
\<close>

theorem DpsSortSearchWordsByPattern_heap:
  "cmp_sorted (DpsCmpPattern_full F pattern) (fst (DpsSortSearchWordsByPattern True F pattern rows PerSite)) \<and>
   mset (fst (DpsSortSearchWordsByPattern True F pattern rows PerSite)) = mset rows"
  using pattern.heap_sort_correct [of F pattern rows] by (simp add: DpsSortSearchWordsByPattern_def pattern_full)

text \<open>
  C34. With the quick sort, sorting by a pattern keeps the results and the number that goes with each
  of them; they come out in order when the pattern tells any two of them apart.
\<close>

theorem DpsSortSearchWordsByPattern_quick:
  fixes F :: "'f::linorder fp_ops"
  assumes "length ps = length rows"
  shows "mset (zip (fst (DpsSortSearchWordsByPattern False F pattern rows (Some ps)))
           (the (snd (DpsSortSearchWordsByPattern False F pattern rows (Some ps))))) = mset (zip rows ps) \<and>
    (no_ties (DpsCmpPattern_full F pattern) rows \<longrightarrow>
       cmp_sorted (DpsCmpPattern_full F pattern) (fst (DpsSortSearchWordsByPattern False F pattern rows (Some ps))))"
proof -
  let ?cmp = "\<lambda>x y :: 'f row \<times> nat. DpsCmpPattern_full F pattern (fst x) (fst y)"
  let ?z = "quick_sort ?cmp True (zip rows ps)"
  have k: "key_order ?cmp" by (rule key_order_fst [OF key_order_full])
  note q = key_order.quick_sort_correct [OF k, of True "zip rows ps"]
  have s: "DpsSortSearchWordsByPattern False F pattern rows (Some ps) = (map fst ?z, Some (map snd ?z))"
    by (simp add: DpsSortSearchWordsByPattern_def pattern_full Let_def)
  have "no_ties ?cmp (zip rows ps)" if "no_ties (DpsCmpPattern_full F pattern) rows"
  proof -
    have d: "distinct (map fst (zip rows ps))" using that assms by (simp add: no_ties_def)
    then have "x = y" if "x \<in> set (zip rows ps)" "y \<in> set (zip rows ps)" "fst x = fst y" for x y
      using that by (auto simp: distinct_map inj_on_def)
    moreover have "fst x \<in> set rows" if "x \<in> set (zip rows ps)" for x
      using that set_zip_leftD [of "fst x" "snd x" rows ps] by simp
    moreover have "distinct (zip rows ps)" using d by (simp add: distinct_map)
    ultimately show ?thesis using that by (simp add: no_ties_def)
  qed
  then have "cmp_sorted (DpsCmpPattern_full F pattern) (map fst ?z)" if "no_ties (DpsCmpPattern_full F pattern) rows"
    using q that by (simp add: cmp_sorted_def sorted_wrt_map)
  then show ?thesis using q unfolding s by (simp add: zip_map_fst_snd)
qed

text \<open>A row of the examples below, with whole numbers for popularities.\<close>

definition sample_row :: "u32 \<Rightarrow> u32 \<Rightarrow> u32 \<Rightarrow> int row" where
  "sample_row doc site rating = (Crd doc rating, \<lparr>d_url_id = doc, d_site_id = site, d_last_mod_time = 0, d_pop_rank = 1\<rparr>)"

definition sample_ops :: "int fp_ops" where
  "sample_ops = \<lparr>fp_times = (\<lambda>p r. p * uint r), fp_thousand_plus = (\<lambda>p r. 1000 * p + uint r)\<rparr>"

theorem DpsSortSearchWordsByPattern_quick_witness:
  "cmp_sorted (DpsCmpPattern_full sample_ops ''RP'')
     (fst (DpsSortSearchWordsByPattern False sample_ops ''RP'' [sample_row 1 1 5, sample_row 2 1 7] (Some [3, 4])))"
proof -
  have "no_ties (DpsCmpPattern_full sample_ops ''RP'') [sample_row 1 1 5, sample_row 2 1 7]"
    by (simp add: no_ties_def sample_row_def letter_cmp_def descending_def)
  then show ?thesis
    using DpsSortSearchWordsByPattern_quick [of "[3, 4]" "[sample_row 1 1 5, sample_row 2 1 7]" sample_ops "''RP''"] by simp
qed

text \<open>
  C32. Grouping by site, after the sort by site: there is one row for every site that was found, it
  is the one of its site that the pattern puts first, and its number is that of the documents
  found on the site.
\<close>

theorem DpsGroupBySite_best:
  fixes F :: "'f::linorder fp_ops" and rows :: "'f row list" and pattern :: string
  defines "R \<equiv> DpsGroupBySite (fst (DpsSortSearchWordsBySite True F pattern rows None)) None"
  defines "found \<equiv> fst R" and "counts \<equiv> (case snd R of None \<Rightarrow> [] | Some cs \<Rightarrow> cs)"
  shows "distinct (map row_site found) \<and> set (map row_site found) = set (map row_site rows) \<and> length counts = length found \<and>
    (\<forall>k < length found. found ! k \<in> set rows \<and> counts ! k = length (filter (\<lambda>x. row_site x = row_site (found ! k)) rows) \<and>
       (\<forall>x \<in> set rows. row_site x = row_site (found ! k) \<longrightarrow> DpsCmpPattern F pattern (found ! k) x \<le> 0))"
proof -
  let ?s = "heap_sort (DpsCmpSiteid F pattern) rows"
  have s: "cmp_sorted (DpsCmpSiteid F pattern) ?s" "mset ?s = mset rows"
    using siteid.heap_sort_correct [of F pattern rows] by simp_all
  have R: "R = DpsGroupBySite ?s None" by (simp add: R_def DpsSortSearchWordsBySite_def)
  have st: "set ?s = set rows" using s(2) by (rule mset_eq_setD)
  have "length (filter P ?s) = length (filter P rows)" for P
    using s(2) by (metis mset_filter size_mset)
  then show ?thesis using group_sorted [OF s(1)] unfolding found_def counts_def R by (simp add: st)
qed

theorem DpsGroupBySite_best_witness:
  "DpsCmpPattern sample_ops ''RP''
     (fst (DpsGroupBySite (fst (DpsSortSearchWordsBySite True sample_ops ''RP''
        [sample_row 1 9 5, sample_row 2 8 6, sample_row 3 9 7] None)) None) ! 1) (sample_row 1 9 5) \<le> 0"
proof -
  let ?rows = "[sample_row 1 9 5, sample_row 2 8 6, sample_row 3 9 7]"
  let ?R = "DpsGroupBySite (fst (DpsSortSearchWordsBySite True sample_ops ''RP'' ?rows None)) None"
  have "?R = ([sample_row 2 8 6, sample_row 3 9 7], Some [1, 2])" by code_simp
  then have "length (fst ?R) = 2" "row_site (fst ?R ! 1) = 9" by (simp_all add: sample_row_def)
  then show ?thesis using DpsGroupBySite_best [of sample_ops "''RP''" ?rows]
    by (simp add: sample_row_def)
qed

text \<open>
  C36. Removing duplicates, when the results of several databases are put together, leaves exactly one
  row for every document, and no row that was not there.
\<close>

theorem remove_duplicates_unique:
  "distinct (map row_id (remove_duplicates True F rows)) \<and>
   set (map row_id (remove_duplicates True F rows)) = set (map row_id rows) \<and> set (remove_duplicates True F rows) \<subseteq> set rows"
proof -
  let ?s = "heap_sort (DpsCmpPattern F ''U'') rows"
  have s: "cmp_sorted (DpsCmpPattern F ''U'') ?s" "mset ?s = mset rows"
    using pattern.heap_sort_correct [of F "''U''" rows] by simp_all
  have u: "sorted_wrt (\<lambda>x y. row_id y \<le> row_id x) ?s"
    using s(1) unfolding cmp_sorted_def
    by (rule sorted_wrt_mono_rel [rotated]) (auto simp: DpsCmpPattern_def DpsCmpPattern_U_def not_less split: if_splits)
  have st: "set ?s = set rows" using s(2) by (rule mset_eq_setD)
  have r: "remove_duplicates True F rows = (case ?s of [] \<Rightarrow> [] | x # xs \<Rightarrow> unique_ids x xs)"
    by (simp add: remove_duplicates_def DpsSortSearchWordsByPattern_def)
  show ?thesis
  proof (cases ?s)
    case Nil
    then show ?thesis using r st by simp
  next
    case (Cons x xs)
    then show ?thesis using unique_ids_ref [of x xs] u r st by (simp only: list.case set_map)
  qed
qed

section \<open>What goes wrong\<close>

text \<open>Eleven rows of which all but the first are equal to the pivot: the quick sort leaves them as they are.\<close>

lemma quick_sort_wrong:
  "quick_sort (\<lambda>x y :: int. x - y) False (5 # replicate 10 0) = 5 # replicate 10 0"
  by code_simp

text \<open>
  Grouped results sorted by pattern with the heap sort: the site with one document comes first and is
  given the two documents of the other.
\<close>

lemma counts_not_moved:
  "order_results True sample_ops ''RP'' (Some ''full'') True [sample_row 1 8 5, sample_row 2 8 4, sample_row 3 9 7] =
     ([sample_row 3 9 7, sample_row 1 8 5], Some [2, 1])"
  by code_simp

end
