(* ===== verification/Dps_Conv.thy ===== *)
theory Dps_Conv
  imports Dps_Sgml
begin

text \<open>
  Conversion between character sets: UTF-8 and UTF-16 (\<^verbatim>\<open>src/uconv-utf8.c\<close>) and the loop
  \<^verbatim>\<open>DpsConv\<close> over any two character sets without a state (\<^verbatim>\<open>src/uconv.c\<close>). A decoder gets the
  bytes from \<^verbatim>\<open>s\<close> to \<^verbatim>\<open>end\<close> and returns its result and the code points it stores
  (\<^verbatim>\<open>ocodes\<close> of them); the byte after the end reads as NUL. An encoder gets the room
  \<^verbatim>\<open>e - r\<close> and returns its result and the bytes it stores, also where the result does not count them. \<open>entity\<close> is the table of entities, in
  which no name stands for NUL, and \<open>junk\<close> what an uninitialised variable holds.
\<close>

section \<open>Flags and results\<close>

definition DPS_RECODE_TEXT_FROM :: u32 where "DPS_RECODE_TEXT_FROM = 1"
definition DPS_RECODE_HTML_FROM :: u32 where "DPS_RECODE_HTML_FROM = 4"
definition DPS_RECODE_HTML_TO :: u32 where "DPS_RECODE_HTML_TO = 8"
definition DPS_RECODE_URL_FROM :: u32 where "DPS_RECODE_URL_FROM = 16"
definition DPS_RECODE_URL_TO :: u32 where "DPS_RECODE_URL_TO = 32"
definition DPS_RECODE_JSON_FROM :: u32 where "DPS_RECODE_JSON_FROM = 64"
definition DPS_RECODE_JSON_TO :: u32 where "DPS_RECODE_JSON_TO = 128"

lemmas recode_defs = DPS_RECODE_TEXT_FROM_def DPS_RECODE_HTML_FROM_def DPS_RECODE_HTML_TO_def DPS_RECODE_URL_FROM_def
  DPS_RECODE_URL_TO_def DPS_RECODE_JSON_FROM_def DPS_RECODE_JSON_TO_def

definition has_flag :: "u32 \<Rightarrow> u32 \<Rightarrow> bool" where
  "has_flag flags f \<longleftrightarrow> flags AND f \<noteq> 0"

lemma no_flag [simp]: "\<not> has_flag 0 f"
  by (simp add: has_flag_def)

definition DPS_CHARSET_ILSEQ :: int where "DPS_CHARSET_ILSEQ = - 1"
definition DPS_CHARSET_ILSEQ2 :: int where "DPS_CHARSET_ILSEQ2 = - 2"
definition DPS_CHARSET_ILSEQ3 :: int where "DPS_CHARSET_ILSEQ3 = - 3"
definition DPS_CHARSET_ILSEQ4 :: int where "DPS_CHARSET_ILSEQ4 = - 4"
definition DPS_CHARSET_ILSEQ5 :: int where "DPS_CHARSET_ILSEQ5 = - 5"
definition DPS_CHARSET_ILSEQ6 :: int where "DPS_CHARSET_ILSEQ6 = - 6"
definition DPS_CHARSET_TOOFEW :: int where "DPS_CHARSET_TOOFEW = - 7"
definition DPS_CHARSET_ILUNI :: int where "DPS_CHARSET_ILUNI = 0"
definition DPS_CHARSET_TOOSMALL :: int where "DPS_CHARSET_TOOSMALL = - 1"

lemmas charset_defs = DPS_CHARSET_ILSEQ_def DPS_CHARSET_ILSEQ2_def DPS_CHARSET_ILSEQ3_def DPS_CHARSET_ILSEQ4_def
  DPS_CHARSET_ILSEQ5_def DPS_CHARSET_ILSEQ6_def DPS_CHARSET_TOOFEW_def DPS_CHARSET_ILUNI_def DPS_CHARSET_TOOSMALL_def

type_synonym decoded = "int \<times> u32 list"
type_synonym encoded = "int \<times> u8 list"

definition byte_at :: "u8 list \<Rightarrow> nat \<Rightarrow> u8" where
  "byte_at s i = (if i < length s then s ! i else 0)"

definition byte_chars :: "u8 list \<Rightarrow> string" where
  "byte_chars s = map (\<lambda>b. chr (unat b)) s"

section \<open>Decoding UTF-8\<close>

text \<open>\<^verbatim>\<open>sscanf\<close> with \<^verbatim>\<open>%d\<close> and \<^verbatim>\<open>%x\<close>; \<^const>\<open>None\<close>: nothing is stored.\<close>

definition scan_num :: "nat \<Rightarrow> string \<Rightarrow> u32 option" where
  "scan_num b s =
    (let t = dropWhile c_isspace s; neg = (char_at t 0 = CHR ''-'');
         u = (if neg \<or> char_at t 0 = CHR ''+'' then tl t else t);
         u = (if b = 16 \<and> char_at u 0 = CHR ''0'' \<and> char_at u 1 \<in> {CHR ''x'', CHR ''X''} \<and> base_digit (char_at u 2) \<noteq> None
              then drop 2 u else u);
         n = min (if b = 16 then 2 ^ 64 - 1 else if neg then 2 ^ 63 else 2 ^ 63 - 1) (base_number b 0 u)
     in case base_digit (char_at u 0) of
          Some d \<Rightarrow> if d < b then Some (word_of_int (if neg then - n else n)) else None
        | None \<Rightarrow> None)"

text \<open>The position after the letters and digits from \<open>k\<close> on and a semicolon.\<close>

definition skip_name :: "u8 list \<Rightarrow> nat \<Rightarrow> nat" where
  "skip_name s k =
    (let p = k + length (takeWhile c_isalnum (byte_chars (drop k s))) in if byte_at s p = 0x3B then p + 1 else p)"

text \<open>An entity, from its ampersand on; \<^const>\<open>None\<close>: it is not one.\<close>

definition utf8_entity :: "entities \<Rightarrow> u32 \<Rightarrow> u32 \<Rightarrow> u8 list \<Rightarrow> decoded option" where
  "utf8_entity entity junk flags s =
    (if length s \<le> 1 then Some (DPS_CHARSET_TOOFEW, [])
     else if byte_at s 1 = 0x23 then
       (if length s \<le> 2 then Some (DPS_CHARSET_TOOFEW, [])
        else
          (let n = (if byte_at s 2 \<in> {0x78, 0x58} then scan_num 16 (byte_chars (drop 3 s)) else scan_num 10 (byte_chars (drop 2 s)));
               sw = (case n of Some v \<Rightarrow> v | None \<Rightarrow> junk)
           in if sw \<noteq> 0 then Some (int (skip_name s 2), [sw]) else None))
     else
       (let name = entity_name (byte_chars (tl s));
            codes = (if \<not> has_flag flags DPS_RECODE_TEXT_FROM \<and> byte_at s (1 + length name) = 0x3B
                     then DpsSgmlToUni entity name else [])
        in if codes \<noteq> [] \<and> hd codes \<noteq> 0 then Some (int (skip_name s 1), codes) else None))"

definition utf8_ascii :: "entities \<Rightarrow> u32 \<Rightarrow> u32 \<Rightarrow> u8 list \<Rightarrow> decoded" where
  "utf8_ascii entity junk flags s =
    (let c = byte_at s 0;
         e = (if c = 0x26 \<and> (has_flag flags DPS_RECODE_HTML_FROM \<or> has_flag flags DPS_RECODE_URL_FROM) \<or>
                 c = 0x21 \<and> has_flag flags DPS_RECODE_URL_FROM
              then utf8_entity entity junk flags s else None)
     in case e of
          Some d \<Rightarrow> d
        | None \<Rightarrow>
            if c = 0x5C \<and> has_flag flags DPS_RECODE_JSON_FROM then
              (if length s \<le> 1 then (DPS_CHARSET_TOOFEW, [])
               else (case DpsJSONToUni (byte_chars (tl s)) of
                       Some (wc, icodes) \<Rightarrow> (int icodes + 1, [wc])
                     | None \<Rightarrow> (1, [ucast c])))
            else (1, [ucast c]))"

definition dps_mb_wc_utf8 :: "entities \<Rightarrow> u32 \<Rightarrow> u32 \<Rightarrow> u8 list \<Rightarrow> decoded" where
  "dps_mb_wc_utf8 entity junk flags s =
    (let c = byte_at s 0; n = length s; b = byte_at s in
     if c < 0x80 then utf8_ascii entity junk flags s
     else if c < 0xC2 then (DPS_CHARSET_ILSEQ, [])
     else if c AND 0xE0 = 0xC0 then
       (if n < 2 then (DPS_CHARSET_TOOFEW, [])
        else if b 1 AND 0xC0 \<noteq> 0x80 then (DPS_CHARSET_ILSEQ2, [])
        else (2, [push_bit 6 (ucast (c AND 0x1F)) OR ucast (b 1 AND 0x3F)]))
     else if c AND 0xF0 = 0xE0 then
       (if n < 3 then (DPS_CHARSET_TOOFEW, [])
        else if b 1 AND 0xC0 \<noteq> 0x80 \<or> b 2 AND 0xC0 \<noteq> 0x80 then (DPS_CHARSET_ILSEQ3, [])
        else (3, [push_bit 12 (ucast (c AND 0x0F)) OR push_bit 6 (ucast (b 1 AND 0x3F)) OR ucast (b 2 AND 0x3F)]))
     else if c < 0xF8 then
       (if n < 4 then (DPS_CHARSET_TOOFEW, [])
        else if \<not> (b 1 XOR 0x80 < 0x40 \<and> b 2 XOR 0x80 < 0x40 \<and> b 3 XOR 0x80 < 0x40 \<and> (c \<ge> 0xF1 \<or> b 1 \<ge> 0x90))
        then (DPS_CHARSET_ILSEQ4, [])
        else (4, [push_bit 18 (ucast (c AND 0x07)) OR push_bit 12 (ucast (b 1 XOR 0x80)) OR
                  push_bit 6 (ucast (b 2 XOR 0x80)) OR ucast (b 3 XOR 0x80)]))
     else if c < 0xFC then
       (if n < 5 then (DPS_CHARSET_TOOFEW, [])
        else if \<not> (b 1 XOR 0x80 < 0x40 \<and> b 2 XOR 0x80 < 0x40 \<and> b 3 XOR 0x80 < 0x40 \<and> b 4 XOR 0x80 < 0x40 \<and> (c \<ge> 0xF9 \<or> b 1 \<ge> 0x88))
        then (DPS_CHARSET_ILSEQ5, [])
        else (5, [push_bit 24 (ucast (c AND 0x03)) OR push_bit 18 (ucast (b 1 XOR 0x80)) OR
                  push_bit 12 (ucast (b 2 XOR 0x80)) OR push_bit 6 (ucast (b 3 XOR 0x80)) OR ucast (b 4 XOR 0x80)]))
     else if c < 0xFE then
       (if n < 6 then (DPS_CHARSET_TOOFEW, [])
        else if \<not> (b 1 XOR 0x80 < 0x40 \<and> b 2 XOR 0x80 < 0x40 \<and> b 3 XOR 0x80 < 0x40 \<and> b 4 XOR 0x80 < 0x40 \<and>
                    b 5 XOR 0x80 < 0x40 \<and> (c \<ge> 0xFD \<or> b 1 \<ge> 0x84))
        then (DPS_CHARSET_ILSEQ6, [])
        else (6, [push_bit 30 (ucast (c AND 0x01)) OR push_bit 24 (ucast (b 1 XOR 0x80)) OR
                  push_bit 18 (ucast (b 2 XOR 0x80)) OR push_bit 12 (ucast (b 3 XOR 0x80)) OR
                  push_bit 6 (ucast (b 4 XOR 0x80)) OR ucast (b 5 XOR 0x80)]))
     else (DPS_CHARSET_ILSEQ, []))"

section \<open>Encoding UTF-8\<close>

definition cont :: "u32 \<Rightarrow> u8" where
  "cont wc = ucast (0x80 OR (wc AND 0x3F))"

text \<open>The switch that falls through all its cases, and what each of them adds to the rest of the code point.\<close>

definition utf8_mark :: "nat \<Rightarrow> u32" where
  "utf8_mark cnt =
    (if cnt = 6 then 0x4000000 else if cnt = 5 then 0x200000 else if cnt = 4 then 0x10000
     else if cnt = 3 then 0x800 else 0xC0)"

fun utf8_fill :: "nat \<Rightarrow> u32 \<Rightarrow> u8 list" where
  "utf8_fill 0 wc = []"
| "utf8_fill (Suc 0) wc = [ucast wc]"
| "utf8_fill (Suc (Suc n)) wc = utf8_fill (Suc n) (drop_bit 6 wc OR utf8_mark (Suc (Suc n))) @ [cont wc]"

definition dps_wc_mb_utf8 :: "u32 \<Rightarrow> string \<Rightarrow> int \<Rightarrow> u32 \<Rightarrow> encoded" where
  "dps_wc_mb_utf8 flags CharsToEscape room wc =
    (if wc < 0x80 then
       (if has_flag flags DPS_RECODE_JSON_TO \<and> (0 < wc \<and> wc < 0x20 \<or> wc = 0x22 \<or> wc = 0x5C) then (DPS_CHARSET_ILUNI, [])
        else if has_flag flags DPS_RECODE_HTML_TO \<and> (wc = 0 \<or> chr (unat wc) \<in> set CharsToEscape) then (DPS_CHARSET_ILUNI, [ucast wc])
        else if has_flag flags DPS_RECODE_URL_TO \<and> wc = 0x21 then (DPS_CHARSET_ILUNI, [ucast wc])
        else (1, [ucast wc]))
     else
       (let cnt = (if wc < 0x800 then 2 else if wc < 0x10000 then 3 else if wc < 0x200000 then 4
                     else if wc < 0x4000000 then 5 else if wc \<le> 0x7FFFFFFF then 6 else 0)
        in if cnt = 0 then (DPS_CHARSET_ILUNI, [])
           else if int cnt > room then (DPS_CHARSET_TOOSMALL, [])
           else (int cnt, utf8_fill cnt wc)))"

section \<open>UTF-16\<close>

text \<open>\<open>be\<close>: the more significant byte comes first.\<close>

definition unit_at :: "bool \<Rightarrow> u8 list \<Rightarrow> nat \<Rightarrow> u32" where
  "unit_at be s i =
    (if be then push_bit 8 (ucast (byte_at s i)) + ucast (byte_at s (i + 1))
     else push_bit 8 (ucast (byte_at s (i + 1))) + ucast (byte_at s i))"

definition unit_bytes :: "bool \<Rightarrow> u32 \<Rightarrow> u8 list" where
  "unit_bytes be c = (if be then [ucast (drop_bit 8 c), ucast (c AND 0xFF)] else [ucast (c AND 0xFF), ucast (drop_bit 8 c)])"

definition utf16_decode :: "bool \<Rightarrow> u8 list \<Rightarrow> decoded" where
  "utf16_decode be s =
    (let f = unit_at be s 0 in
     if f AND 0xFC00 \<noteq> 0xD800 then (2, [f])
     else if length s \<le> 3 then (DPS_CHARSET_ILUNI, [])
     else
       (let t = unit_at be s 2 in
        if t AND 0xFC00 \<noteq> 0xDC00 then (DPS_CHARSET_ILUNI, [])
        else (4, [push_bit 10 (f AND 0x03FF) + 0x010000 + (t AND 0x03FF)])))"

definition dps_mb_wc_utf16le :: "u8 list \<Rightarrow> decoded" where
  "dps_mb_wc_utf16le s = (if length s \<le> 1 then (DPS_CHARSET_TOOFEW, []) else utf16_decode False s)"

definition dps_mb_wc_utf16be :: "u8 list \<Rightarrow> decoded" where
  "dps_mb_wc_utf16be s = (if length s \<le> 1 then (DPS_CHARSET_ILUNI, []) else utf16_decode True s)"

definition utf16_encode :: "bool \<Rightarrow> int \<Rightarrow> u32 \<Rightarrow> encoded" where
  "utf16_encode be room wc =
    (if wc < 0x010000 then (if room < 2 then (DPS_CHARSET_TOOSMALL, []) else (2, unit_bytes be wc))
     else if wc < 0x200000 then
       (if room < 4 then (DPS_CHARSET_TOOSMALL, [])
        else (4, unit_bytes be (0xD800 + push_bit 6 (drop_bit 16 wc - 1) + drop_bit 2 (wc AND 0x00FC00)) @
                 unit_bytes be (0xDC00 + (wc AND 0x0003FF))))
     else (DPS_CHARSET_ILUNI, []))"

definition dps_wc_mb_utf16le :: "int \<Rightarrow> u32 \<Rightarrow> encoded" where
  "dps_wc_mb_utf16le = utf16_encode False"

definition dps_wc_mb_utf16be :: "int \<Rightarrow> u32 \<Rightarrow> encoded" where
  "dps_wc_mb_utf16be = utf16_encode True"

section \<open>The conversion\<close>

fun entity_digits_loop :: "nat \<Rightarrow> bool \<Rightarrow> nat \<Rightarrow> string" where
  "entity_digits_loop 0 was_lead n = (if n > 0 \<or> was_lead then [chr (n + 0x30)] else [])"
| "entity_digits_loop (Suc k) was_lead n =
    (let dig = n div 10 ^ Suc k; lead = (dig > 0 \<or> was_lead)
     in (if lead then [chr (dig + 0x30)] else []) @ entity_digits_loop k lead (n - dig * 10 ^ Suc k))"

definition dps_ENTITYprint :: "char \<Rightarrow> u32 \<Rightarrow> string" where
  "dps_ENTITYprint c n = [c, CHR ''#''] @ entity_digits_loop 7 False (unat n) @ [CHR '';'']"

definition json_digit :: "nat \<Rightarrow> char" where
  "json_digit dig = chr (dig + (if dig < 10 then 0x30 else 0x36))"

definition dps_JSONprint :: "u32 \<Rightarrow> string" where
  "dps_JSONprint n =
    CHR 0x5C #
    (if n = 0x08 then ''b'' else if n = 0x09 then ''t'' else if n = 0x0A then ''n'' else if n = 0x0C then ''f''
     else if n = 0x0D then ''r'' else if n = 0x22 then [CHR 0x22] else if n = 0x2F then ''/'' else if n = 0x5C then [CHR 0x5C]
     else CHR ''u'' # map (\<lambda>m. json_digit (unat n div m mod 16)) [0x1000, 0x100, 0x10, 1])"

definition chars_bytes :: "string \<Rightarrow> u8 list" where
  "chars_bytes s = map (\<lambda>c. word_of_nat (ord c)) s"

datatype conv_step = Put "u8 list" | Next_char | Stop

text \<open>One code point to the output; \<open>to\<close> is the encoder. A code point it has not becomes an escape or a question mark.\<close>

definition conv_out :: "u32 \<Rightarrow> (int \<Rightarrow> u32 \<Rightarrow> encoded) \<Rightarrow> int \<Rightarrow> u32 \<Rightarrow> conv_step" where
  "conv_out flags to room wc =
    (if wc = 0 then Stop
     else
       (let (res, out) = to room wc in
        if res > 0 then Put out
        else if res = DPS_CHARSET_ILUNI \<and> wc \<noteq> 0x3F then
          (if has_flag flags DPS_RECODE_HTML_TO then
             (if room > 11 then Put (chars_bytes (dps_ENTITYprint (CHR ''&'') (wc AND 0xFFFFFF))) else Next_char)
           else if has_flag flags DPS_RECODE_URL_TO then
             (if room > 11 then Put (chars_bytes (dps_ENTITYprint (CHR ''!'') (wc AND 0xFFFFFF))) else Next_char)
           else if has_flag flags DPS_RECODE_JSON_TO then
             (if room > 6 then Put (chars_bytes (dps_JSONprint (wc AND 0xFFFF))) else Next_char)
           else (let (res, out) = to room 0x3F in if res > 0 then Put out else Stop))
        else Stop))"

fun conv_codes :: "u32 \<Rightarrow> (int \<Rightarrow> u32 \<Rightarrow> encoded) \<Rightarrow> int \<Rightarrow> u32 list \<Rightarrow> u8 list \<times> bool" where
  "conv_codes flags to room [] = ([], False)"
| "conv_codes flags to room (wc # wcs) =
    (case conv_out flags to room wc of
       Put out \<Rightarrow> (let (rest, stop) = conv_codes flags to (room - int (length out)) wcs in (out @ rest, stop))
     | Next_char \<Rightarrow> ([], False)
     | Stop \<Rightarrow> ([], True))"

function conv_loop ::
    "u32 \<Rightarrow> (u8 list \<Rightarrow> decoded) \<Rightarrow> (int \<Rightarrow> u32 \<Rightarrow> encoded) \<Rightarrow> int \<Rightarrow> u8 list \<Rightarrow> u8 list" where
  "conv_loop flags from to room s =
    (if s = [] \<or> room \<le> 0 then []
     else
       (let (res, wcs) = from s; wcs = (if res > 0 then wcs else [0x3F]) in
        if res > 0 \<or> DPS_CHARSET_ILSEQ6 \<le> res \<and> res \<le> DPS_CHARSET_ILSEQ then
          (let (out, stop) = conv_codes flags to room wcs
           in if stop then out
              else out @ conv_loop flags from to (room - int (length out)) (drop (nat (abs res)) s))
        else []))"
  by pat_completeness auto
termination by (relation "measure (\<lambda>(flags, from, to, room, s). length s)") (auto simp: charset_defs)

declare conv_loop.simps [simp del]

text \<open>The number of bytes and what is written, with the NUL of the character set after it.\<close>

definition DpsConv ::
    "u32 \<Rightarrow> (u8 list \<Rightarrow> decoded) \<Rightarrow> (int \<Rightarrow> u32 \<Rightarrow> encoded) \<Rightarrow> nat \<Rightarrow> u8 list \<Rightarrow> nat \<times> u8 list" where
  "DpsConv flags from to dlen s =
    (let out = conv_loop flags from to (int dlen) s; room = int dlen - int (length out)
     in (length out, out @ (if room \<ge> 0 then snd (to room 0) else [])))"

section \<open>Reading back what was written\<close>

lemma bit_consts [simp]:
  "bit (0x80 :: int) n \<longleftrightarrow> n = 7" "bit (0xC0 :: int) n \<longleftrightarrow> n = 6 \<or> n = 7" "bit (0x3F :: int) n \<longleftrightarrow> n < 6"
proof -
  have "(0x80 :: int) = 2 ^ 7" "(0xC0 :: int) = 2 ^ 7 OR 2 ^ 6" "(0x3F :: int) = mask 6" by (simp_all add: mask_eq_exp_minus_1)
  then show "bit (0x80 :: int) n \<longleftrightarrow> n = 7" "bit (0xC0 :: int) n \<longleftrightarrow> n = 6 \<or> n = 7" "bit (0x3F :: int) n \<longleftrightarrow> n < 6"
    by (simp_all only: bit_exp_iff bit_or_iff bit_mask_iff) auto
qed

lemma cont_xor: "(ucast (cont x XOR 0x80) :: u32) = take_bit 6 x"
  unfolding cont_def by (rule bit_word_eqI) (auto simp: bit_simps)

lemma cont_and: "(ucast (cont x AND 0x3F) :: u32) = take_bit 6 x"
  unfolding cont_def by (rule bit_word_eqI) (auto simp: bit_simps)

lemma cont_test: "cont x AND 0xC0 = 0x80"
  unfolding cont_def by (rule bit_word_eqI) (auto simp: bit_simps)

lemma and_3F: "x AND 0x3F = (take_bit 6 x :: u32)"
  by (rule bit_word_eqI) (auto simp: bit_simps)

lemma take_less: "unat (take_bit 6 x :: u32) = unat x mod 64"
  by (simp add: take_bit_eq_mod unat_mod)

lemma word_enum: "x < n \<Longrightarrow> list_all (\<lambda>k. P (word_of_nat k)) [0..<unat n] \<Longrightarrow> P x" for x n :: u32
proof -
  assume "x < n" and *: "list_all (\<lambda>k. P (word_of_nat k)) [0..<unat n]"
  then have "unat x \<in> set [0..<unat n]" by (simp add: word_less_nat_alt)
  with * have "P (word_of_nat (unat x))" unfolding list_all_iff by (rule bspec)
  then show ?thesis by simp
qed

lemma cont_byte: "unat (cont x) = 128 + unat x mod 64 \<and> cont x XOR 0x80 < 0x40"
proof -
  have less: "take_bit 6 x < 0x40"
    by (simp add: word_less_nat_alt take_less)
  have "unat (ucast (0x80 OR take_bit 6 x) :: u8) = 128 + unat (take_bit 6 x) \<and> ucast (0x80 OR take_bit 6 x) XOR 0x80 < (0x40 :: u8)"
    by (rule word_enum [OF less]) code_simp
  then show ?thesis
    by (simp add: cont_def and_3F take_less)
qed

lemma cont_or: "k AND 0x3F = 0 \<Longrightarrow> cont (x OR k) = cont x"
  by (simp add: cont_def word_ao_dist)

lemma drop_mark:
  "drop_bit 6 (0x800 :: u32) = 0x20" "drop_bit 6 (0x10000 :: u32) = 0x400" "drop_bit 12 (0x10000 :: u32) = 0x10"
  "drop_bit 6 (0x200000 :: u32) = 0x8000" "drop_bit 12 (0x200000 :: u32) = 0x200" "drop_bit 18 (0x200000 :: u32) = 0x8"
  "drop_bit 6 (0x4000000 :: u32) = 0x100000" "drop_bit 12 (0x4000000 :: u32) = 0x4000" "drop_bit 18 (0x4000000 :: u32) = 0x100"
  "drop_bit 24 (0x4000000 :: u32) = 0x4"
  by code_simp+

lemma drop_6_mark: "drop_bit k (drop_bit 6 wc OR m) = drop_bit (k + 6) wc OR drop_bit k m" for wc m :: u32
  by (simp add: drop_bit_or)

lemmas fill_simps = utf8_mark_def drop_6_mark drop_mark or.assoc cont_or

lemma utf8_fill_step: "1 < n \<Longrightarrow> utf8_fill n wc = utf8_fill (n - 1) (drop_bit 6 wc OR utf8_mark n) @ [cont wc]"
  by (cases "(n, wc)" rule: utf8_fill.cases) auto

lemma utf8_fill_1: "utf8_fill 1 wc = [ucast wc]"
  by simp

lemma utf8_fill_2: "utf8_fill 2 wc = [ucast (drop_bit 6 wc OR 0xC0), cont wc]"
  by (simp add: utf8_fill_step utf8_fill_1 utf8_mark_def del: One_nat_def)

lemma utf8_fill_3: "utf8_fill 3 wc = [ucast (drop_bit 12 wc OR 0xE0), cont (drop_bit 6 wc), cont wc]"
  by (simp add: utf8_fill_step [of 3] utf8_fill_2 fill_simps)

lemma utf8_fill_4: "utf8_fill 4 wc = [ucast (drop_bit 18 wc OR 0xF0), cont (drop_bit 12 wc), cont (drop_bit 6 wc), cont wc]"
  by (simp add: utf8_fill_step [of 4] utf8_fill_3 fill_simps)

lemma utf8_fill_5: "utf8_fill 5 wc = [ucast (drop_bit 24 wc OR 0xF8), cont (drop_bit 18 wc), cont (drop_bit 12 wc), cont (drop_bit 6 wc), cont wc]"
  by (simp add: utf8_fill_step [of 5] utf8_fill_4 fill_simps)

lemma utf8_fill_6: "utf8_fill 6 wc = [ucast (drop_bit 30 wc OR 0xFC), cont (drop_bit 24 wc), cont (drop_bit 18 wc), cont (drop_bit 12 wc), cont (drop_bit 6 wc), cont wc]"
  by (simp add: utf8_fill_step [of 6] utf8_fill_5 fill_simps)

lemma unat_drop: "unat (drop_bit k x) = unat x div 2 ^ k" for x :: u32
  unfolding unat_drop_bit_eq by (rule drop_bit_eq_div)

lemma drop_less: "x < y \<Longrightarrow> unat y \<le> 2 ^ k * unat z \<Longrightarrow> drop_bit k x < z" for x y z :: u32
  by (simp add: word_less_nat_alt unat_drop less_mult_imp_div_less mult.commute)

lemma split_1: "push_bit 6 (drop_bit 6 x) OR take_bit 6 x = x" for x :: u32
  by (rule bit_word_eqI) (auto simp: bit_simps)

lemma split_step: "push_bit (k + 6) (drop_bit (k + 6) x) OR push_bit k (take_bit 6 (drop_bit k x)) = push_bit k (drop_bit k x)" for x :: u32
  using arg_cong [OF split_1 [of "drop_bit k x"], of "push_bit k"] by (simp add: push_bit_or add.commute)

lemma splits6:
  fixes x :: u32
  shows "push_bit 12 (drop_bit 12 x) OR push_bit 6 (take_bit 6 (drop_bit 6 x)) = push_bit 6 (drop_bit 6 x)"
    and "push_bit 18 (drop_bit 18 x) OR push_bit 12 (take_bit 6 (drop_bit 12 x)) = push_bit 12 (drop_bit 12 x)"
    and "push_bit 24 (drop_bit 24 x) OR push_bit 18 (take_bit 6 (drop_bit 18 x)) = push_bit 18 (drop_bit 18 x)"
    and "push_bit 30 (drop_bit 30 x) OR push_bit 24 (take_bit 6 (drop_bit 24 x)) = push_bit 24 (drop_bit 24 x)"
  using split_step [of 6 x] split_step [of 12 x] split_step [of 18 x] split_step [of 24 x] by simp_all

text \<open>The lead byte, for every value of the bits it carries.\<close>

lemma lead_2: "y < 0x20 \<Longrightarrow> 2 \<le> y \<longrightarrow> (let c = ucast (y OR 0xC0) :: u8 in
    \<not> c < 0x80 \<and> \<not> c < 0xC2 \<and> c AND 0xE0 = 0xC0 \<and> ucast (c AND 0x1F) = y)" for y :: u32
  by (erule word_enum) code_simp

lemma lead_3: "y < 0x10 \<Longrightarrow> (let c = ucast (y OR 0xE0) :: u8 in
    \<not> c < 0x80 \<and> \<not> c < 0xC2 \<and> c AND 0xE0 \<noteq> 0xC0 \<and> c AND 0xF0 = 0xE0 \<and> ucast (c AND 0x0F) = y)" for y :: u32
  by (erule word_enum) code_simp

lemma lead_4: "y < 8 \<Longrightarrow> (let c = ucast (y OR 0xF0) :: u8 in
    \<not> c < 0x80 \<and> \<not> c < 0xC2 \<and> c AND 0xE0 \<noteq> 0xC0 \<and> c AND 0xF0 \<noteq> 0xE0 \<and> c < 0xF8 \<and> (y \<noteq> 0 \<longrightarrow> 0xF1 \<le> c) \<and>
    ucast (c AND 0x07) = y)" for y :: u32
  by (erule word_enum) code_simp

lemma lead_5: "y < 4 \<Longrightarrow> (let c = ucast (y OR 0xF8) :: u8 in
    \<not> c < 0x80 \<and> \<not> c < 0xC2 \<and> c AND 0xE0 \<noteq> 0xC0 \<and> c AND 0xF0 \<noteq> 0xE0 \<and> \<not> c < 0xF8 \<and> c < 0xFC \<and>
    (y \<noteq> 0 \<longrightarrow> 0xF9 \<le> c) \<and> ucast (c AND 0x03) = y)" for y :: u32
  by (erule word_enum) code_simp

lemma lead_6: "y < 2 \<Longrightarrow> (let c = ucast (y OR 0xFC) :: u8 in
    \<not> c < 0x80 \<and> \<not> c < 0xC2 \<and> c AND 0xE0 \<noteq> 0xC0 \<and> c AND 0xF0 \<noteq> 0xE0 \<and> \<not> c < 0xF8 \<and> \<not> c < 0xFC \<and> c < 0xFE \<and>
    (y \<noteq> 0 \<longrightarrow> 0xFD \<le> c) \<and> ucast (c AND 0x01) = y)" for y :: u32
  by (erule word_enum) code_simp

text \<open>Without a bit in the lead byte, the first continuation byte shows that the form is not too long.\<close>

lemma second_byte:
  assumes "drop_bit (k + 6) x = 0" and "2 ^ j * 2 ^ k \<le> unat x"
  shows "word_of_nat (0x80 + 2 ^ j) \<le> cont (drop_bit k x)"
proof -
  have "unat x div 2 ^ (k + 6) = 0" using assms(1) unat_drop [of "k + 6" x] by simp
  then have "unat x < 2 ^ (k + 6)" by (simp add: div_eq_0_iff)
  then have "unat x div 2 ^ k < 64" by (simp add: power_add less_mult_imp_div_less mult.commute)
  moreover have "2 ^ j \<le> unat x div 2 ^ k" using assms(2) by (simp add: less_eq_div_iff_mult_less_eq)
  ultimately have "0x80 + 2 ^ j \<le> unat (cont (drop_bit k x))" by (simp add: cont_byte unat_drop)
  then show ?thesis by (simp only: word_le_nat_alt unat_of_nat) (meson le_trans mod_less_eq_dividend)
qed

lemmas decode_simps = dps_mb_wc_utf8_def byte_at_def Let_def cont_test cont_and cont_xor cont_byte or.assoc [symmetric] splits6 split_1

lemma decode_fill_2:
  assumes "0x80 \<le> wc" and "wc < 0x800"
  shows "dps_mb_wc_utf8 entity junk flags (utf8_fill 2 wc @ rest) = (2, [wc])"
proof -
  have "drop_bit 6 wc < 0x20" by (rule drop_less [OF assms(2)]) simp
  note lead = lead_2 [OF this]
  moreover have "2 \<le> drop_bit 6 wc" using assms(1) by (simp add: word_le_nat_alt unat_drop)
  ultimately show ?thesis
    by (simp add: utf8_fill_2 decode_simps del: not_less)
qed

lemma decode_fill_3:
  assumes "0x800 \<le> wc" and "wc < 0x10000"
  shows "dps_mb_wc_utf8 entity junk flags (utf8_fill 3 wc @ rest) = (3, [wc])"
proof -
  have "drop_bit 12 wc < 0x10" by (rule drop_less [OF assms(2)]) simp
  note lead = lead_3 [OF this]
  then show ?thesis
    by (simp add: utf8_fill_3 decode_simps del: not_less)
qed

lemma decode_fill_4:
  assumes "0x10000 \<le> wc" and "wc < 0x200000"
  shows "dps_mb_wc_utf8 entity junk flags (utf8_fill 4 wc @ rest) = (4, [wc])"
proof -
  have "drop_bit 18 wc < 8" by (rule drop_less [OF assms(2)]) simp
  note lead = lead_4 [OF this]
  have "drop_bit 18 wc = 0 \<longrightarrow> 0x90 \<le> cont (drop_bit 12 wc)"
    using second_byte [of 12 wc 4] assms(1) by (simp add: word_le_nat_alt)
  with lead have "0xF1 \<le> (ucast (drop_bit 18 wc OR 0xF0) :: u8) \<or> 0x90 \<le> cont (drop_bit 12 wc)"
    unfolding Let_def by blast
  with lead show ?thesis
    by (simp add: utf8_fill_4 decode_simps del: not_less)
qed

lemma decode_fill_5:
  assumes "0x200000 \<le> wc" and "wc < 0x4000000"
  shows "dps_mb_wc_utf8 entity junk flags (utf8_fill 5 wc @ rest) = (5, [wc])"
proof -
  have "drop_bit 24 wc < 4" by (rule drop_less [OF assms(2)]) simp
  note lead = lead_5 [OF this]
  have "drop_bit 24 wc = 0 \<longrightarrow> 0x88 \<le> cont (drop_bit 18 wc)"
    using second_byte [of 18 wc 3] assms(1) by (simp add: word_le_nat_alt)
  with lead have "0xF9 \<le> (ucast (drop_bit 24 wc OR 0xF8) :: u8) \<or> 0x88 \<le> cont (drop_bit 18 wc)"
    unfolding Let_def by blast
  with lead show ?thesis
    by (simp add: utf8_fill_5 decode_simps del: not_less)
qed

lemma decode_fill_6:
  assumes "0x4000000 \<le> wc" and "wc < 0x80000000"
  shows "dps_mb_wc_utf8 entity junk flags (utf8_fill 6 wc @ rest) = (6, [wc])"
proof -
  have "drop_bit 30 wc < 2" by (rule drop_less [OF assms(2)]) simp
  note lead = lead_6 [OF this]
  have "drop_bit 30 wc = 0 \<longrightarrow> 0x84 \<le> cont (drop_bit 24 wc)"
    using second_byte [of 24 wc 2] assms(1) by (simp add: word_le_nat_alt)
  with lead have "0xFD \<le> (ucast (drop_bit 30 wc OR 0xFC) :: u8) \<or> 0x84 \<le> cont (drop_bit 24 wc)"
    unfolding Let_def by blast
  with lead show ?thesis
    by (simp add: utf8_fill_6 decode_simps del: not_less)
qed


lemma utf8_read_back:
  assumes "dps_wc_mb_utf8 f esc room wc = (n, out)" and "0 < n" and "0x80 \<le> wc \<or> g = 0"
  shows "dps_mb_wc_utf8 entity junk g (out @ rest) = (n, [wc])"
proof (cases "wc < 0x80")
  case True
  then have "out = [ucast wc]" "n = 1" using assms(1,2)
    by (auto simp: dps_wc_mb_utf8_def charset_defs split: if_splits)
  moreover have "(ucast wc :: u8) < 0x80 \<and> (ucast (ucast wc :: u8) :: u32) = wc"
    using True by (rule word_enum) code_simp
  ultimately show ?thesis using assms(3) True
    by (auto simp: dps_mb_wc_utf8_def utf8_ascii_def byte_at_def Let_def)
next
  case False
  then have "0x80 \<le> wc" by simp
  moreover have "wc \<le> 0x7FFFFFFF \<Longrightarrow> wc < 0x80000000" by (simp add: word_le_nat_alt word_less_nat_alt)
  ultimately show ?thesis using assms(1,2) 
    decode_fill_2 [of wc] decode_fill_3 [of wc] decode_fill_4 [of wc] decode_fill_5 [of wc] decode_fill_6 [of wc]
    by (auto simp: dps_wc_mb_utf8_def charset_defs Let_def not_less split: if_splits)
qed

lemma or_plus: "x AND y = 0 \<Longrightarrow> x + y = x OR y" for x y :: u32
  by (metis word_plus_and_or add_0)

lemma byte_mask: "bit (0xFF :: int) n \<longleftrightarrow> n < 8"
proof -
  have "(0xFF :: int) = mask 8" by (simp add: mask_eq_exp_minus_1)
  then show ?thesis by (simp only: bit_mask_iff) auto
qed

lemma take_16: "take_bit 16 c = c \<longleftrightarrow> c < 0x10000" for c :: u32
proof -
  have "take_bit 16 c = c \<longleftrightarrow> unat c mod 65536 = unat c"
    by (simp add: word_unat_eq_iff take_bit_eq_mod unat_mod)
  also have "\<dots> \<longleftrightarrow> unat c < 65536" using mod_less_divisor [of 65536 "unat c"] by auto
  finally show ?thesis by (simp add: word_less_nat_alt)
qed

lemma unit_at_bytes: "c < 0x10000 \<Longrightarrow> unit_at be (unit_bytes be c @ rest) 0 = c"
proof -
  assume "c < 0x10000"
  then have "take_bit 16 c = c" by (simp only: take_16)
  then have high: "bit c n \<Longrightarrow> n < 16" for n by (metis bit_take_bit_iff)
  have "push_bit 8 (ucast (ucast (drop_bit 8 c) :: u8)) AND (ucast (ucast (c AND 0xFF) :: u8)) = (0 :: u32)"
    by (rule bit_word_eqI) (auto simp: bit_simps byte_mask)
  then have "push_bit 8 (ucast (ucast (drop_bit 8 c) :: u8)) + ucast (ucast (c AND 0xFF) :: u8) =
     (push_bit 8 (ucast (ucast (drop_bit 8 c) :: u8)) OR ucast (ucast (c AND 0xFF) :: u8) :: u32)" by (rule or_plus)
  also have "\<dots> = c" 
    by (rule bit_word_eqI) (auto simp: bit_simps byte_mask dest: high)
  finally show ?thesis by (simp add: unit_at_def unit_bytes_def byte_at_def)
qed

lemma unit_bytes_length [simp]: "length (unit_bytes be c) = 2"
  by (simp add: unit_bytes_def)

lemma unit_at_2: "unit_at be (unit_bytes be a @ s) 2 = unit_at be s 0"
  by (simp add: unit_at_def unit_bytes_def byte_at_def)

lemma high_surrogate: "y < 0x11 \<Longrightarrow> 1 \<le> y \<longrightarrow> (let c = 0xD800 + push_bit 6 (y - 1) :: u32
   in c < 0x10000 \<and> c AND 0xFC00 = 0xD800 \<and> push_bit 10 (c AND 0x3FF) + 0x10000 = push_bit 16 y)"
  by (erule word_enum) code_simp

lemma bit_surrogate: "bit (0xDC00 :: int) n \<longleftrightarrow> n \<in> {10,11,12,14,15}" "bit (0xFC00 :: int) n \<longleftrightarrow> n \<in> {10..<16}" "bit (0x3FF :: int) n \<longleftrightarrow> n < 10"
proof -
  have "(0xFC00 :: int) = push_bit 10 (mask 6)" "(0x3FF :: int) = mask 10"
    "(0xDC00 :: int) = 2 ^ 10 OR 2 ^ 11 OR 2 ^ 12 OR 2 ^ 14 OR 2 ^ 15" by (simp_all add: mask_eq_exp_minus_1 push_bit_eq_mult)
  then show "bit (0xDC00 :: int) n \<longleftrightarrow> n \<in> {10,11,12,14,15}" "bit (0xFC00 :: int) n \<longleftrightarrow> n \<in> {10..<16}" "bit (0x3FF :: int) n \<longleftrightarrow> n < 10"
    by (simp_all only: bit_exp_iff bit_or_iff bit_push_bit_iff bit_mask_iff) auto
qed

lemma low_surrogate: "let c = 0xDC00 + (x AND 0x3FF) in c < 0x10000 \<and> c AND 0xFC00 = 0xDC00 \<and> c AND 0x3FF = x AND 0x3FF" for x :: u32
proof -
  have "0xDC00 AND (x AND 0x3FF) = 0" by (rule bit_word_eqI) (auto simp: bit_simps bit_surrogate)
  then have *: "0xDC00 + (x AND 0x3FF) = 0xDC00 OR (x AND 0x3FF)" by (rule or_plus)
  have "(0xDC00 OR (x AND 0x3FF)) AND 0xFC00 = 0xDC00" by (rule bit_word_eqI) (auto simp: bit_simps bit_surrogate)
  moreover have "(0xDC00 OR (x AND 0x3FF)) AND 0x3FF = x AND 0x3FF" by (rule bit_word_eqI) (auto simp: bit_simps bit_surrogate)
  moreover have "take_bit 16 (0xDC00 OR (x AND 0x3FF)) = 0xDC00 OR (x AND 0x3FF)"
     by (rule bit_word_eqI) (auto simp: bit_simps bit_surrogate)
  ultimately show ?thesis unfolding Let_def * by (simp only: take_16)
qed

lemma split_16: "wc AND 0xFC00 = 0 \<Longrightarrow> push_bit 16 (drop_bit 16 wc) + (wc AND 0x3FF) = wc" for wc :: u32
proof -
  assume *: "wc AND 0xFC00 = 0"
  have mid: "16 \<le> n" if "bit wc n" "10 \<le> n" for n
  proof (rule ccontr)
    assume "\<not> 16 \<le> n"
    moreover have "\<not> bit (wc AND 0xFC00) n" unfolding * by simp
    ultimately show False using that by (simp add: bit_and_iff bit_simps bit_surrogate)
  qed
  have "push_bit 16 (drop_bit 16 wc) AND (wc AND 0x3FF) = 0" by (rule bit_word_eqI) (auto simp: bit_simps bit_surrogate)
  then have "push_bit 16 (drop_bit 16 wc) + (wc AND 0x3FF) = push_bit 16 (drop_bit 16 wc) OR (wc AND 0x3FF)" by (rule or_plus)
  also have "\<dots> = wc" by (rule bit_word_eqI) (auto simp: bit_simps bit_surrogate not_less, (metis le_add_diff_inverse mid)+)
  finally show ?thesis .
qed

definition utf16_char :: "u32 \<Rightarrow> bool" where
  "utf16_char wc \<longleftrightarrow> wc < 0x10000 \<and> wc AND 0xFC00 \<noteq> 0xD800 \<or> 0x10000 \<le> wc \<and> wc < 0x110000 \<and> wc AND 0xFC00 = 0"

lemma utf16_read_back:
  assumes "utf16_encode be room wc = (n, out)" and "0 < n" and "utf16_char wc"
  shows "utf16_decode be (out @ rest) = (n, [wc])"
proof (cases "wc < 0x10000")
  case True
  then show ?thesis using assms
    by (auto simp: utf16_encode_def utf16_decode_def utf16_char_def unit_at_bytes charset_defs split: if_splits)
next
  case False
  then have "0x10000 \<le> wc" "wc < 0x110000" "wc AND 0xFC00 = 0" using assms(3) by (auto simp: utf16_char_def)
  have "drop_bit 16 wc < 0x11" by (rule drop_less [OF \<open>wc < 0x110000\<close>]) simp
  moreover have "1 \<le> drop_bit 16 wc" using \<open>0x10000 \<le> wc\<close> by (simp add: word_le_nat_alt unat_drop)
  moreover have "wc < 0x200000" using \<open>wc < 0x110000\<close> by (simp add: word_less_nat_alt)
  ultimately show ?thesis using assms False high_surrogate [of "drop_bit 16 wc"] low_surrogate [of wc] split_16 [OF \<open>wc AND 0xFC00 = 0\<close>]
    unfolding utf16_encode_def
    by (auto simp: utf16_decode_def Let_def unit_at_bytes unit_at_2 charset_defs \<open>wc AND 0xFC00 = 0\<close> split: if_splits)
qed

section \<open>Whole texts\<close>

text \<open>The bytes of one code point, when there is room.\<close>

definition code_bytes :: "(int \<Rightarrow> u32 \<Rightarrow> encoded) \<Rightarrow> u32 \<Rightarrow> u8 list" where
  "code_bytes enc wc = snd (enc 6 wc)"

locale codec =
  fixes dec :: "u8 list \<Rightarrow> decoded" and enc :: "int \<Rightarrow> u32 \<Rightarrow> encoded" and valid :: "u32 \<Rightarrow> bool"
  assumes nonempty: "valid wc \<Longrightarrow> code_bytes enc wc \<noteq> []"
    and written: "valid wc \<Longrightarrow> int (length (code_bytes enc wc)) \<le> room \<Longrightarrow>
      enc room wc = (int (length (code_bytes enc wc)), code_bytes enc wc)"
    and read_back: "valid wc \<Longrightarrow> dec (code_bytes enc wc @ rest) = (int (length (code_bytes enc wc)), [wc])"

locale conversion = src: codec dec enc0 valid0 + dst: codec dec0 enc valid
  for dec enc0 valid0 dec0 enc valid
begin

lemma text_converted:
  "\<forall>wc\<in>set wcs. valid0 wc \<and> valid wc \<and> wc \<noteq> 0 \<Longrightarrow> int (length (concat (map (code_bytes enc) wcs))) \<le> room \<Longrightarrow>
   conv_loop flags dec enc room (concat (map (code_bytes enc0) wcs)) = concat (map (code_bytes enc) wcs)"
proof (induction wcs arbitrary: room)
  case Nil
  then show ?case by (simp add: conv_loop.simps)
next
  case (Cons wc wcs)
  then have valid: "valid0 wc" "valid wc" "wc \<noteq> 0" by auto
  have len: "0 < length (code_bytes enc wc)" "int (length (code_bytes enc wc)) \<le> room"
    using Cons.prems(2) dst.nonempty [OF valid(2)] by auto
  have "conv_codes flags enc room [wc] = (code_bytes enc wc, False)"
    using valid len by (simp add: conv_out_def dst.written)
  moreover have "conv_loop flags dec enc (room - int (length (code_bytes enc wc))) (concat (map (code_bytes enc0) wcs)) = concat (map (code_bytes enc) wcs)"
    using Cons by simp
  ultimately show ?case
    using len src.nonempty [OF valid(1)] order_less_le_trans [of 0 "int (length (code_bytes enc wc))" room]
    by (subst conv_loop.simps) (simp add: src.read_back [OF valid(1)] del: conv_codes.simps)
qed

lemma conversion_exact:
  assumes "\<forall>wc\<in>set wcs. valid0 wc \<and> valid wc \<and> wc \<noteq> 0" and "length (concat (map (code_bytes enc) wcs)) \<le> dlen"
  shows "DpsConv flags dec enc dlen (concat (map (code_bytes enc0) wcs)) =
    (length (concat (map (code_bytes enc) wcs)),
     concat (map (code_bytes enc) wcs) @ snd (enc (int dlen - int (length (concat (map (code_bytes enc) wcs)))) 0))"
  using assms(2) text_converted [OF assms(1), of "int dlen" flags] by (simp add: DpsConv_def Let_def)

end

lemma entity_digits_length: "length (entity_digits_loop k lead n) \<le> Suc k"
  by (induction k lead n rule: entity_digits_loop.induct) (auto simp: Let_def intro: le_SucI)

lemma escapes_fit: "length (dps_ENTITYprint c n) \<le> 11" "length (dps_JSONprint n) \<le> 6"
  using entity_digits_length [of 7 False "unat n"] by (auto simp: dps_ENTITYprint_def dps_JSONprint_def)

text \<open>
  A decoder gives at most \<open>1 + more\<close> code points at a time; an encoder writes at most \<open>slack\<close> bytes,
  one or none, that it does not check the room for.
\<close>

locale bounded_conversion =
  fixes mb_wc :: "u8 list \<Rightarrow> decoded" and wc_mb :: "int \<Rightarrow> u32 \<Rightarrow> encoded" and more slack :: nat
  assumes codes: "length (snd (mb_wc s)) \<le> 1 + more"
    and fits: "wc_mb room wc = (n, out) \<Longrightarrow> 0 < n \<Longrightarrow> int (length out) \<le> max (int slack) room"
    and slack: "slack \<le> 1"
begin

lemma conv_out_fits: "conv_out flags wc_mb room wc = Put out \<Longrightarrow> int (length out) \<le> max (int slack) room"
  using escapes_fit(1) [of "CHR ''&''" "wc AND 0xFFFFFF"] escapes_fit(1) [of "CHR ''!''" "wc AND 0xFFFFFF"] escapes_fit(2) [of "wc AND 0xFFFF"]
  by (auto simp: conv_out_def chars_bytes_def split: if_splits prod.splits dest: fits intro: order_trans)

lemma conv_codes_room: "int (length (fst (conv_codes flags wc_mb room wcs))) \<le> max 0 room + int (slack * length wcs)"
proof (induction wcs arbitrary: room)
  case (Cons wc wcs)
  show ?case
  proof (cases "conv_out flags wc_mb room wc")
    case (Put out)
    have "int (length (fst (conv_codes flags wc_mb room (wc # wcs)))) =
        int (length out) + int (length (fst (conv_codes flags wc_mb (room - int (length out)) wcs)))"
      by (simp add: Put case_prod_unfold Let_def)
    also have "\<dots> \<le> int (length out) + max 0 (room - int (length out)) + int (slack * length wcs)"
      using Cons.IH [of "room - int (length out)"] by simp
    also have "int (length out) + max 0 (room - int (length out)) \<le> max 0 room + int slack"
      using conv_out_fits [OF Put] by linarith
    finally show ?thesis by simp
  qed simp_all
qed simp

lemma conv_codes_fits:
  assumes "0 < room" "length wcs \<le> 1 + more"
  shows "int (length (fst (conv_codes flags wc_mb room wcs))) \<le> room + int (slack * more)"
proof (cases wcs)
  case (Cons wc wcs')
  show ?thesis
  proof (cases "conv_out flags wc_mb room wc")
    case (Put out)
    then have out: "int (length out) \<le> room" using conv_out_fits [OF Put] slack assms(1) by linarith
    have "slack * length wcs' \<le> slack * more" using assms(2) Cons by simp
    then have "int (slack * length wcs') \<le> int (slack * more)" by (simp only: of_nat_le_iff)
    then show ?thesis
      using conv_codes_room [of flags "room - int (length out)" wcs'] out by (simp add: Cons Put case_prod_unfold Let_def)
  qed (use assms in \<open>simp_all add: Cons\<close>)
qed (use assms in simp)

lemma conv_loop_fits: "0 \<le> room \<Longrightarrow> int (length (conv_loop flags mb_wc wc_mb room s)) \<le> room + int (slack * more)"
proof (induction "length s" arbitrary: s room rule: less_induct)
  case less
  obtain res wcs where dec: "mb_wc s = (res, wcs)" by (cases "mb_wc s") auto
  define codes' where "codes' = (if res > 0 then wcs else [0x3F])"
  obtain out stop where out: "conv_codes flags wc_mb room codes' = (out, stop)" by (cases "conv_codes flags wc_mb room codes'") auto
  show ?case
  proof (cases "s = [] \<or> room \<le> 0")
    case True
    then show ?thesis using less by (simp add: conv_loop.simps)
  next
    case False
    have "length codes' \<le> 1 + more" using codes [of s] by (simp add: codes'_def dec)
    then have o: "int (length out) \<le> room + int (slack * more)" using conv_codes_fits [of room codes' flags] False out by simp
    have "int (length (conv_loop flags mb_wc wc_mb (room - int (length out)) (drop (nat \<bar>res\<bar>) s))) \<le> room - int (length out) + int (slack * more)"
      if "res \<noteq> 0"
    proof (cases "room < int (length out)")
      case True
      then show ?thesis using o by (simp add: conv_loop.simps)
    next
      case inside: False
      show ?thesis using that False inside by (intro less) auto
    qed
    with o show ?thesis
      using False dec out less.prems by (subst conv_loop.simps) (auto simp: codes'_def charset_defs)
  qed
qed

lemma conversion_fits: "fst (DpsConv flags mb_wc wc_mb dlen s) \<le> dlen + slack * more"
  using conv_loop_fits [of "int dlen" flags s]
  by (simp add: DpsConv_def Let_def flip: of_nat_add of_nat_mult)

end

lemma utf8_fill_length: "length (utf8_fill n wc) = n"
  by (induction n wc rule: utf8_fill.induct) auto

section \<open>The character sets\<close>

interpretation utf8: codec "dps_mb_wc_utf8 entity junk 0" "dps_wc_mb_utf8 f esc" "\<lambda>wc. wc \<le> 0x7FFFFFFF \<and> (0x80 \<le> wc \<or> f = 0)" for entity junk f esc
proof
  fix wc :: u32 and rest room
  assume valid: "wc \<le> 0x7FFFFFFF \<and> (0x80 \<le> wc \<or> f = 0)"
  let ?n = "if wc < 0x80 then 1 else if wc < 0x800 then 2 else if wc < 0x10000 then 3 else if wc < 0x200000 then 4
                     else if wc < 0x4000000 then 5 else (6 :: nat)"
  have enc: "dps_wc_mb_utf8 f esc room wc = (int ?n, utf8_fill ?n wc)" if "int ?n \<le> room" for room
    using valid that unfolding dps_wc_mb_utf8_def Let_def by (auto split: if_splits)
  have bytes: "code_bytes (dps_wc_mb_utf8 f esc) wc = utf8_fill ?n wc"
    unfolding code_bytes_def by (subst enc) auto
  show "code_bytes (dps_wc_mb_utf8 f esc) wc \<noteq> []"
    unfolding bytes using utf8_fill_length [of ?n wc] by (auto split: if_splits)
  show "int (length (code_bytes (dps_wc_mb_utf8 f esc) wc)) \<le> room \<Longrightarrow>
       dps_wc_mb_utf8 f esc room wc = (int (length (code_bytes (dps_wc_mb_utf8 f esc) wc)), code_bytes (dps_wc_mb_utf8 f esc) wc)"
    unfolding bytes utf8_fill_length by (rule enc)
  show "dps_mb_wc_utf8 entity junk 0 (code_bytes (dps_wc_mb_utf8 f esc) wc @ rest) = (int (length (code_bytes (dps_wc_mb_utf8 f esc) wc)), [wc])"
    unfolding bytes utf8_fill_length by (rule utf8_read_back [OF enc [of 6]]) auto
qed

lemma utf16_codec:
  assumes "utf16_char wc"
  shows "code_bytes (utf16_encode be) wc \<noteq> []"
    and "int (length (code_bytes (utf16_encode be) wc)) \<le> room \<Longrightarrow>
      utf16_encode be room wc = (int (length (code_bytes (utf16_encode be) wc)), code_bytes (utf16_encode be) wc)"
    and "utf16_decode be (code_bytes (utf16_encode be) wc @ rest) = (int (length (code_bytes (utf16_encode be) wc)), [wc])"
    and "1 < length (code_bytes (utf16_encode be) wc)"
proof -
  have "wc < 0x200000" using assms by (auto simp: utf16_char_def word_less_nat_alt)
  then have enc: "utf16_encode be room wc = (int (length (code_bytes (utf16_encode be) wc)), code_bytes (utf16_encode be) wc)"
    if "int (length (code_bytes (utf16_encode be) wc)) \<le> room" for room
    using that by (auto simp: utf16_encode_def code_bytes_def Let_def)
  show len: "1 < length (code_bytes (utf16_encode be) wc)"
    using \<open>wc < 0x200000\<close> by (auto simp: utf16_encode_def code_bytes_def Let_def)
  then show ne: "code_bytes (utf16_encode be) wc \<noteq> []" by auto
  show "int (length (code_bytes (utf16_encode be) wc)) \<le> room \<Longrightarrow>
      utf16_encode be room wc = (int (length (code_bytes (utf16_encode be) wc)), code_bytes (utf16_encode be) wc)" by (rule enc)
  show "utf16_decode be (code_bytes (utf16_encode be) wc @ rest) = (int (length (code_bytes (utf16_encode be) wc)), [wc])"
    using utf16_read_back [OF enc, of "int (length (code_bytes (utf16_encode be) wc))"] ne assms by simp
qed

interpretation utf16le: codec dps_mb_wc_utf16le dps_wc_mb_utf16le utf16_char
  unfolding dps_mb_wc_utf16le_def dps_wc_mb_utf16le_def
  by unfold_locales (use utf16_codec [of _ False] in \<open>auto simp: not_le trans_less_add1\<close>)

interpretation utf16be: codec dps_mb_wc_utf16be dps_wc_mb_utf16be utf16_char
  unfolding dps_mb_wc_utf16be_def dps_wc_mb_utf16be_def
  by unfold_locales (use utf16_codec [of _ True] in \<open>auto simp: not_le trans_less_add1\<close>)


interpretation utf8_utf16be: conversion "dps_mb_wc_utf8 entity junk 0" "dps_wc_mb_utf8 0 []" "\<lambda>wc. wc \<le> 0x7FFFFFFF \<and> (0x80 \<le> wc \<or> (0 :: u32) = 0)"
  dps_mb_wc_utf16be dps_wc_mb_utf16be utf16_char for entity junk ..

interpretation utf16be_utf8: conversion dps_mb_wc_utf16be dps_wc_mb_utf16be utf16_char
  "dps_mb_wc_utf8 entity junk 0" "dps_wc_mb_utf8 0 []" "\<lambda>wc. wc \<le> 0x7FFFFFFF \<and> (0x80 \<le> wc \<or> (0 :: u32) = 0)" for entity junk ..

lemma utf16_one_code: "length (snd (utf16_decode be s)) \<le> 1"
  by (simp add: utf16_decode_def Let_def)

lemma utf8_fits: "dps_wc_mb_utf8 f esc room wc = (n, out) \<Longrightarrow> 0 < n \<Longrightarrow> int (length out) \<le> max 1 room"
  by (auto simp: dps_wc_mb_utf8_def Let_def charset_defs utf8_fill_length split: if_splits)

lemma utf16_fits: "utf16_encode be room wc = (n, out) \<Longrightarrow> 0 < n \<Longrightarrow> int (length out) \<le> max 0 room"
  by (auto simp: utf16_encode_def Let_def charset_defs split: if_splits)

text \<open>Only an entity has two code points.\<close>

definition entity_flags :: "u32 \<Rightarrow> bool" where
  "entity_flags flags \<longleftrightarrow> has_flag flags DPS_RECODE_HTML_FROM \<or> has_flag flags DPS_RECODE_URL_FROM"

lemma utf8_entity_codes: "utf8_entity entity junk flags s = Some (n, wcs) \<Longrightarrow> length wcs \<le> 2"
  by (auto simp: utf8_entity_def DpsSgmlToUni_def Let_def split: if_splits option.splits)

lemma utf8_codes: "length (snd (dps_mb_wc_utf8 entity junk flags s)) \<le> 1 + of_bool (entity_flags flags)"
proof (cases "byte_at s 0 < 0x80")
  case True
  have "length (snd (utf8_ascii entity junk flags s)) \<le> 1 + of_bool (entity_flags flags)"
    using utf8_entity_codes [of entity junk flags s]
    by (cases "utf8_entity entity junk flags s") (auto simp: utf8_ascii_def entity_flags_def Let_def split: option.splits)
  with True show ?thesis by (simp add: dps_mb_wc_utf8_def Let_def)
qed (simp add: dps_mb_wc_utf8_def Let_def)

lemma utf16_codes: "length (snd (dps_mb_wc_utf16le s)) \<le> 1" "length (snd (dps_mb_wc_utf16be s)) \<le> 1"
  using utf16_one_code [of False s] utf16_one_code [of True s] by (simp_all add: dps_mb_wc_utf16le_def dps_mb_wc_utf16be_def)

interpretation utf8_to_utf8: bounded_conversion "dps_mb_wc_utf8 entity junk g" "dps_wc_mb_utf8 f esc" "of_bool (entity_flags g)" 1
  for entity junk g f esc
  by unfold_locales (use utf8_codes utf8_fits in auto)

interpretation utf8_to_utf16le: bounded_conversion "dps_mb_wc_utf8 entity junk g" dps_wc_mb_utf16le "of_bool (entity_flags g)" 0
  for entity junk g
  by unfold_locales (use utf8_codes utf16_fits in \<open>auto simp: dps_wc_mb_utf16le_def\<close>)

interpretation utf8_to_utf16be: bounded_conversion "dps_mb_wc_utf8 entity junk g" dps_wc_mb_utf16be "of_bool (entity_flags g)" 0
  for entity junk g
  by unfold_locales (use utf8_codes utf16_fits in \<open>auto simp: dps_wc_mb_utf16be_def\<close>)

interpretation utf16le_to_utf8: bounded_conversion dps_mb_wc_utf16le "dps_wc_mb_utf8 f esc" 0 1 for f esc
  by unfold_locales (use utf16_codes utf8_fits in auto)

interpretation utf16be_to_utf8: bounded_conversion dps_mb_wc_utf16be "dps_wc_mb_utf8 f esc" 0 1 for f esc
  by unfold_locales (use utf16_codes utf8_fits in auto)

section \<open>Numeric entities\<close>

lemma base_digit_chr: "d < 10 \<Longrightarrow> base_digit (chr (d + 0x30)) = Some d"
  by (simp add: base_digit_def c_isdigit_def)

lemma base_number_digits_loop:
  "n < 10 ^ Suc k \<Longrightarrow> lead \<or> acc = 0 \<Longrightarrow>
   base_number 10 acc (entity_digits_loop k lead n @ CHR '';'' # r) = acc * 10 ^ Suc k + int n"
proof (induction k arbitrary: lead n acc)
  case 0
  then show ?case using base_digit_chr [of n] by (auto simp: base_digit_def c_isdigit_def ctype_defs)
next
  case (Suc k)
  define dig where "dig = n div 10 ^ Suc k"
  have dig: "dig < 10" using Suc.prems(1) by (simp add: dig_def less_mult_imp_div_less mult.commute)
  have rest: "n - dig * 10 ^ Suc k = n mod 10 ^ Suc k" by (simp add: dig_def modulo_nat_def mult.commute)
  have less: "n mod 10 ^ Suc k < 10 ^ Suc k" by simp
  have n: "int n = int dig * 10 ^ Suc k + int (n mod 10 ^ Suc k)"
  proof -
    have "n = dig * 10 ^ Suc k + n mod 10 ^ Suc k" unfolding dig_def by (rule div_mult_mod_eq [symmetric])
    then have "int n = int (dig * 10 ^ Suc k + n mod 10 ^ Suc k)" by (rule arg_cong)
    then show ?thesis by (simp only: of_nat_add of_nat_mult of_nat_power of_nat_numeral)
  qed
  show ?case
  proof (cases "dig > 0 \<or> lead")
    case True
    then have "entity_digits_loop (Suc k) lead n = chr (dig + 0x30) # entity_digits_loop k True (n mod 10 ^ Suc k)"
      using rest by (simp add: dig_def [symmetric] Let_def del: power_Suc)
    then have "base_number 10 acc (entity_digits_loop (Suc k) lead n @ CHR '';'' # r) = (acc * 10 + int dig) * 10 ^ Suc k + int (n mod 10 ^ Suc k)"
      using Suc.IH [OF less, of True "acc * 10 + int dig"] base_digit_chr [OF dig] dig by (simp del: power_Suc entity_digits_loop.simps)
    also have "\<dots> = acc * 10 ^ Suc (Suc k) + int n"
      unfolding n power_Suc [of _ "Suc k"] by (simp only: ring_distribs ac_simps)
    finally show ?thesis .
  next
    case False
    then show ?thesis
      using Suc.IH [OF less, of False 0] Suc.prems(2) n rest by (simp add: dig_def [symmetric] Let_def del: power_Suc)
  qed
qed

lemma digits_loop_digits: "n < 10 ^ Suc k \<Longrightarrow> list_all c_isdigit (entity_digits_loop k lead n)"
proof (induction k arbitrary: lead n)
  case 0
  then show ?case by (auto simp: c_isdigit_def)
next
  case (Suc k)
  have "n div 10 ^ Suc k < 10" using Suc.prems by (simp add: less_mult_imp_div_less mult.commute)
  moreover have "n - n div 10 ^ Suc k * 10 ^ Suc k < 10 ^ Suc k" by (simp add: minus_div_mult_eq_mod)
  ultimately show ?case using Suc.IH by (simp add: Let_def c_isdigit_def del: power_Suc)
qed

lemma digits_loop_nonempty: "0 < n \<Longrightarrow> entity_digits_loop k lead n \<noteq> []"
  by (induction k lead n rule: entity_digits_loop.induct) (auto simp: Let_def)

lemma byte_chars_bytes [simp]: "byte_chars (chars_bytes s @ t) = s @ byte_chars t"
proof -
  have "unat (word_of_nat (ord c) :: u8) = ord c" for c :: char by (simp add: unat_of_nat)
  then show ?thesis by (simp add: byte_chars_def chars_bytes_def comp_def)
qed

lemma chars_bytes_length [simp]: "length (chars_bytes s) = length s"
  by (simp add: chars_bytes_def)

lemma takeWhile_alnum: "list_all c_isdigit ds \<Longrightarrow> takeWhile c_isalnum (ds @ CHR '';'' # r) = ds"
  by (subst takeWhile_append2) (auto simp: list_all_iff c_isalnum_def ctype_defs)

lemma entity_read_back:
  assumes "0 < n" and "unat n < 10 ^ 8" and "c = CHR ''&'' \<or> c = CHR ''!''"
  shows "utf8_entity entity junk flags (chars_bytes (dps_ENTITYprint c n) @ rest) =
    Some (int (length (dps_ENTITYprint c n)), [n])"
proof -
  let ?ds = "entity_digits_loop 7 False (unat n)"
  have digits: "list_all c_isdigit ?ds" using assms(2) digits_loop_digits [of "unat n" 7 False] by simp
  have pos: "0 < unat n" using assms(1) by (simp add: word_less_nat_alt)
  obtain d ds where ds: "?ds = d # ds" using digits_loop_nonempty [OF pos, of 7 False] by (cases ?ds) auto
  have num: "base_number 10 0 (?ds @ CHR '';'' # r) = int (unat n)" for r
    using base_number_digits_loop [of "unat n" 7 False 0 r] assms(2) by simp
  have d: "c_isdigit d" using digits ds by simp
  then have d': "\<not> c_isspace d" "d \<noteq> CHR ''-''" "d \<noteq> CHR ''+''" "d \<noteq> CHR ''x''" "d \<noteq> CHR ''X''" "base_digit d = Some (ord d - 48)" "ord d - 48 < 10"
    by (auto simp: ctype_defs base_digit_def)
  have "unat n < 100000000" using assms(2) by simp
  then have small: "uint n < 100000000" using uint_nat [of n] by linarith
  have scan: "scan_num 10 (?ds @ CHR '';'' # r) = Some n" for r
    using num [of r] d' small
    by (simp add: ds scan_num_def char_at_def Let_def)
  have bytes: "byte_at (chars_bytes s @ t) i = word_of_nat (ord (s ! i))" if "i < length s" for s t i
    using that by (simp add: byte_at_def chars_bytes_def nth_append)
  let ?e = "dps_ENTITYprint c n"
  have e: "?e = c # CHR ''#'' # ?ds @ '';''" and len: "length ?e = 3 + length ?ds" "?e ! 2 = d" "?e ! 1 = CHR ''#''"
    by (simp_all add: dps_ENTITYprint_def ds)
  have b2: "byte_at (chars_bytes ?e @ rest) 2 = word_of_nat (ord d)" "byte_at (chars_bytes ?e @ rest) 1 = 0x23"
    using bytes [of 2 ?e rest] bytes [of 1 ?e rest] len by (simp_all add: ds)
  have "word_of_nat (ord d) \<notin> {0x78, 0x58 :: u8}"
  proof -
    have "unat (word_of_nat (ord d) :: u8) = ord d" by (simp add: unat_of_nat)
    then have "ord d = 120 \<or> ord d = 88" if "word_of_nat (ord d) \<in> {0x78, 0x58 :: u8}" using that by auto
    then show ?thesis using d by (auto simp: c_isdigit_def)
  qed
  moreover
  have drops: "drop 2 (chars_bytes ?e @ rest) = chars_bytes (?ds @ '';'') @ rest"
    by (simp add: e chars_bytes_def)
  moreover have "skip_name (chars_bytes ?e @ rest) 2 = length ?e"
  proof -
    have "takeWhile c_isalnum (byte_chars (drop 2 (chars_bytes ?e @ rest))) = ?ds"
      using takeWhile_alnum [OF digits, of "byte_chars rest"] unfolding drops byte_chars_bytes by simp
    moreover have "?e ! (2 + length ?ds) = CHR '';''" unfolding e by (simp add: nth_append)
    then have "byte_at (chars_bytes ?e @ rest) (2 + length ?ds) = 0x3B"
      using bytes [of "2 + length ?ds" ?e rest] len by simp
    ultimately show ?thesis using len by (simp add: skip_name_def)
  qed
  ultimately show ?thesis
    using b2 scan [of "byte_chars rest"] len assms(1) by (simp add: utf8_entity_def drops)
qed

section \<open>Properties\<close>

text \<open>
  C37. Whatever the UTF-8 encoder writes for a code point, under any flags, the decoder reads back as this code point
  and as many bytes, whatever follows: for every form, of one to six bytes. The decoder may have any flags unless the
  code point is ASCII, where an ampersand, an exclamation mark or a backslash would start an escape.
\<close>

theorem dps_utf8_round_trip:
  assumes "dps_wc_mb_utf8 f esc room wc = (n, out)" and "0 < n" and "0x80 \<le> wc \<or> g = 0"
  shows "dps_mb_wc_utf8 entity junk g (out @ rest) = (n, [wc])"
  using assms by (rule utf8_read_back)

theorem dps_utf8_round_trip_witness:
  "dps_mb_wc_utf8 (\<lambda>_. None) 0 DPS_RECODE_HTML_FROM ([0xE2, 0x82, 0xAC] @ [0x21]) = (3, [0x20AC])"
  by (rule dps_utf8_round_trip [where f = 0 and esc = "[]" and room = 3]) code_simp+



text \<open>
  C39. How many bytes the conversion counts, under any flags of \<^verbatim>\<open>conv->flags\<close> for reading and writing and
  whatever bytes it reads: from UTF-8 to UTF-8 never more than the buffer has, and one more at the most when
  entities are decoded, since an entity of two code points may end the output (\<open>conversion_overruns\<close> below
  reaches it); from UTF-8 to UTF-16 and from UTF-16 to UTF-8, in either order of the bytes, never more than the buffer
  has.
\<close>

theorem DpsConv_bounds:
  "fst (DpsConv flags (dps_mb_wc_utf8 entity junk flags) (dps_wc_mb_utf8 flags esc) dlen s) \<le>
     dlen + (if has_flag flags DPS_RECODE_HTML_FROM \<or> has_flag flags DPS_RECODE_URL_FROM then 1 else 0) \<and>
   fst (DpsConv flags (dps_mb_wc_utf8 entity junk flags) dps_wc_mb_utf16le dlen s) \<le> dlen \<and>
   fst (DpsConv flags (dps_mb_wc_utf8 entity junk flags) dps_wc_mb_utf16be dlen s) \<le> dlen \<and>
   fst (DpsConv flags dps_mb_wc_utf16le (dps_wc_mb_utf8 flags esc) dlen s) \<le> dlen \<and>
   fst (DpsConv flags dps_mb_wc_utf16be (dps_wc_mb_utf8 flags esc) dlen s) \<le> dlen"
  using utf8_to_utf8.conversion_fits [of flags entity junk flags flags esc dlen s]
    utf8_to_utf16le.conversion_fits [of flags entity junk flags dlen s]
    utf8_to_utf16be.conversion_fits [of flags entity junk flags dlen s]
    utf16le_to_utf8.conversion_fits [of flags flags esc dlen s] utf16be_to_utf8.conversion_fits [of flags flags esc dlen s]
  by (cases "entity_flags flags") (auto simp: entity_flags_def)

text \<open>
  C40. The escape that the conversion writes for a code point its output character set lacks is read back as
  that code point and as many bytes when the text is decoded with entities on, whatever follows it.
\<close>

theorem dps_ENTITYprint_read_back:
  assumes "0 < n" and "unat n < 10 ^ 8" and "has_flag g DPS_RECODE_HTML_FROM"
  shows "dps_mb_wc_utf8 entity junk g (chars_bytes (dps_ENTITYprint (CHR ''&'') n) @ rest) =
    (int (length (dps_ENTITYprint (CHR ''&'') n)), [n])"
proof -
  have "byte_at (chars_bytes (dps_ENTITYprint (CHR ''&'') n) @ rest) 0 = 0x26"
    by (simp add: byte_at_def dps_ENTITYprint_def chars_bytes_def)
  then show ?thesis
    using entity_read_back [OF assms(1,2), of "CHR ''&''" entity junk g rest] assms(3)
    by (simp add: dps_mb_wc_utf8_def utf8_ascii_def Let_def)
qed

theorem dps_ENTITYprint_read_back_witness:
  "dps_mb_wc_utf8 (\<lambda>_. None) 0 DPS_RECODE_HTML_FROM (chars_bytes (dps_ENTITYprint (CHR ''&'') 8364) @ [0x21]) =
    (int (length (dps_ENTITYprint (CHR ''&'') 8364)), [8364])"
  by (rule dps_ENTITYprint_read_back) (simp_all add: has_flag_def DPS_RECODE_HTML_FROM_def)

text \<open>Findings: what the code does on inputs it should treat otherwise.\<close>

lemma utf16_wrong_pair: "dps_mb_wc_utf16be (snd (dps_wc_mb_utf16be 4 0x10400)) = (4, [0x50000])"
  by code_simp
lemma overlong_accepted: "dps_mb_wc_utf8 entity junk 0 [0xE0, 0x80, 0xAF] = (3, [0x2F])"
  by (simp add: dps_mb_wc_utf8_def byte_at_def)

lemma conversion_overruns:
  "DpsConv DPS_RECODE_HTML_FROM
     (dps_mb_wc_utf8 (\<lambda>e. if e = ''fjlig'' then Some (0x66, 0x6A) else None) 0 DPS_RECODE_HTML_FROM)
     (dps_wc_mb_utf8 DPS_RECODE_HTML_FROM []) 1 (chars_bytes ''&fjlig;'') = (2, [0x66, 0x6A])"
  by code_simp

lemma next_character_skipped:
  "DpsConv 0 (dps_mb_wc_utf8 (\<lambda>_. None) 0 0) (dps_wc_mb_utf8 0 []) 9 [0xC3, 0x41, 0x42] = (2, [0x3F, 0x42, 0])"
  by code_simp

lemma json_letters_low: "dps_JSONprint 0xAF = CHR 0x5C # ''u00@E''"
  by code_simp

end
