(* ===== verification/Dps_Html.thy ===== *)
theory Dps_Html
  imports Dps_Prelude
begin

text \<open>
  The scanner of HTML, \<^verbatim>\<open>DpsHTMLToken\<close> of \<^verbatim>\<open>src/parsehtml.c\<close>, which the indexer, the
  stored documents, the templates and the text form of documents share. The pointers \<^verbatim>\<open>s\<close>,
  \<^verbatim>\<open>b\<close>, \<^verbatim>\<open>e\<close> and \<^verbatim>\<open>lt\<close> are the strings from them on. \<^verbatim>\<open>next_b\<close> and
  \<^verbatim>\<open>next_e\<close> move a pointer by one character, as \<^verbatim>\<open>DpsHTMLTOKInit\<close> sets them. Of the
  array \<^verbatim>\<open>toks\<close> the first \<^verbatim>\<open>ntoks\<close> entries are modelled; the entry behind them is
  overwritten and never read.
\<close>

section \<open>State\<close>

datatype html_type = DPS_HTML_TAG | DPS_HTML_COM | DPS_HTML_TXT

record htmltok =
  h_script :: nat
  h_style :: nat
  h_title :: nat
  h_body :: nat
  h_comment :: nat
  h_comment_inside :: nat
  h_noindex :: nat
  h_select :: nat
  h_frameset :: nat
  h_br :: nat
  h_toks :: "(string \<times> string option) list"

definition DpsHTMLTOKInit :: htmltok where
  "DpsHTMLTOKInit = \<lparr>h_script = 0, h_style = 0, h_title = 0, h_body = 0, h_comment = 0, h_comment_inside = 0,
     h_noindex = 0, h_select = 0, h_frameset = 0, h_br = 0, h_toks = []\<rparr>"

definition DPS_MAXTAGVAL :: nat where "DPS_MAXTAGVAL = 64"

section \<open>Tags\<close>

definition html_space :: "char \<Rightarrow> bool" where
  "html_space c \<longleftrightarrow> c \<in> {CHR '' '', CHR 0x09, CHR 0x0D, CHR 0x0A}"

definition name_char :: "char \<Rightarrow> bool" where
  "name_char c \<longleftrightarrow> c \<notin> {CHR '' '', CHR ''='', CHR ''>'', CHR 0x09, CHR 0x0D, CHR 0x0A}"

definition value_char :: "char \<Rightarrow> bool" where
  "value_char c \<longleftrightarrow> c \<notin> {CHR '' '', CHR ''>'', CHR 0x09, CHR 0x0D, CHR 0x0A}"

definition add_tok :: "htmltok \<Rightarrow> string \<times> string option \<Rightarrow> htmltok" where
  "add_tok t x = (if length (h_toks t) < DPS_MAXTAGVAL then t\<lparr>h_toks := h_toks t @ [x]\<rparr> else t)"

text \<open>The start of a tag sets what the scanner knows; names are compared by their first characters.\<close>

definition tag_flags :: "string \<Rightarrow> htmltok \<Rightarrow> htmltok" where
  "tag_flags b t =
    (if c_strncaseeq b ''script'' 6 then t\<lparr>h_script := 1\<rparr>
     else if c_strncaseeq b ''/script'' 7 then
       (let t = t\<lparr>h_script := 0\<rparr> in if h_comment_inside t \<noteq> 0 then t\<lparr>h_comment := 0, h_comment_inside := 0\<rparr> else t)
     else if c_strncaseeq b ''style'' 5 then t\<lparr>h_style := 1\<rparr>
     else if c_strncaseeq b ''/style'' 6 then
       (let t = t\<lparr>h_style := 0\<rparr> in if h_comment_inside t \<noteq> 0 then t\<lparr>h_comment := 0, h_comment_inside := 0\<rparr> else t)
     else if c_strncaseeq b ''select'' 4 then t\<lparr>h_select := 1\<rparr>
     else if c_strncaseeq b ''/select'' 5 then t\<lparr>h_select := 0\<rparr>
     else if c_strncaseeq b ''body'' 4 then t\<lparr>h_body := 1\<rparr>
     else if c_strncaseeq b ''/body'' 5 then t\<lparr>h_body := 0\<rparr>
     else if c_strncaseeq b ''title'' 5 then t\<lparr>h_title := 1\<rparr>
     else if c_strncaseeq b ''/title'' 6 then t\<lparr>h_title := 0\<rparr>
     else if c_strncaseeq b ''noindex'' 7 then t\<lparr>h_noindex := 1\<rparr>
     else if c_strncaseeq b ''/noindex'' 8 then t\<lparr>h_noindex := 0\<rparr>
     else if c_strncaseeq b ''frameset'' 8 then t\<lparr>h_frameset := h_frameset t + 1\<rparr>
     else if c_strncaseeq b ''/frameset'' 9 then t\<lparr>h_frameset := h_frameset t - 1\<rparr>
     else if c_strncaseeq b ''br'' 2 then t\<lparr>h_br := h_br t + 1\<rparr>
     else t)"

text \<open>The value after an equals sign and its spaces, and what follows it.\<close>

definition tag_value :: "string \<Rightarrow> string \<times> string" where
  "tag_value b =
    (let q = char_at b 0 in
     if q = CHR 0x22 \<or> q = CHR 0x27 then
       (let e = dropWhile (\<lambda>c. c \<noteq> q) (tl b) in (takeWhile (\<lambda>c. c \<noteq> q) (tl b), if char_at e 0 = q then tl e else e))
     else (takeWhile value_char b, dropWhile value_char b))"

text \<open>The loop over the attributes from \<open>b\<close> on: the string from \<^verbatim>\<open>*lt\<close> on and the token.\<close>

function tag_loop :: "string \<Rightarrow> htmltok \<Rightarrow> string \<times> htmltok" where
  "tag_loop b t =
    (if b = [] then (b, t)
     else
       (let b = dropWhile html_space b in
        if char_at b 0 = CHR ''>'' then (tl b, t)
        else if char_at b 0 = CHR ''<'' then (b, t)
        else
          (let name = takeWhile name_char b; e = dropWhile name_char b;
               t = (if h_toks t = [] then tag_flags b t else t)
           in if char_at e 0 = CHR ''>'' then (tl e, add_tok t (name, None))
              else if e = [] then (e, add_tok t (name, None))
              else
                (let e = dropWhile html_space e in
                 if char_at e 0 \<noteq> CHR ''='' then tag_loop e (add_tok t (name, None))
                 else
                   (let (val, b) = tag_value (dropWhile html_space (tl e))
                    in tag_loop b (add_tok t (name, Some val)))))))"
  by pat_completeness auto

lemma tag_value_length: "tag_value b = (v, r) \<Longrightarrow> length r \<le> length b"
  using length_dropWhile_le [of "\<lambda>c. c \<noteq> char_at b 0" "tl b"] length_dropWhile_le [of value_char b]
  by (auto simp: tag_value_def Let_def split: if_splits)

lemma char_at_hd: "char_at s 0 = (case s of [] \<Rightarrow> CHR 0x00 | c # _ \<Rightarrow> c)"
  by (cases s) (simp_all add: char_at_def)

lemma tag_step:
  fixes b :: string
  defines "c \<equiv> dropWhile html_space b"
  defines "e \<equiv> dropWhile name_char c"
  assumes "char_at c 0 \<noteq> CHR ''>''" "char_at e 0 \<noteq> CHR ''>''" "e \<noteq> []" "char_at (dropWhile html_space e) 0 \<noteq> CHR ''=''"
  shows "length (dropWhile html_space e) < length b"
proof -
  have le: "length c \<le> length b" "length e \<le> length c" "length (dropWhile html_space e) \<le> length e"
    by (simp_all add: c_def e_def length_dropWhile_le)
  obtain x xs where c: "c = x # xs" using \<open>e \<noteq> []\<close> by (cases c) (auto simp: e_def)
  have x: "\<not> html_space x" using c unfolding c_def by (simp add: dropWhile_eq_Cons_conv)
  show ?thesis
  proof (cases "name_char x")
    case True
    then have "length e < length c" using length_dropWhile_le [of name_char xs] by (simp add: c e_def)
    with le show ?thesis by simp
  next
    case False
    then have "e = c" "x = CHR ''=''" using c assms(3) x by (auto simp: e_def char_at_hd name_char_def html_space_def)
    then have "dropWhile html_space e = e" using c x by simp
    with \<open>x = CHR ''=''\<close> \<open>e = c\<close> c assms(6) show ?thesis by (simp add: char_at_hd)
  qed
qed

lemma tag_value_step:
  assumes "char_at (dropWhile html_space (dropWhile name_char (dropWhile html_space b))) 0 = CHR ''=''"
    and "tag_value (dropWhile html_space (tl (dropWhile html_space (dropWhile name_char (dropWhile html_space b))))) = (v, r)"
  shows "length r < length b"
proof -
  let ?e = "dropWhile html_space (dropWhile name_char (dropWhile html_space b))"
  have "s \<noteq> []" if "char_at s 0 = CHR ''=''" for s using that by (auto simp: char_at_def)
  then have "?e \<noteq> []" using assms(1) by blast
  then have "length (tl ?e) < length ?e" by simp
  moreover have "length ?e \<le> length b"
    by (meson length_dropWhile_le order_trans)
  moreover have "length r \<le> length (tl ?e)"
    using tag_value_length [OF assms(2)] length_dropWhile_le [of html_space "tl ?e"] by simp
  ultimately show ?thesis by simp
qed

termination tag_loop
proof (relation "measure (\<lambda>(b, t). length b)", goal_cases)
  case 1 show ?case by simp
next
  case 2 then show ?case using tag_step by (simp only: in_measure split_conv)
next
  case 3 then show ?case using tag_value_step by (simp only: in_measure split_conv) metis
qed

declare tag_loop.simps [simp del]

section \<open>Comments and text\<close>

definition comment_flags :: "string \<Rightarrow> htmltok \<Rightarrow> htmltok" where
  "comment_flags s t =
    (if c_strncaseeq s ''<!--DpsComment-->'' 17 then t\<lparr>h_noindex := 1\<rparr>
     else if c_strncaseeq s ''<!--/DpsComment-->'' 18 then t\<lparr>h_noindex := 0\<rparr>
     else if c_strncaseeq s ''<!--UdmComment-->'' 17 then t\<lparr>h_noindex := 1\<rparr>
     else if c_strncaseeq s ''<!--/UdmComment-->'' 18 then t\<lparr>h_noindex := 0\<rparr>
     else if c_strncaseeq s ''<!--noindex-->'' 14 then t\<lparr>h_noindex := 1\<rparr>
     else if c_strncaseeq s ''<!--/noindex-->'' 15 then t\<lparr>h_noindex := 0\<rparr>
     else if c_strncaseeq s ''<!--Comment-->'' 14 then t\<lparr>h_noindex := 1\<rparr>
     else if c_strncaseeq s ''<!--/Comment-->'' 15 then t\<lparr>h_noindex := 0\<rparr>
     else if c_strncaseeq s ''<!--htdig_noindex-->'' 20 then t\<lparr>h_noindex := 1\<rparr>
     else if c_strncaseeq s ''<!--/htdig_noindex-->'' 21 then t\<lparr>h_noindex := 0\<rparr>
     else if c_strncaseeq s ''<!-- google_ad_section_start -->'' 32 then t\<lparr>h_noindex := 0\<rparr>
     else if c_strncaseeq s ''<!-- google_ad_section_start(weight=ignore) -->'' 47 then t\<lparr>h_noindex := 1\<rparr>
     else if c_strncaseeq s ''<!-- google_ad_section_end -->'' 30 then t\<lparr>h_noindex := (if h_noindex t = 0 then 1 else 0)\<rparr>
     else t)"

text \<open>The string from the first end of a comment on.\<close>

fun comment_end :: "string \<Rightarrow> string" where
  "comment_end [] = []"
| "comment_end (c # s) = (if take 3 (c # s) = ''-->'' then c # s else comment_end s)"

definition html_comment :: "string \<Rightarrow> htmltok \<Rightarrow> string \<times> htmltok" where
  "html_comment s t =
    (let t = comment_flags s t; e = comment_end s
     in if take 3 e = ''-->'' then (drop 3 e, t)
        else (drop 3 s, t\<lparr>h_comment_inside := (if h_style t \<noteq> 0 \<or> h_script t \<noteq> 0 then 1 else h_comment_inside t), h_comment := 1\<rparr>))"

text \<open>The string from the end of a text on; \<open>start\<close>: nothing has been read yet.\<close>

fun text_end :: "nat \<Rightarrow> bool \<Rightarrow> string \<Rightarrow> string" where
  "text_end script start [] = []"
| "text_end script start (c # s) =
    (if c = CHR ''<'' \<and>
        (if script \<noteq> 0 then c_strncaseeq (c # s) ''</script>'' 9 \<or> take 4 (c # s) = ''<!--'' else \<not> start)
     then c # s else text_end script False s)"

section \<open>Tokens\<close>

definition token_type :: "string \<Rightarrow> html_type" where
  "token_type s =
    (if take 4 s = ''<!--'' then DPS_HTML_COM
     else if char_at s 0 = CHR ''<'' \<and> char_at s 1 \<noteq> CHR '' '' \<and> char_at s 1 \<noteq> CHR ''<'' \<and> char_at s 1 \<noteq> CHR ''>'' then DPS_HTML_TAG
     else DPS_HTML_TXT)"

text \<open>The type of the token, the string after it and the state; \<^const>\<open>None\<close> at the end of the string.\<close>

definition DpsHTMLToken :: "string \<Rightarrow> htmltok \<Rightarrow> (html_type \<times> string \<times> htmltok) option" where
  "DpsHTMLToken s t =
    (let t = t\<lparr>h_toks := []\<rparr> in
     if s = [] then None
     else
       (let ty = token_type s
        in Some (ty, case ty of
             DPS_HTML_TAG \<Rightarrow> tag_loop (tl s) t
           | DPS_HTML_COM \<Rightarrow> html_comment s t
           | DPS_HTML_TXT \<Rightarrow> (text_end (h_script t) True s, t))))"


section \<open>Every token takes at least one character\<close>

lemma tag_value_suffix: "tag_value b = (v, r) \<Longrightarrow> suffix r b"
  unfolding tag_value_def Let_def
  by (auto split: if_splits intro: suffix_dropWhile suffix_order.trans [OF suffix_dropWhile suffix_tl]
      suffix_order.trans [OF suffix_tl suffix_order.trans [OF suffix_dropWhile suffix_tl]])

lemma tag_loop_suffix: "suffix (fst (tag_loop b t)) b"
proof (induction b t rule: tag_loop.induct)
  case (1 b t)
  let ?c = "dropWhile html_space b"
  let ?e = "dropWhile name_char ?c"
  let ?f = "dropWhile html_space ?e"
  have suf: "suffix ?c b" "suffix ?e b" "suffix ?f b"
    by (meson suffix_dropWhile suffix_order.trans)+
  then have tls: "suffix (tl ?c) b" "suffix (tl ?e) b"
    by (meson suffix_tl suffix_order.trans)+
  have val: "suffix r b" if "tag_value (dropWhile html_space (tl ?f)) = (v, r)" for v r
    using tag_value_suffix [OF that] suf(3) by (meson suffix_dropWhile suffix_order.trans suffix_tl)
  show ?case
    by (subst tag_loop.simps)
      (auto simp: Let_def suf tls split: prod.split
        intro: "1.IH" suffix_order.trans [OF "1.IH"(1) suf(3)] suffix_order.trans [OF "1.IH"(2) val])
qed

lemma comment_end_suffix: "suffix (comment_end s) s"
  by (induction s) (auto intro: suffix_ConsI)

lemma text_end_suffix: "suffix (text_end script start s) s"
  by (induction script start s rule: text_end.induct) (auto intro: suffix_ConsI)

lemma tolower_slash:
  "c_tolower (CHR '' '') \<noteq> c_tolower (CHR ''/'')" "c_tolower (CHR ''<'') \<noteq> c_tolower (CHR ''/'')"
  "c_tolower (CHR ''>'') \<noteq> c_tolower (CHR ''/'')"
  by code_simp+

lemma DpsHTMLToken_progress:
  assumes "DpsHTMLToken s t = Some (ty, r, t')"
  shows "suffix r s \<and> length r < length s"
proof -
  from assms obtain c u where s: "s = c # u" by (cases s) (auto simp: DpsHTMLToken_def Let_def)
  consider "token_type s = DPS_HTML_TAG" | "token_type s = DPS_HTML_COM" | "token_type s = DPS_HTML_TXT"
    by (cases "token_type s") auto
  then have "suffix r u \<or> suffix r s \<and> length r < length s"
  proof cases
    case 1
    then show ?thesis using assms tag_loop_suffix [of u "t\<lparr>h_toks := []\<rparr>"]
      by (auto simp: DpsHTMLToken_def Let_def s)
  next
    case 2
    have "suffix (drop 3 (comment_end s)) s" using comment_end_suffix [of s] by (meson suffix_drop suffix_order.trans)
    moreover have "take 3 (comment_end s) = ''-->'' \<Longrightarrow> length (drop 3 (comment_end s)) < length s"
      using suffix_length_le [OF comment_end_suffix [of s]] by (cases "comment_end s") auto
    ultimately show ?thesis using assms 2
      by (auto simp: DpsHTMLToken_def html_comment_def Let_def s suffix_drop split: if_splits)
  next
    case 3
    then have "\<not> (take 4 s = ''<!--'')" by (auto simp: token_type_def split: if_splits)
    moreover have "c = CHR ''<'' \<Longrightarrow> \<not> c_strncaseeq s ''</script>'' 9"
      using 3 s by (cases u) (auto simp: token_type_def char_at_def c_strncaseeq_def tolower_slash split: if_splits)
    ultimately have "text_end (h_script t) True s = text_end (h_script t) False u" by (auto simp: s)
    moreover have "s \<noteq> []" by (simp add: s)
    ultimately have "r = text_end (h_script t) False u" using assms 3 by (simp add: DpsHTMLToken_def Let_def)
    then show ?thesis using text_end_suffix by simp
  qed
  then show ?thesis using suffix_length_le [of r u] by (auto simp: s intro: suffix_ConsI)
qed

function html_tokens :: "string \<Rightarrow> htmltok \<Rightarrow> (html_type \<times> string \<times> htmltok) list" where
  "html_tokens s t =
    (case DpsHTMLToken s t of
       None \<Rightarrow> []
     | Some (ty, r, t) \<Rightarrow> (ty, take (length s - length r) s, t) # html_tokens r t)"
  by pat_completeness auto
termination
  by (relation "measure (\<lambda>(s, t). length s)") (auto dest!: DpsHTMLToken_progress)

declare html_tokens.simps [simp del]

section \<open>Reading back a tag\<close>

definition attr_ok :: "string \<Rightarrow> string \<Rightarrow> bool" where
  "attr_ok n v \<longleftrightarrow> n \<noteq> [] \<and> hd n \<noteq> CHR ''<'' \<and> list_all name_char n \<and> CHR 0x22 \<notin> set v"

definition tag_attrs :: "(string \<times> string) list \<Rightarrow> string" where
  "tag_attrs kvs = concat (map (\<lambda>(n, v). CHR 0x09 # n @ CHR ''='' # CHR 0x22 # v @ [CHR 0x22]) kvs)"

lemma tag_loop_space: "html_space c \<Longrightarrow> b \<noteq> [] \<Longrightarrow> tag_loop (c # b) t = tag_loop b t"
  by (simp add: tag_loop.simps [of "c # b"] tag_loop.simps [of b])

lemma name_char_not: "name_char c \<Longrightarrow> \<not> html_space c \<and> c \<noteq> CHR ''>'' \<and> c \<noteq> CHR ''=''"
  by (auto simp: name_char_def html_space_def)

lemma takeWhile_stop: "list_all P xs \<Longrightarrow> \<not> P y \<Longrightarrow> takeWhile P (xs @ y # ys) = xs \<and> dropWhile P (xs @ y # ys) = y # ys"
  by (induction xs) auto

lemma tag_value_quoted: "CHR 0x22 \<notin> set v \<Longrightarrow> tag_value (CHR 0x22 # v @ CHR 0x22 # r) = (v, r)"
proof -
  assume "CHR 0x22 \<notin> set v"
  then have "list_all (\<lambda>c. c \<noteq> CHR 0x22) v" by (auto simp: list_all_iff)
  from takeWhile_stop [OF this, of "CHR 0x22" r] show ?thesis by (simp add: tag_value_def char_at_hd)
qed

lemma tag_loop_attr:
  assumes "attr_ok n v" and "h_toks t \<noteq> []"
  shows "tag_loop (n @ CHR ''='' # CHR 0x22 # v @ CHR 0x22 # b) t = tag_loop b (add_tok t (n, Some v))"
proof -
  let ?r = "CHR ''='' # CHR 0x22 # v @ CHR 0x22 # b"
  obtain c cs where n: "n = c # cs" using assms(1) by (cases n) (auto simp: attr_ok_def)
  have c: "\<not> html_space c" "c \<noteq> CHR ''>''" "c \<noteq> CHR ''<''" using assms(1) n name_char_not [of c] by (auto simp: attr_ok_def)
  have stop: "takeWhile name_char (n @ ?r) = n" "dropWhile name_char (n @ ?r) = ?r"
    using takeWhile_stop [of name_char n "CHR ''=''"] assms(1) by (auto simp: attr_ok_def name_char_def)
  have eq: "\<not> html_space (CHR ''='')" "\<not> html_space (CHR 0x22)" by (simp_all add: html_space_def)
  have lead: "dropWhile html_space (n @ ?r) = n @ ?r" "char_at (n @ ?r) 0 = c" "n @ ?r \<noteq> []" using c by (simp_all add: n char_at_hd)
  show ?thesis
    unfolding tag_loop.simps [of "n @ ?r"] Let_def lead stop
    using c eq assms by (simp add: char_at_hd attr_ok_def tag_value_quoted)
qed

lemma tag_loop_attrs:
  "\<forall>(n, v)\<in>set kvs. attr_ok n v \<Longrightarrow> h_toks t \<noteq> [] \<Longrightarrow> length (h_toks t) + length kvs \<le> DPS_MAXTAGVAL \<Longrightarrow>
   tag_loop (tag_attrs kvs @ CHR ''>'' # rest) t = (rest, t\<lparr>h_toks := h_toks t @ map (\<lambda>(n, v). (n, Some v)) kvs\<rparr>)"
proof (induction kvs arbitrary: t)
  case Nil
  then show ?case by (simp add: tag_attrs_def tag_loop.simps [of "CHR ''>'' # rest"] html_space_def char_at_hd)
next
  case (Cons x kvs)
  obtain n v where x: "x = (n, v)" by (cases x) auto
  have tab: "html_space (CHR 0x09)" by (simp add: html_space_def)
  have "tag_loop (tag_attrs (x # kvs) @ CHR ''>'' # rest) t =
      tag_loop (n @ CHR ''='' # CHR 0x22 # v @ CHR 0x22 # (tag_attrs kvs @ CHR ''>'' # rest)) t"
    using tag_loop_space [OF tab] by (simp add: tag_attrs_def x)
  also have "\<dots> = tag_loop (tag_attrs kvs @ CHR ''>'' # rest) (add_tok t (n, Some v))"
    using Cons.prems by (intro tag_loop_attr) (auto simp: x)
  also have "add_tok t (n, Some v) = t\<lparr>h_toks := h_toks t @ [(n, Some v)]\<rparr>"
    using Cons.prems(3) by (simp add: add_tok_def)
  also have "tag_loop (tag_attrs kvs @ CHR ''>'' # rest) \<dots> = (rest, t\<lparr>h_toks := h_toks t @ map (\<lambda>(n, v). (n, Some v)) (x # kvs)\<rparr>)"
    using Cons.prems by (subst Cons.IH) (auto simp: x)
  finally show ?case .
qed

lemma tag_flags_toks [simp]: "h_toks (tag_flags b t) = h_toks t"
  by (simp add: tag_flags_def Let_def)

lemma tag_read_back:
  assumes "attr_ok name []" and "hd name \<noteq> CHR ''!''" and "\<forall>(n, v)\<in>set kvs. attr_ok n v" and "length kvs < DPS_MAXTAGVAL"
  shows "\<exists>t'. DpsHTMLToken (CHR ''<'' # name @ tag_attrs kvs @ CHR ''>'' # rest) t = Some (DPS_HTML_TAG, rest, t') \<and>
    h_toks t' = (name, None) # map (\<lambda>(n, v). (n, Some v)) kvs"
proof -
  obtain c cs where name: "name = c # cs" using assms(1) by (cases name) (auto simp: attr_ok_def)
  let ?b = "name @ tag_attrs kvs @ CHR ''>'' # rest"
  have c: "\<not> html_space c" "c \<noteq> CHR ''>''" "c \<noteq> CHR ''<''" "c \<noteq> CHR '' ''" "c \<noteq> CHR ''!''"
    using assms(1,2) name name_char_not [of c] by (auto simp: attr_ok_def html_space_def)
  have type: "token_type (CHR ''<'' # ?b) = DPS_HTML_TAG"
    using c by (simp add: token_type_def name char_at_def)
  let ?t = "tag_flags ?b (t\<lparr>h_toks := []\<rparr>)"
  have lead: "dropWhile html_space ?b = ?b" "char_at ?b 0 = c" "?b \<noteq> []" using c by (simp_all add: name char_at_hd)
  have nm: "list_all name_char name" using assms(1) by (simp add: attr_ok_def)
  have "tag_loop ?b (t\<lparr>h_toks := []\<rparr>) = (rest, ?t\<lparr>h_toks := (name, None) # map (\<lambda>(n, v). (n, Some v)) kvs\<rparr>)"
  proof (cases kvs)
    case Nil
    have stop: "takeWhile name_char (name @ CHR ''>'' # rest) = name" "dropWhile name_char (name @ CHR ''>'' # rest) = CHR ''>'' # rest"
      using takeWhile_stop [OF nm] by (auto simp: name_char_def)
    show ?thesis
      unfolding tag_loop.simps [of ?b] Let_def lead using c stop
      by (simp add: Nil tag_attrs_def char_at_hd add_tok_def DPS_MAXTAGVAL_def)
  next
    case (Cons x xs)
    obtain n v where x: "x = (n, v)" by (cases x) auto
    obtain d ds where n: "n = d # ds" using assms(3) by (cases n) (auto simp: attr_ok_def Cons x)
    have d: "\<not> html_space d" "d \<noteq> CHR ''=''" using assms(3) name_char_not [of d] by (auto simp: attr_ok_def Cons x n)
    obtain r where r: "tag_attrs kvs @ CHR ''>'' # rest = CHR 0x09 # n @ r" by (simp add: Cons x tag_attrs_def)
    have tab: "html_space (CHR 0x09)" "\<not> name_char (CHR 0x09)" by (simp_all add: html_space_def name_char_def)
    have stop: "takeWhile name_char (name @ CHR 0x09 # n @ r) = name" "dropWhile name_char (name @ CHR 0x09 # n @ r) = CHR 0x09 # n @ r"
      using takeWhile_stop [OF nm tab(2)] by auto
    have "tag_loop ?b (t\<lparr>h_toks := []\<rparr>) = tag_loop (n @ r) (add_tok ?t (name, None))"
      unfolding tag_loop.simps [of ?b] Let_def lead using c stop tab d
      by (simp add: r char_at_hd n)
    also have "\<dots> = tag_loop (tag_attrs kvs @ CHR ''>'' # rest) (add_tok ?t (name, None))"
      unfolding r using tag_loop_space [OF tab(1), of "n @ r"] by (simp add: n)
    finally show ?thesis
      using assms(3,4) by (subst (asm) tag_loop_attrs) (auto simp: add_tok_def DPS_MAXTAGVAL_def)
  qed
  then show ?thesis using type by (simp add: DpsHTMLToken_def Let_def)
qed

section \<open>Properties\<close>

text \<open>
  C30. The scan of a document ends and leaves nothing out: the loop over the tokens terminates on every text and in
  every state, each token takes at least one character, and the tokens in order are the text.
\<close>

theorem html_tokens_partition:
  "concat (map (fst \<circ> snd) (html_tokens s t)) = s \<and> [] \<notin> set (map (fst \<circ> snd) (html_tokens s t))"
proof (induction s t rule: html_tokens.induct)
  case (1 s t)
  show ?case
  proof (cases "DpsHTMLToken s t")
    case None
    then show ?thesis by (simp add: html_tokens.simps [of s t] DpsHTMLToken_def Let_def split: if_splits)
  next
    case (Some x)
    obtain ty r t' where x: "x = (ty, r, t')" by (cases x) auto
    have prog: "suffix r s" "length r < length s" using DpsHTMLToken_progress [OF Some [unfolded x]] by simp_all
    then obtain p where p: "s = p @ r" by (blast elim: suffixE)
    then have "p \<noteq> []" using prog(2) by auto
    note p = p this
    have "take (length s - length r) s = p" using p(1) by simp
    then have "html_tokens s t = (ty, p, t') # html_tokens r t'" by (subst html_tokens.simps) (simp add: Some x)
    moreover note "1.IH" [OF Some x [symmetric] refl]
    ultimately show ?thesis using p(2) p(1) [symmetric] by simp
  qed
qed

text \<open>
  However many attributes a tag has and however it is broken, the scanner never notes more than the array of
  attributes has room for.
\<close>

theorem DpsHTMLToken_toks:
  assumes "DpsHTMLToken s t = Some (ty, r, t')"
  shows "length (h_toks t') \<le> DPS_MAXTAGVAL"
proof -
  have add: "length (h_toks (add_tok t x)) \<le> DPS_MAXTAGVAL" if "length (h_toks t) \<le> DPS_MAXTAGVAL" for t x
    using that by (simp add: add_tok_def)
  have tag: "length (h_toks t) \<le> DPS_MAXTAGVAL \<Longrightarrow> length (h_toks (snd (tag_loop b t))) \<le> DPS_MAXTAGVAL" for b t
  proof (induction b t rule: tag_loop.induct)
    case (1 b t)
    show ?case by (subst tag_loop.simps) (use "1.prems" in \<open>auto simp: Let_def add split: prod.split intro: "1.IH"\<close>)
  qed
  have "h_toks (html_comment_state) = []" if "html_comment_state = snd (html_comment s (t\<lparr>h_toks := []\<rparr>))" for html_comment_state
    by (simp add: that html_comment_def comment_flags_def Let_def)
  then show ?thesis
    using assms tag [of "t\<lparr>h_toks := []\<rparr>" "tl s"]
    by (auto simp: DpsHTMLToken_def Let_def split: if_splits html_type.splits)
qed

theorem DpsHTMLToken_toks_witness:
  "\<exists>r t'. DpsHTMLToken ''<a b=c>'' DpsHTMLTOKInit = Some (DPS_HTML_TAG, r, t') \<and> length (h_toks t') \<le> DPS_MAXTAGVAL"
proof -
  obtain r t' where "DpsHTMLToken ''<a b=c>'' DpsHTMLTOKInit = Some (DPS_HTML_TAG, r, t')"
    by (cases "tag_loop ''a b=c>'' (DpsHTMLTOKInit\<lparr>h_toks := []\<rparr>)") (simp add: DpsHTMLToken_def token_type_def char_at_def Let_def)
  with DpsHTMLToken_toks [OF this] show ?thesis by blast
qed

text \<open>A tag is known by the first letters of its name.\<close>

lemma brand_is_br: "h_br (tag_flags ''brand>'' DpsHTMLTOKInit) = 1"
  by code_simp

end
