(* ===== verification/Dps_DocText.thy ===== *)
theory Dps_DocText
  imports Dps_Html Dps_Robots Dps_Sgml
begin

text \<open>
  Documents and categories as text, the form in which \<^verbatim>\<open>searchd\<close>, the clients and the cached
  URL records exchange them: \<^verbatim>\<open>DpsDocToTextBuf\<close> and \<^verbatim>\<open>DpsDocFromTextBuf\<close> of
  \<^verbatim>\<open>src/doc.c\<close>, \<^verbatim>\<open>DpsCatToTextBuf\<close> and \<^verbatim>\<open>DpsCatFromTextBuf\<close> of
  \<^verbatim>\<open>src/searchtool.c\<close>. A document is its list of sections and its method. The program is built
  without \<^verbatim>\<open>WITH_MULTIDBADDR\<close>; \<^verbatim>\<open>"%s"\<close> prints a missing string as \<open>(null)\<close>.
\<close>

section \<open>Writing a document\<close>

definition DPS_METHOD_CHECKMP3 :: nat where "DPS_METHOD_CHECKMP3 = 5"
definition DPS_METHOD_CHECKMP3ONLY :: nat where "DPS_METHOD_CHECKMP3ONLY = 6"
definition DPS_METHOD_INDEX :: nat where "DPS_METHOD_INDEX = 8"

definition sent_names :: "string list" where
  "sent_names = [''DP_ID'', ''URL_ID'', ''URL'', ''Title'', ''Status'', ''Charset'', ''Content-Type'', ''Content-Length'',
     ''Content-Language'', ''Tag'', ''Z'', ''Category'']"

text \<open>Whether a section is part of the text.\<close>

definition doc_sent :: "nat \<Rightarrow> bool \<Rightarrow> dps_var \<Rightarrow> bool" where
  "doc_sent method numsection_flag S =
    (let u = (method \<in> {DPS_METHOD_UNKNOWN, DPS_METHOD_GET, DPS_METHOD_CHECKMP3, DPS_METHOD_CHECKMP3ONLY, DPS_METHOD_INDEX}) in
     case (v_name S, v_val S) of
       (Some name, Some val) \<Rightarrow>
         (val \<noteq> [] \<or> c_strcaseeq name ''Z'') \<and>
         (((numsection_flag \<and> v_section S \<noteq> 0) \<or> v_maxlen S \<noteq> 0) \<and> u \<or> list_ex (c_strcaseeq name) sent_names)
     | _ \<Rightarrow> False)"

definition sent_vars :: "nat \<Rightarrow> bool \<Rightarrow> varlist \<Rightarrow> dps_var list" where
  "sent_vars method numsection_flag Sections =
    filter (doc_sent method numsection_flag) (concat (map Sections [0..<256]))"

definition val_of :: "dps_var \<Rightarrow> string" where
  "val_of v = (case v_val v of None \<Rightarrow> [] | Some s \<Rightarrow> s)"

definition text_size :: "dps_var list \<Rightarrow> nat" where
  "text_size vs = 16 + sum_list (map (\<lambda>S. length (name_of S) + (if v_curlen S \<noteq> 0 then v_curlen S else length (val_of S)) + 32) vs)"

definition printed :: "dps_var \<Rightarrow> string" where
  "printed v = (case v_txt_val v of Some s \<Rightarrow> s | None \<Rightarrow> (case v_val v of Some s \<Rightarrow> s | None \<Rightarrow> ''(null)''))"

definition one_attr :: "string \<Rightarrow> string \<Rightarrow> string" where
  "one_attr n v = CHR 0x09 # n @ CHR ''='' # CHR 0x22 # v @ [CHR 0x22]"

definition doc_attr :: "varlist \<Rightarrow> bool \<Rightarrow> dps_var \<Rightarrow> string" where
  "doc_attr Sections e_url_flag S =
    (if \<not> c_strcaseeq (name_of S) ''URL'' then one_attr (name_of S) (val_of S)
     else
       (case (if e_url_flag then found_var Sections ''E_URL'' else None) of
          Some ES \<Rightarrow> one_attr ''URL'' (printed ES)
        | None \<Rightarrow> one_attr ''URL'' (printed S)))"

text \<open>One section added to the text \<open>out\<close>, cut off at the end of the buffer of \<open>len\<close> bytes.\<close>

definition put_attr :: "nat \<Rightarrow> string \<Rightarrow> string \<Rightarrow> string" where
  "put_attr len out s = (if length out + 2 < len then out @ take (len - length out - 1) s else out)"

definition DpsDocToTextBuf :: "varlist \<Rightarrow> nat \<Rightarrow> bool \<Rightarrow> bool \<Rightarrow> string" where
  "DpsDocToTextBuf Sections method numsection_flag e_url_flag =
    (let vs = sent_vars method numsection_flag Sections; len = text_size vs;
         out = foldl (\<lambda>out S. put_attr len out (doc_attr Sections e_url_flag S)) ''<DOC'' vs
     in if len \<noteq> length out then out @ ''>'' else out)"

section \<open>Reading a document\<close>

definition text_var :: "string \<times> string option \<Rightarrow> dps_var" where
  "text_var x =
    (let data = (case snd x of None \<Rightarrow> [] | Some s \<Rightarrow> s)
     in zero_var\<lparr>v_name := Some (if c_strcaseeq (fst x) ''ID'' then ''DP_ID'' else fst x), v_val := Some data, v_txt_val := Some data\<rparr>)"

definition DpsDocFromTextBuf :: "varlist \<Rightarrow> string option \<Rightarrow> varlist" where
  "DpsDocFromTextBuf Sections textbuf =
    (case textbuf of
       None \<Rightarrow> Sections
     | Some s \<Rightarrow>
         (case DpsHTMLToken s DpsHTMLTOKInit of
            Some (DPS_HTML_TAG, _, tag) \<Rightarrow> foldl (\<lambda>L x. DpsVarListReplace L (text_var x)) Sections (tl (h_toks tag))
          | _ \<Rightarrow> Sections))"

section \<open>Categories\<close>

record catitem =
  c_rec_id :: int
  c_path :: string
  c_link :: string
  c_name :: string

definition cat_text :: "catitem \<Rightarrow> string" where
  "cat_text c =
    ''<CAT'' @ one_attr ''id'' (c_itoa (c_rec_id c)) @ one_attr ''path'' (c_path c) @ one_attr ''link'' (c_link c) @
    one_attr ''name'' (c_name c) @ ''>'' @ [CHR 0x0D, CHR 0x0A]"

definition DpsCatToTextBuf :: "nat \<Rightarrow> catitem list \<Rightarrow> string" where
  "DpsCatToTextBuf len Category = foldl (\<lambda>out c. out @ take (len - length out - 1) (cat_text c)) [] Category"

text \<open>
  \<^verbatim>\<open>strncpy\<close> into a field of 128 bytes. A value of 128 bytes or more fills the field without a
  NUL; the field then stands for its 128 bytes only.
\<close>

definition cat_field :: "catitem \<Rightarrow> string \<times> string option \<Rightarrow> catitem" where
  "cat_field c x =
    (let data = (case snd x of None \<Rightarrow> [] | Some s \<Rightarrow> s) in
     if fst x = ''id'' then c\<lparr>c_rec_id := atoi32 data\<rparr>
     else if fst x = ''path'' then c\<lparr>c_path := take 128 data\<rparr>
     else if fst x = ''link'' then c\<lparr>c_link := take 128 data\<rparr>
     else if fst x = ''name'' then c\<lparr>c_name := take 128 data\<rparr>
     else c)"

definition DpsCatFromTextBuf :: "catitem list \<Rightarrow> string option \<Rightarrow> catitem list" where
  "DpsCatFromTextBuf Category textbuf =
    (case textbuf of
       None \<Rightarrow> Category
     | Some s \<Rightarrow>
         (case DpsHTMLToken s DpsHTMLTOKInit of
            Some (DPS_HTML_TAG, _, tag) \<Rightarrow>
              Category @ [foldl cat_field \<lparr>c_rec_id = 0, c_path = [], c_link = [], c_name = []\<rparr> (tl (h_toks tag))]
          | _ \<Rightarrow> Category))"

section \<open>What is written\<close>

definition doc_var_ok :: "dps_var \<Rightarrow> bool" where
  "doc_var_ok S \<longleftrightarrow>
    v_name S \<noteq> None \<and> v_val S \<noteq> None \<and> attr_ok (name_of S) (val_of S) \<and> (v_curlen S = 0 \<or> length (val_of S) \<le> v_curlen S) \<and>
    \<not> c_strcaseeq (name_of S) ''ID'' \<and>
    (c_strcaseeq (name_of S) ''URL'' \<longrightarrow> name_of S = ''URL'' \<and> (v_txt_val S = None \<or> v_txt_val S = v_val S))"

definition doc_pairs :: "dps_var list \<Rightarrow> (string \<times> string) list" where
  "doc_pairs vs = map (\<lambda>S. (name_of S, val_of S)) vs"

lemma tag_attrs_one: "tag_attrs ((n, v) # kvs) = one_attr n v @ tag_attrs kvs"
  by (simp add: tag_attrs_def one_attr_def)

lemma tag_attrs_snoc: "tag_attrs (kvs @ [(n, v)]) = tag_attrs kvs @ one_attr n v"
  by (simp add: tag_attrs_def one_attr_def)

lemma put_attrs:
  assumes "\<forall>S\<in>set vs. doc_var_ok S" and "\<not> e_url_flag \<or> found_var Sections ''E_URL'' = None"
    and "length out + text_size vs \<le> len + 12"
  shows "foldl (\<lambda>out S. put_attr len out (doc_attr Sections e_url_flag S)) out vs = out @ tag_attrs (doc_pairs vs)"
  using assms(1,3)
proof (induction vs arbitrary: out)
  case Nil
  then show ?case by (simp add: doc_pairs_def tag_attrs_def)
next
  case (Cons S vs)
  have S: "doc_var_ok S" using Cons.prems(1) by simp
  have attr: "doc_attr Sections e_url_flag S = one_attr (name_of S) (val_of S)"
    using S assms(2) by (auto simp: doc_attr_def doc_var_ok_def printed_def val_of_def split: option.splits)
  have len: "length out + length (one_attr (name_of S) (val_of S)) + text_size vs + 28 \<le> len + 12"
    using Cons.prems(2) S by (auto simp: text_size_def doc_var_ok_def one_attr_def split: if_splits)
  have "text_size vs \<ge> 16" by (simp add: text_size_def)
  with len have put: "put_attr len out (doc_attr Sections e_url_flag S) = out @ one_attr (name_of S) (val_of S)"
    by (simp add: put_attr_def attr)
  show ?case
    using Cons.IH [of "out @ one_attr (name_of S) (val_of S)"] Cons.prems(1) len
    by (simp add: put doc_pairs_def tag_attrs_one)
qed

lemma doc_text:
  assumes "\<forall>S\<in>set (sent_vars method nf L). doc_var_ok S" and "\<not> ef \<or> found_var L ''E_URL'' = None"
  shows "DpsDocToTextBuf L method nf ef = ''<DOC'' @ tag_attrs (doc_pairs (sent_vars method nf L)) @ ''>''"
proof -
  let ?vs = "sent_vars method nf L"
  have "length (tag_attrs (doc_pairs vs)) + 16 \<le> text_size vs" if "\<forall>S\<in>set vs. doc_var_ok S" for vs
    using that by (induction vs) (auto simp: text_size_def doc_pairs_def tag_attrs_one tag_attrs_def doc_var_ok_def split: if_splits)
  from this [OF assms(1)] show ?thesis
    using put_attrs [OF assms, of "''<DOC''" "text_size ?vs"] by (simp add: DpsDocToTextBuf_def Let_def)
qed

section \<open>What is read\<close>

text \<open>A variable of a new name: the list keeps its contract, and the other names are not touched.\<close>

lemma add_new:
  assumes "vars_store L" and "v_name S = Some name" and "v_maxlen S = 0" and "found_var L name = None"
  shows "vars_store (DpsVarListReplace L S) \<and>
    (\<exists>v. found_var (DpsVarListReplace L S) name = Some v \<and> v_val v = v_val S) \<and>
    (\<forall>n. map c_tolower n \<noteq> map c_tolower name \<longrightarrow> found_var (DpsVarListReplace L S) n = found_var L n)"
proof -
  let ?v = "DpsVarCopy zero_var S" and ?r = "var_bucket name"
  have v: "v_name ?v = Some name" "v_maxlen ?v = 0" "v_name ?v \<noteq> None" "?r = var_bucket (name_of ?v)" "var_named name ?v" "v_val ?v = v_val S"
    using assms(2,3) by (simp_all add: DpsVarCopy_def zero_var_def name_of_def var_named_def copy_val_def)
  have "DpsVarListFind L name = None" using assms(4) by (simp add: found_var_def)
  then have eq: "DpsVarListReplace L S = append_var L ?r ?v"
    using assms(2) by (simp add: DpsVarListReplace_def DpsVarListAdd_def name_of_def)
  have ok: "vars_ok L" using assms(1) by (simp add: vars_store_def)
  have st: "vars_store (append_var L ?r ?v)" "found_var (append_var L ?r ?v) name = Some ?v"
    using append_var_store [OF assms(1) v(1,2) assms(4)] by simp_all
  have "found_var (append_var L ?r ?v) n = found_var L n" if "map c_tolower n \<noteq> map c_tolower name" for n
    by (rule found_other [OF assms(1) st(1) that])
       (use append_var_other append_var_set [OF ok v(3,4)] v(5) in auto)
  with st eq v(6) show ?thesis by simp
qed

abbreviation low :: "string \<Rightarrow> string" where "low \<equiv> map c_tolower"

abbreviation read_attr :: "varlist \<Rightarrow> string \<times> string option \<Rightarrow> varlist" where
  "read_attr \<equiv> \<lambda>L x. DpsVarListReplace L (text_var x)"

lemma read_attrs:
  assumes "vars_store L" and "distinct (map (low \<circ> fst) kvs)" and "\<forall>(k, v)\<in>set kvs. found_var L k = None \<and> \<not> c_strcaseeq k ''ID''"
  shows "vars_store (foldl read_attr L (map (\<lambda>(n, v). (n, Some v)) kvs)) \<and>
    (\<forall>(k, v)\<in>set kvs. DpsVarListFindStr (foldl read_attr L (map (\<lambda>(n, v). (n, Some v)) kvs)) k d = Some v) \<and>
    (\<forall>n. low n \<notin> (low \<circ> fst) ` set kvs \<longrightarrow> found_var (foldl read_attr L (map (\<lambda>(n, v). (n, Some v)) kvs)) n = found_var L n)"
  using assms
proof (induction kvs arbitrary: L)
  case Nil
  then show ?case by simp
next
  case (Cons x kvs)
  obtain k v where x: "x = (k, v)" by (cases x) auto
  let ?S = "text_var (k, Some v)"
  let ?L = "DpsVarListReplace L ?S"
  have S: "v_name ?S = Some k" "v_maxlen ?S = 0" "v_val ?S = Some v" "found_var L k = None"
    using Cons.prems(3) by (auto simp: x text_var_def zero_var_def)
  note new = add_new [OF Cons.prems(1) S(1,2,4)]
  have fresh: "low k \<notin> (low \<circ> fst) ` set kvs" using Cons.prems(2) by (simp add: x)
  have "\<forall>(k', v)\<in>set kvs. found_var ?L k' = None \<and> \<not> c_strcaseeq k' ''ID''"
  proof clarify
    fix k' v' assume "(k', v') \<in> set kvs"
    moreover from this have "low k' \<noteq> low k" using fresh by (force simp: image_iff)
    ultimately show "found_var ?L k' = None \<and> \<not> c_strcaseeq k' ''ID''" using new Cons.prems(3) by (auto simp: x)
  qed
  then have ih: "vars_store (foldl read_attr ?L (map (\<lambda>(n, v). (n, Some v)) kvs))"
    "\<forall>(k, v)\<in>set kvs. DpsVarListFindStr (foldl read_attr ?L (map (\<lambda>(n, v). (n, Some v)) kvs)) k d = Some v"
    "\<forall>n. low n \<notin> (low \<circ> fst) ` set kvs \<longrightarrow> found_var (foldl read_attr ?L (map (\<lambda>(n, v). (n, Some v)) kvs)) n = found_var ?L n"
    using Cons.IH [of ?L] new Cons.prems(2) by (simp_all add: x)
  moreover have "DpsVarListFindStr (foldl read_attr ?L (map (\<lambda>(n, v). (n, Some v)) kvs)) k d = Some v"
    using ih(3) fresh new S(3) by (auto simp: DpsVarListFindStr_def)
  ultimately show ?case using new by (auto simp: x)
qed

lemma Init_store: "vars_store DpsVarListInit"
  by (simp add: vars_store_def vars_ok_def DpsVarListInit_def cmp_sorted_def)

lemma Init_found: "found_var DpsVarListInit n = None"
  by (simp add: found_None [OF Init_store]) (simp add: DpsVarListInit_def)

lemma DOC_ok: "attr_ok ''DOC'' []" "attr_ok ''CAT'' []"
  by (simp_all add: attr_ok_def name_char_def)

text \<open>
  C29. A document survives its transfer: read into an empty document, the text of a document gives for every section that
  is sent its value, and nothing else. The names of the sections sent are different and have no character that ends a
  name, the values have no quote, and there are at most 63 of them.
\<close>

theorem DpsDocFromTextBuf_DpsDocToTextBuf:
  assumes "\<forall>S\<in>set (sent_vars method nf L). doc_var_ok S" and "distinct (map (low \<circ> name_of) (sent_vars method nf L))"
    and "length (sent_vars method nf L) < 64" and "\<not> ef \<or> found_var L ''E_URL'' = None"
    and "M = DpsDocFromTextBuf DpsVarListInit (Some (DpsDocToTextBuf L method nf ef))"
  shows "(\<forall>S\<in>set (sent_vars method nf L). DpsVarListFindStr M (name_of S) d = v_val S) \<and>
    (\<forall>n. low n \<notin> (low \<circ> name_of) ` set (sent_vars method nf L) \<longrightarrow> DpsVarListFindStr M n d = d)"
proof -
  let ?vs = "sent_vars method nf L"
  have attrs: "\<forall>(n, v)\<in>set (doc_pairs ?vs). attr_ok n v" using assms(1) by (auto simp: doc_pairs_def doc_var_ok_def)
  obtain t where t: "DpsHTMLToken (DpsDocToTextBuf L method nf ef) DpsHTMLTOKInit = Some (DPS_HTML_TAG, [], t)"
    "h_toks t = (''DOC'', None) # map (\<lambda>(n, v). (n, Some v)) (doc_pairs ?vs)"
    using tag_read_back [OF DOC_ok(1) _ attrs, of "[]" DpsHTMLTOKInit] assms(3)
    unfolding doc_text [OF assms(1,4)] by (auto simp: doc_pairs_def DPS_MAXTAGVAL_def)
  have M: "M = foldl read_attr DpsVarListInit (map (\<lambda>(n, v). (n, Some v)) (doc_pairs ?vs))"
    by (simp add: assms(5) DpsDocFromTextBuf_def t)
  have pairs: "distinct (map (low \<circ> fst) (doc_pairs ?vs))" "\<forall>(k, v)\<in>set (doc_pairs ?vs). found_var DpsVarListInit k = None \<and> \<not> c_strcaseeq k ''ID''"
    using assms(1,2) by (auto simp: doc_pairs_def comp_def Init_found doc_var_ok_def)
  have val: "v_val S = Some (val_of S)" if "S \<in> set ?vs" for S using assms(1) that by (auto simp: doc_var_ok_def val_of_def)
  from read_attrs [OF Init_store pairs, of d] have
    "\<forall>S\<in>set ?vs. DpsVarListFindStr M (name_of S) d = Some (val_of S)"
    "\<forall>n. low n \<notin> (low \<circ> name_of) ` set ?vs \<longrightarrow> found_var M n = None"
    unfolding M by (auto simp: doc_pairs_def Init_found image_image)
  with val show ?thesis by (simp add: DpsVarListFindStr_def)
qed

definition sample_doc :: "string \<Rightarrow> varlist" where
  "sample_doc title r =
    (if r = 115 then [zero_var\<lparr>v_name := Some ''Status'', v_val := Some ''200''\<rparr>]
     else if r = 116 then [zero_var\<lparr>v_name := Some ''Title'', v_val := Some title\<rparr>]
     else [])"

lemma sample_sent:
  "sent_vars DPS_METHOD_GET False (sample_doc ''A page'') =
    [zero_var\<lparr>v_name := Some ''Status'', v_val := Some ''200''\<rparr>, zero_var\<lparr>v_name := Some ''Title'', v_val := Some ''A page''\<rparr>]"
  by code_simp

theorem DpsDocFromTextBuf_DpsDocToTextBuf_witness:
  "DpsVarListFindStr (DpsDocFromTextBuf DpsVarListInit (Some (DpsDocToTextBuf (sample_doc ''A page'') DPS_METHOD_GET False False))) ''Title'' None = Some ''A page''"
proof -
  have ok: "\<forall>S\<in>set (sent_vars DPS_METHOD_GET False (sample_doc ''A page'')). doc_var_ok S"
    unfolding sample_sent by code_simp
  have "distinct (map (low \<circ> name_of) (sent_vars DPS_METHOD_GET False (sample_doc ''A page'')))"
    unfolding sample_sent by code_simp
  from DpsDocFromTextBuf_DpsDocToTextBuf [OF ok this _ _ refl, of False None] show ?thesis
    unfolding sample_sent by (simp add: name_of_def zero_var_def)
qed

lemma atoi_itoa: "- (2 ^ 31) \<le> i \<Longrightarrow> i < 2 ^ 31 \<Longrightarrow> atoi32 (c_itoa i) = i"
proof -
  assume i: "- (2 ^ 31) \<le> i" "i < 2 ^ 31"
  have digits: "c_atoi (nat_digits n) = int n" "c_atoi (CHR ''-'' # nat_digits n) = - int n" for n
  proof -
    obtain c s where cs: "nat_digits n = c # s" "c_isdigit c" using nat_digits_first [of n] nat_digits_digit [of n] by auto
    then have "\<not> c_isspace c" "c \<noteq> CHR ''-''" "c \<noteq> CHR ''+''" and tw: "takeWhile c_isdigit s = s"
      using nat_digits_digit [of n] by (auto simp: takeWhile_eq_all_conv list_all_iff) (auto simp: c_isspace_def c_isdigit_def)
    then show "c_atoi (nat_digits n) = int n" "c_atoi (CHR ''-'' # nat_digits n) = - int n"
      using cs digits_val_digits [of n] by (auto simp: c_atoi_def Let_def c_isspace_def [of "CHR ''-''"] tw)
  qed
  have "c_atoi (c_itoa i) = i" by (simp add: c_itoa_def digits)
  then show ?thesis using i by (simp add: atoi32_def sint_sbintrunc' signed_take_bit_int_eq_self)
qed

text \<open>
  C31. A category survives its transfer: the text of one item is read back as this item, whatever follows it, if
  its strings have no quote and fit in their fields and the number is a 32-bit one.
\<close>

theorem DpsCatFromTextBuf_DpsCatToTextBuf:
  assumes "- (2 ^ 31) \<le> c_rec_id c" and "c_rec_id c < 2 ^ 31" and "\<forall>s\<in>{c_path c, c_link c, c_name c}. CHR 0x22 \<notin> set s \<and> length s < 128"
    and "length (cat_text c) < len"
  shows "DpsCatFromTextBuf Category (Some (DpsCatToTextBuf len [c] @ rest)) = Category @ [c]"
proof -
  let ?kvs = "[(''id'', c_itoa (c_rec_id c)), (''path'', c_path c), (''link'', c_link c), (''name'', c_name c)]"
  have eq: "DpsCatToTextBuf len [c] @ rest = CHR ''<'' # ''CAT'' @ tag_attrs ?kvs @ CHR ''>'' # [CHR 0x0D, CHR 0x0A] @ rest"
    using assms(4) by (simp add: DpsCatToTextBuf_def cat_text_def tag_attrs_one) (simp add: tag_attrs_def)
  have "CHR 0x22 \<notin> set (nat_digits n)" for n
    using nat_digits_digit [of n] by (auto simp: list_all_iff c_isdigit_def)
  then have id: "CHR 0x22 \<notin> set (c_itoa i)" for i by (simp add: c_itoa_def)
  have "\<forall>(n, v)\<in>set ?kvs. attr_ok n v" using assms(3) id by (auto simp: attr_ok_def name_char_def)
  from tag_read_back [OF DOC_ok(2) _ this, of "[CHR 0x0D, CHR 0x0A] @ rest" DpsHTMLTOKInit] obtain t where
    t: "DpsHTMLToken (DpsCatToTextBuf len [c] @ rest) DpsHTMLTOKInit = Some (DPS_HTML_TAG, [CHR 0x0D, CHR 0x0A] @ rest, t)"
    "h_toks t = (''CAT'', None) # map (\<lambda>(n, v). (n, Some v)) ?kvs"
    unfolding eq by (auto simp: DPS_MAXTAGVAL_def)
  have "atoi32 (c_itoa (c_rec_id c)) = c_rec_id c" using assms(1,2) by (rule atoi_itoa)
  then show ?thesis using assms(3) by (simp add: DpsCatFromTextBuf_def t cat_field_def)
qed

theorem DpsCatFromTextBuf_DpsCatToTextBuf_witness:
  "DpsCatFromTextBuf [] (Some (DpsCatToTextBuf 100 [\<lparr>c_rec_id = 7, c_path = ''0102'', c_link = [], c_name = ''News''\<rparr>] @ [])) =
    [] @ [\<lparr>c_rec_id = 7, c_path = ''0102'', c_link = [], c_name = ''News''\<rparr>]"
  by (rule DpsCatFromTextBuf_DpsCatToTextBuf) code_simp+

text \<open>Findings.\<close>

lemma quote_text:
  "DpsDocToTextBuf (sample_doc [CHR ''a'', CHR 0x22, CHR ''b'']) DPS_METHOD_GET False False =
    ''<DOC'' @ one_attr ''Status'' ''200'' @ one_attr ''Title'' [CHR ''a'', CHR 0x22, CHR ''b''] @ ''>''"
  by code_simp

lemma quote_cuts_value:
  "map_option (\<lambda>(ty, r, t). h_toks t) (DpsHTMLToken (DpsDocToTextBuf (sample_doc [CHR ''a'', CHR 0x22, CHR ''b'']) DPS_METHOD_GET False False) DpsHTMLTOKInit) =
    Some [(''DOC'', None), (''Status'', Some ''200''), (''Title'', Some ''a''), ([CHR ''b'', CHR 0x22], None)]"
  unfolding quote_text by code_simp

end
