(* ===== verification/Dps_Match.thy ===== *)
theory Dps_Match
  imports Dps_Href Dps_Vars
begin

text \<open>
  Matching rules, \<^verbatim>\<open>src/match.c\<close>: one rule compiled, tried and applied, and the lists of rules
  that filters, aliases, MIME types and sections use. The regular expressions and
  \<^verbatim>\<open>inet_net_pton\<close> of the C library are parameters, the record \<open>match_lib\<close>. The program is
  built without international domain names. A result is \<^verbatim>\<open>DPS_OK\<close>, 0, or \<^verbatim>\<open>DPS_ERROR\<close>, 1.
  A rule for a code-point string, \<^verbatim>\<open>DPS_UNIMATCH\<close>, is not modelled, nor is the search in the
  sections of a document.
\<close>

section \<open>Rules\<close>

definition DPS_MATCH_FULL :: int where "DPS_MATCH_FULL = 0"
definition DPS_MATCH_BEGIN :: int where "DPS_MATCH_BEGIN = 1"
definition DPS_MATCH_SUBSTR :: int where "DPS_MATCH_SUBSTR = 2"
definition DPS_MATCH_END :: int where "DPS_MATCH_END = 3"
definition DPS_MATCH_REGEX :: int where "DPS_MATCH_REGEX = 4"
definition DPS_MATCH_WILD :: int where "DPS_MATCH_WILD = 5"
definition DPS_MATCH_SUBNET :: int where "DPS_MATCH_SUBNET = 6"

lemmas match_types = DPS_MATCH_FULL_def DPS_MATCH_BEGIN_def DPS_MATCH_SUBSTR_def DPS_MATCH_END_def
  DPS_MATCH_REGEX_def DPS_MATCH_WILD_def DPS_MATCH_SUBNET_def

record dps_match =
  m_type :: int
  m_nomatch :: int
  m_compiled :: bool
  m_section :: "string option"
  m_subsection :: "string option"
  m_pattern :: string
  m_pat_len :: nat
  m_arg :: "string option"
  m_dbaddr :: "string option"
  m_server_id :: int
  m_case_sense :: nat
  m_last :: nat
  m_loose :: nat

text \<open>
  The library: whether a pattern compiles, with or without regard to case; the parts of a match,
  the whole first, at most as many as are asked for; and the address and the bits of a network.
\<close>

record match_lib =
  re_comp :: "string \<Rightarrow> bool \<Rightarrow> bool"
  re_exec :: "string \<Rightarrow> bool \<Rightarrow> string \<Rightarrow> nat \<Rightarrow> (int \<times> int) list option"
  net_pton :: "string \<Rightarrow> (u32 \<times> nat) option"

definition DpsMatchComp :: "match_lib \<Rightarrow> dps_match \<Rightarrow> int \<times> dps_match" where
  "DpsMatchComp lib M =
    (if m_type M = DPS_MATCH_REGEX then
       (if re_comp lib (m_pattern M) (m_case_sense M \<noteq> 0) then (0, M\<lparr>m_compiled := True\<rparr>) else (1, M))
     else if m_type M \<in> {DPS_MATCH_WILD, DPS_MATCH_BEGIN, DPS_MATCH_END, DPS_MATCH_SUBSTR, DPS_MATCH_FULL} then (0, M)
     else (1, M))"

section \<open>Trying a rule\<close>

definition DPS_NSUBS :: nat where "DPS_NSUBS = 10"

definition no_parts :: "nat \<Rightarrow> (int \<times> int) list \<Rightarrow> (int \<times> int) list" where
  "no_parts nparts Parts = replicate nparts (- 1, - 1) @ drop nparts Parts"

definition c_strncmp :: "string \<Rightarrow> string \<Rightarrow> nat \<Rightarrow> int" where
  "c_strncmp a b n = c_strcmp (take n a) (take n b)"

definition c_strncasecmp :: "string \<Rightarrow> string \<Rightarrow> nat \<Rightarrow> int" where
  "c_strncasecmp a b n = c_strcasecmp (take n a) (take n b)"

definition not_int :: "int \<Rightarrow> int" where
  "not_int n = (if n = 0 then 1 else 0)"

text \<open>
  The result, 0 for a match, the rule, which a regular expression may be compiled for, and the
  parts. The bits of a network are not 0, where the shift by the width of the word is undefined.
\<close>

definition DpsMatchExec ::
    "match_lib \<Rightarrow> dps_match \<Rightarrow> string \<Rightarrow> string \<Rightarrow> u32 option \<Rightarrow> nat \<Rightarrow> (int \<times> int) list \<Rightarrow> int \<times> dps_match \<times> (int \<times> int) list" where
  "DpsMatchExec lib M str net_string sin nparts Parts =
    (let (rc, M) = (if m_type M = DPS_MATCH_REGEX \<and> \<not> m_compiled M then DpsMatchComp lib M else (0, M));
         pattern = m_pattern M; cs = (m_case_sense M \<noteq> 0); none = no_parts nparts Parts
     in if rc \<noteq> 0 then (rc, M, Parts)
        else
          (let (res, Parts) =
             (if m_type M = DPS_MATCH_REGEX then
                (let n = min nparts DPS_NSUBS in
                 case re_exec lib pattern cs str n of
                   None \<Rightarrow> (1, no_parts n Parts)
                 | Some subs \<Rightarrow> (0, take n subs @ drop n Parts))
              else if m_type M = DPS_MATCH_WILD then
                (let res = (if cs then DpsWildCaseCmp str pattern else DpsWildCmp str pattern)
                 in (if res = - 1 then 1 else res, none))
              else if m_type M = DPS_MATCH_SUBNET then
                (case (sin, net_pton lib pattern) of
                   (Some addr, Some (net, bits)) \<Rightarrow> (if addr AND push_bit (32 - bits) 0xFFFFFFFF = net then 0 else 1, none)
                 | _ \<Rightarrow> (DpsWildCmp net_string pattern, none))
              else if m_type M = DPS_MATCH_BEGIN then
                (if cs then c_strncasecmp pattern str (m_pat_len M) else c_strncmp pattern str (m_pat_len M), none)
              else if m_type M = DPS_MATCH_FULL then
                (if cs then c_strcasecmp pattern str else c_strcmp pattern str, none)
              else if m_type M = DPS_MATCH_END then
                (if length str < m_pat_len M then 1
                 else
                   (let se = drop (length str - m_pat_len M) str
                    in if cs then c_strcasecmp pattern se else c_strcmp pattern se), none)
              else if m_type M = DPS_MATCH_SUBSTR then
                (if cs then (if c_strstr (map c_tolower str) (map c_tolower pattern) = None then 1 else 0)
                 else (if c_strstr str pattern = None then 1 else 0), none)
              else (0, none))
           in (if m_nomatch M \<noteq> 0 then not_int res else res, M, Parts)))"

section \<open>Applying a rule\<close>

text \<open>What a reference to part \<open>sub\<close> stands for; the array has ten parts.\<close>

definition part_of :: "string \<Rightarrow> (int \<times> int) list \<Rightarrow> nat \<Rightarrow> string" where
  "part_of str Parts sub =
    (let (b, e) = Parts ! sub in if b > - 1 \<and> e > b then take (nat (e - b)) (drop (nat b) str) else [])"

definition ref_digit :: "string \<Rightarrow> bool" where
  "ref_digit r \<longleftrightarrow> CHR ''0'' \<noteq> char_at r 0 \<and> c_isdigit (char_at r 0)"

function subst_loop :: "string \<Rightarrow> (int \<times> int) list \<Rightarrow> nat \<Rightarrow> string \<Rightarrow> string" where
  "subst_loop str Parts avail repl =
    (if repl = [] \<or> avail = 0 then []
     else if hd repl = CHR ''$'' \<and> ref_digit (tl repl) then
       (let seg = take avail (part_of str Parts (ord (char_at repl 1) - 48))
        in seg @ subst_loop str Parts (avail - length seg) (drop 2 repl))
     else hd repl # subst_loop str Parts (avail - 1) (tl repl))"
  by pat_completeness auto
termination by (relation "measure (\<lambda>(str, Parts, avail, repl). length repl)") auto

declare subst_loop.simps [simp del]

text \<open>
  The length and the contents of the result in a buffer of \<open>sz\<close> bytes. The length of a formatted
  result is the one it would have with room for all of it; in a buffer of one byte, where
  \<^verbatim>\<open>dps_snprintf\<close> gets the size 0 and writes its NUL in front of the buffer, the contents are not
  those of C.
\<close>

definition DpsMatchApply :: "nat \<Rightarrow> string \<Rightarrow> string \<Rightarrow> dps_match \<Rightarrow> (int \<times> int) list \<Rightarrow> nat \<times> string" where
  "DpsMatchApply sz str rpl M Parts =
    (if sz = 0 then (0, [])
     else if m_type M = DPS_MATCH_REGEX then (let r = subst_loop str Parts (sz - 1) rpl in (length r, r))
     else if m_type M = DPS_MATCH_BEGIN then
       (let r = rpl @ drop (m_pat_len M) str in (length r, take (sz - 2) r))
     else if m_type M = DPS_MATCH_SUBSTR \<or> m_type M = DPS_MATCH_FULL then (length rpl, take (sz - 2) rpl)
     else (0, []))"

section \<open>Lists of rules\<close>

definition opt_str :: "string option \<Rightarrow> string" where
  "opt_str x = (case x of None \<Rightarrow> [] | Some s \<Rightarrow> s)"

definition same_rule :: "dps_match \<Rightarrow> dps_match \<Rightarrow> bool" where
  "same_rule N M \<longleftrightarrow>
    c_strcmp (m_pattern N) (m_pattern M) = 0 \<and> c_strcmp (opt_str (m_subsection N)) (opt_str (m_subsection M)) = 0 \<and>
    c_strcmp (opt_str (m_arg N)) (opt_str (m_arg M)) = 0 \<and> m_type N = m_type M \<and> m_case_sense N = m_case_sense M \<and>
    m_nomatch N = m_nomatch M"

text \<open>\<open>action\<close>: with an agent, the call of the data base, which returns its result and a number.\<close>

definition DpsMatchListAdd ::
    "match_lib \<Rightarrow> (dps_match \<Rightarrow> int \<times> int) option \<Rightarrow> dps_match list \<Rightarrow> dps_match \<Rightarrow> int \<times> dps_match list" where
  "DpsMatchListAdd lib action L M =
    (if list_ex (\<lambda>N. same_rule N M) L then (0, L)
     else
       (let N = M\<lparr>m_pat_len := length (m_pattern M), m_compiled := False, m_server_id := 0\<rparr>;
            (rc, N) = (case action of None \<Rightarrow> (0, N) | Some f \<Rightarrow> (let (rc, i) = f N in (rc, N\<lparr>m_server_id := i\<rparr>)))
        in if rc \<noteq> 0 then (rc, L @ [N])
           else (let (rc, N) = DpsMatchComp lib N in (rc, L @ [N]))))"

definition DpsMatchListInit :: "dps_match list" where
  "DpsMatchListInit = []"

text \<open>The position of the first rule that matches, the list and the parts.\<close>

fun DpsMatchListFind ::
    "match_lib \<Rightarrow> dps_match list \<Rightarrow> string \<Rightarrow> nat \<Rightarrow> (int \<times> int) list \<Rightarrow> nat option \<times> dps_match list \<times> (int \<times> int) list" where
  "DpsMatchListFind lib [] str nparts Parts = (None, [], Parts)"
| "DpsMatchListFind lib (M # L) str nparts Parts =
    (let (res, M, Parts) = DpsMatchExec lib M str str None nparts Parts in
     if res = 0 then (Some 0, M # L, Parts)
     else (let (i, L, Parts) = DpsMatchListFind lib L str nparts Parts in (map_option Suc i, M # L, Parts)))"

section \<open>What a rule says\<close>

definition fold_case :: "dps_match \<Rightarrow> string \<Rightarrow> string" where
  "fold_case M s = (if m_case_sense M \<noteq> 0 then map c_tolower s else s)"

definition rule_says :: "dps_match \<Rightarrow> string \<Rightarrow> bool" where
  "rule_says M s =
    (let p = fold_case M (m_pattern M); s = fold_case M s in
     if m_type M = DPS_MATCH_FULL then s = p
     else if m_type M = DPS_MATCH_BEGIN then prefix p s
     else if m_type M = DPS_MATCH_END then suffix p s
     else if m_type M = DPS_MATCH_SUBSTR then sublist p s
     else glob (\<lambda>c. c) (=) True p s)"

definition rule_ok :: "dps_match \<Rightarrow> bool" where
  "rule_ok M \<longleftrightarrow> m_pat_len M = length (m_pattern M) \<and>
    m_type M \<in> {DPS_MATCH_FULL, DPS_MATCH_BEGIN, DPS_MATCH_END, DPS_MATCH_SUBSTR, DPS_MATCH_WILD} \<and>
    (m_type M = DPS_MATCH_WILD \<longrightarrow> CHR ''$'' \<notin> set (m_pattern M))"

lemma strcmp_0: "c_strcmp a b = 0 \<longleftrightarrow> a = b"
  by (induction a b rule: c_strcmp.induct) auto

lemma strncmp_prefix: "c_strncmp p s (length p) = 0 \<longleftrightarrow> prefix p s"
  by (auto simp: c_strncmp_def strcmp_0 prefix_def) (metis append_take_drop_id)

lemma strncasecmp_prefix: "c_strncasecmp p s (length p) = 0 \<longleftrightarrow> prefix (map c_tolower p) (map c_tolower s)"
  using strncmp_prefix [of "map c_tolower p" "map c_tolower s"]
  by (simp add: c_strncasecmp_def c_strncmp_def strcmp_0 strcasecmp_0_iff take_map)

lemma suffix_as_drop: "suffix p s \<longleftrightarrow> length p \<le> length s \<and> drop (length s - length p) s = p"
proof
  assume "suffix p s"
  then show "length p \<le> length s \<and> drop (length s - length p) s = p" by (auto simp: suffix_def)
next
  assume *: "length p \<le> length s \<and> drop (length s - length p) s = p"
  then have "s = take (length s - length p) s @ p" by (metis append_take_drop_id)
  then show "suffix p s" by (rule suffixI)
qed

lemma tolower_dollar: "CHR ''$'' \<notin> set w \<Longrightarrow> CHR ''$'' \<notin> set (map c_tolower w)"
proof -
  have "c = CHR ''$''" if "c_tolower c = CHR ''$''" for c
  proof (cases "c_isupper c")
    case True
    then have "ord (c_tolower c) = ord c + 32" "65 \<le> ord c" by (simp_all add: c_tolower_def c_isupper_def)
    then show ?thesis unfolding that by simp
  qed (use that in \<open>simp add: c_tolower_def\<close>)
  moreover assume "CHR ''$'' \<notin> set w"
  ultimately show ?thesis by (metis (no_types) image_iff list.set_map)
qed

lemma strtolower_c: "dps_strtolower w = map c_tolower w"
  by (simp add: dps_strtolower_map dps_tolower_c)

lemma wild_0: "CHR ''$'' \<notin> set w \<Longrightarrow> DpsWildCmp s w = 0 \<longleftrightarrow> glob (\<lambda>c. c) (=) True w s"
  using wild_correct(1) [of "\<lambda>c. c" w "(=)" True s] by (simp add: DpsWildCmp_def)

lemma wild_case_0: "CHR ''$'' \<notin> set w \<Longrightarrow> DpsWildCaseCmp s w = 0 \<longleftrightarrow> glob (\<lambda>c. c) (=) True (map c_tolower w) (map c_tolower s)"
  using wild_0 [OF tolower_dollar, of w "map c_tolower s"] wild_map(1) [OF keeps_wild_tolower, of "\<lambda>a b. dps_tolower a = dps_tolower b" True s w]
  by (simp add: DpsWildCaseCmp_def DpsWildCmp_def dps_tolower_c [abs_def])

lemma exec_says:
  assumes "rule_ok M"
  shows "fst (DpsMatchExec lib M str net sin nparts Parts) = 0 \<longleftrightarrow> (rule_says M str \<longleftrightarrow> m_nomatch M = 0)"
    and "fst (snd (DpsMatchExec lib M str net sin nparts Parts)) = M"
proof -
  have len: "m_pat_len M = length (m_pattern M)" using assms by (simp add: rule_ok_def)
  consider "m_type M = DPS_MATCH_FULL" | "m_type M = DPS_MATCH_BEGIN" | "m_type M = DPS_MATCH_END"
    | "m_type M = DPS_MATCH_SUBSTR" | "m_type M = DPS_MATCH_WILD" "CHR ''$'' \<notin> set (m_pattern M)"
    using assms by (auto simp: rule_ok_def)
  then show "fst (DpsMatchExec lib M str net sin nparts Parts) = 0 \<longleftrightarrow> (rule_says M str \<longleftrightarrow> m_nomatch M = 0)"
  proof cases
    case 1
    then show ?thesis
      by (auto simp: DpsMatchExec_def rule_says_def fold_case_def match_types not_int_def strcmp_0 strcasecmp_0_iff Let_def)
  next
    case 2
    then show ?thesis
      by (auto simp: DpsMatchExec_def rule_says_def fold_case_def match_types not_int_def len strncmp_prefix strncasecmp_prefix Let_def)
  next
    case 3
    have d: "map c_tolower (drop n s) = map c_tolower p \<longleftrightarrow> drop n (map c_tolower s) = map c_tolower p" for n s p
      by (simp add: drop_map)
    show ?thesis using 3
      by (auto simp: DpsMatchExec_def rule_says_def fold_case_def match_types not_int_def len suffix_as_drop strcmp_0
          strcasecmp_0_iff drop_map Let_def)
  next
    case 4
    then show ?thesis
      by (auto simp: DpsMatchExec_def rule_says_def fold_case_def match_types not_int_def c_strstr_None_iff Let_def)
  next
    case 5
    then show ?thesis
      by (auto simp: DpsMatchExec_def rule_says_def fold_case_def match_types not_int_def wild_0 wild_case_0 Let_def
          simp flip: wild_0 wild_case_0)
  qed
  show "fst (snd (DpsMatchExec lib M str net sin nparts Parts)) = M"
    using assms by (auto simp: DpsMatchExec_def rule_ok_def match_types Let_def split: prod.splits)
qed

section \<open>Substitution\<close>

text \<open>The replacement with every reference to a part in it expanded, whatever the room.\<close>

fun expand :: "string \<Rightarrow> (int \<times> int) list \<Rightarrow> string \<Rightarrow> string" where
  "expand str Parts [] = []"
| "expand str Parts [c] = [c]"
| "expand str Parts (c # d # r) =
    (if c = CHR ''$'' \<and> ref_digit (d # r) then part_of str Parts (ord d - 48) @ expand str Parts r
     else c # expand str Parts (d # r))"

lemma subst_expand: "subst_loop str Parts avail repl = take avail (expand str Parts repl)"
proof (induction str Parts repl arbitrary: avail rule: expand.induct)
  case (1 str Parts)
  then show ?case by (simp add: subst_loop.simps)
next
  case (2 str Parts c)
  have "\<not> ref_digit []" by (simp add: ref_digit_def char_at_def c_isdigit_def)
  then show ?case by (simp add: subst_loop.simps take_Cons')
next
  case (3 str Parts c d r)
  show ?case
  proof (cases "c = CHR ''$'' \<and> ref_digit (d # r)")
    case True
    then show ?thesis using "3.IH"(1) by (subst subst_loop.simps) (auto simp: char_at_def Let_def min_def)
  next
    case False
    then show ?thesis using "3.IH"(2) by (auto simp: subst_loop.simps [of _ _ _ "c # d # r"] take_Cons')
  qed
qed

section \<open>What rules and their lists do\<close>

text \<open>
  A rule of any kind but regular expressions and networks matches exactly the strings its kind says: the
  pattern itself, the strings that begin or end with it or contain it, and those of the pattern language; with
  \<^verbatim>\<open>case_sense\<close> set both strings are taken in lower case, and a negated rule matches the others.
\<close>

theorem DpsMatchExec_says:
  assumes "rule_ok M"
  shows "fst (DpsMatchExec lib M str net sin nparts Parts) = 0 \<longleftrightarrow> (rule_says M str \<longleftrightarrow> m_nomatch M = 0)"
  by (rule exec_says(1) [OF assms])

definition empty_match :: dps_match where
  "empty_match = \<lparr>m_type = DPS_MATCH_FULL, m_nomatch = 0, m_compiled = False, m_section = None, m_subsection = None,
     m_pattern = [], m_pat_len = 0, m_arg = None, m_dbaddr = None, m_server_id = 0, m_case_sense = 0, m_last = 0, m_loose = 0\<rparr>"

text \<open>
  A list of such rules is searched for the first that matches: the position found is that of a rule that
  matches, none before it does, and when none is found none matches. The rules stay as they are.
\<close>

theorem DpsMatchListFind_first:
  assumes "list_all rule_ok L"
  shows "(case fst (DpsMatchListFind lib L str nparts Parts) of
      None \<Rightarrow> \<not> list_ex (\<lambda>M. rule_says M str \<longleftrightarrow> m_nomatch M = 0) L
    | Some i \<Rightarrow> i < length L \<and> (rule_says (L ! i) str \<longleftrightarrow> m_nomatch (L ! i) = 0) \<and>
        \<not> list_ex (\<lambda>M. rule_says M str \<longleftrightarrow> m_nomatch M = 0) (take i L)) \<and>
    fst (snd (DpsMatchListFind lib L str nparts Parts)) = L"
  using assms
proof (induction L arbitrary: Parts)
  case (Cons M L)
  then have ok: "rule_ok M" by simp
  obtain res Parts' where e: "DpsMatchExec lib M str str None nparts Parts = (res, M, Parts')"
    using exec_says(2) [OF ok, of lib str str None nparts Parts] by (cases "DpsMatchExec lib M str str None nparts Parts") auto
  have r: "res = 0 \<longleftrightarrow> (rule_says M str \<longleftrightarrow> m_nomatch M = 0)"
    using exec_says(1) [OF ok, of lib str str None nparts Parts] by (simp add: e)
  obtain i L' P where f: "DpsMatchListFind lib L str nparts Parts' = (i, L', P)"
    by (cases "DpsMatchListFind lib L str nparts Parts'") auto
  show ?case
  proof (cases "res = 0")
    case True
    with r show ?thesis by (simp add: e)
  next
    case False
    with r Cons.IH [of Parts'] Cons.prems show ?thesis by (cases i) (auto simp: e f)
  qed
qed simp

text \<open>
  The result of a regular expression's rule is the replacement with every reference from $1 to $9 expanded,
  cut off so that it fits in the buffer with its NUL.
\<close>

theorem DpsMatchApply_regex:
  assumes "m_type M = DPS_MATCH_REGEX" and "0 < sz"
  shows "DpsMatchApply sz str rpl M Parts = (length (take (sz - 1) (expand str Parts rpl)), take (sz - 1) (expand str Parts rpl))"
  using assms by (simp add: DpsMatchApply_def subst_expand Let_def)

text \<open>
  The value \<^verbatim>\<open>Case\<close> of a filter, which sets \<^verbatim>\<open>case_sense\<close>, makes its comparison insensitive to
  case, and \<^verbatim>\<open>NoCase\<close> sensitive.
\<close>

theorem case_sense_folds:
  "fst (DpsMatchExec lib (empty_match\<lparr>m_pattern := ''A'', m_pat_len := 1, m_case_sense := 1\<rparr>) ''a'' ''a'' None 0 []) = 0 \<and>
   fst (DpsMatchExec lib (empty_match\<lparr>m_pattern := ''A'', m_pat_len := 1, m_case_sense := 0\<rparr>) ''a'' ''a'' None 0 []) \<noteq> 0"
proof -
  have ok: "rule_ok (empty_match\<lparr>m_pattern := ''A'', m_pat_len := 1, m_case_sense := n\<rparr>)" for n
    by (simp add: rule_ok_def empty_match_def match_types)
  have "c_tolower CHR ''A'' = CHR ''a''" "c_tolower CHR ''a'' = CHR ''a''" by code_simp+
  then show ?thesis
    unfolding exec_says(1) [OF ok] by (simp add: rule_says_def fold_case_def empty_match_def match_types)
qed

text \<open>
  Two rules that differ in the section only are taken for the same one: the second is not added. A rule whose
  pattern does not compile is reported as an error, but it stays in the list.
\<close>

theorem DpsMatchListAdd_section_ignored:
  "DpsMatchListAdd lib action [empty_match\<lparr>m_section := Some ''title''\<rparr>] (empty_match\<lparr>m_section := Some ''body''\<rparr>) =
     (0, [empty_match\<lparr>m_section := Some ''title''\<rparr>])"
  by (simp add: DpsMatchListAdd_def same_rule_def empty_match_def strcmp_0)

theorem DpsMatchListAdd_error_kept:
  "\<not> re_comp lib ''('' True \<Longrightarrow>
   (let (rc, L) = DpsMatchListAdd lib None [] (empty_match\<lparr>m_type := DPS_MATCH_REGEX, m_pattern := ''('', m_case_sense := 1\<rparr>)
    in rc = 1 \<and> length L = 1)"
  by (simp add: DpsMatchListAdd_def DpsMatchComp_def empty_match_def)

end
