(* ===== verification/Spec2Isabelle.thy ===== *)
theory Spec2Isabelle
  imports Dps_Wild Dps_UrlPath Dps_UrlParse Dps_Codec Dps_Boolean Dps_BaseMap Dps_Vars Dps_Calendar Dps_Href Dps_Sgml
    Dps_Robots Dps_Rank Dps_Conv Dps_DocText Dps_Match
begin

text \<open>
  DataparkSearch, a web search engine in C, as definitions of HOL.

  The program. \<^verbatim>\<open>indexer\<close> fetches documents, splits them into words and stores documents and
  word lists; \<^verbatim>\<open>searchd\<close> and the CGI programs evaluate queries against the word lists and print
  the pages of results. Under them is a library of strings, URLs, keyed stores and sorted arrays.
  This development models the parts whose outcome is a value: the library, the record files the
  indexer writes and the evaluation of a boolean query.

  The theories, in the order of their imports.

  \<^item> \<open>Dps_Prelude\<close>: the functions of the C library in use, as functions on character lists.
  A string is a list of characters without its NUL; \<open>char_at\<close> reads the NUL at its end.
  \<^item> \<open>Dps_Chars\<close>: case folding (\<^verbatim>\<open>charset-utils.c\<close>, \<^verbatim>\<open>unidata.c\<close>).
  \<^item> \<open>Dps_Wild\<close>: the four wild-card matchers of \<^verbatim>\<open>wild.c\<close>. Theorems: they decide the
  pattern language \<open>glob\<close> in spite of the early abort.
  \<^item> \<open>Dps_Str\<close>: trimming, tokens, squeezing and parameter expansion of \<^verbatim>\<open>utils.c\<close>.
  \<^item> \<open>Dps_Codec\<close>: escaping, base 64 and header words of \<^verbatim>\<open>utils.c\<close>: round trips and
  bounds on what is written.
  \<^item> \<open>Dps_Url\<close>, \<open>Dps_UrlPath\<close>, \<open>Dps_UrlParse\<close>: \<^verbatim>\<open>DpsURLNormalizePath\<close>,
  \<^verbatim>\<open>DpsURLParse\<close> and \<^verbatim>\<open>RelLink\<close> of \<^verbatim>\<open>url.c\<close>. Normalising is idempotent and never
  grows; on a path of non-empty segments it is the reference of \<open>Dps_UrlPath\<close>, which resolves
  parent references on a stack of segments. A parsed URL has the parts it was written from.
  \<^item> \<open>Dps_BoolOps\<close>, \<open>Dps_Boolean\<close>: the operators of \<^verbatim>\<open>boolean.c\<close> on lists of
  occurrences, and the machine with its two stacks. AND and NEAR share their pairing loop, whose
  lemmas are proved once in the locale \<open>doc_test\<close>; the machine is related to the meaning of
  bracketed expressions.
  \<^item> \<open>Dps_Store\<close>: the contract of a keyed store, as the locales \<open>record_store\<close> and
  \<open>deletable_store\<close>: the state stands for a map, writing updates it at the normal form of a key,
  reading looks it up.
  \<^item> \<open>Dps_Base\<close>, \<open>Dps_BaseMap\<close>: the record files of \<^verbatim>\<open>base.c\<close>, an index of hash
  chains and a storage file, as the explicit state \<open>base_file\<close>, with the mode a file is open in
  (\<open>base_handle\<close>) and the repair of broken chains; they interpret the contract.
  \<^item> \<open>Dps_Search\<close>: \<^verbatim>\<open>dps_bsearch\<close> of \<^verbatim>\<open>utils.c\<close> and the sorted insertion of
  \<^verbatim>\<open>vars.c\<close>, correct for every comparison that satisfies the locale \<open>key_order\<close>.
  \<^item> \<open>Dps_Vars\<close>: the variable lists of \<^verbatim>\<open>vars.c\<close>, which rest on \<open>Dps_Search\<close> and
  interpret the store contract; the normal form of a name is its lower case.
  \<^item> \<open>Dps_Dates\<close>, \<open>Dps_Calendar\<close>: the dates of \<^verbatim>\<open>utils.c\<close>. The closed formula for
  the seconds of a date agrees with the calendar, and printed dates are read back.
  \<^item> \<open>Dps_Href\<close>: the cache of links of \<^verbatim>\<open>hrefs.c\<close>, with its sorted and its unsorted part,
  as a map from URLs to links.
  \<^item> \<open>Dps_Match\<close>: the rules of filters, aliases and sections (\<^verbatim>\<open>match.c\<close>), tried, applied and
  searched in lists. A rule matches what its kind says, the first that does is found.
  \<^item> \<open>Dps_Sgml\<close>: the entities of \<^verbatim>\<open>sgml.c\<close>, replaced in place.
  \<^item> \<open>Dps_Robots\<close>: the rules of \<^verbatim>\<open>robots.c\<close>, from the text of a file to the rule for a
  URL. A file of groups is given its meaning by \<open>paths_for\<close>; the list of hosts is a map
  (\<open>key_order\<close> again).

  \<^item> \<open>Dps_Sort\<close>: the heap sort and the quick sort of \<^verbatim>\<open>searchtool.c\<close>, for any
  \<open>key_order\<close>. The heap sort sorts; the quick sort does when no two rows tie.
  \<^item> \<open>Dps_Rank\<close>: the order of the results by a pattern of keys, grouping by site and the
  removal of duplicates (\<^verbatim>\<open>searchtool.c\<close>, \<^verbatim>\<open>cache.c\<close>, \<^verbatim>\<open>db.c\<close>).
  Comparison and addition of floating-point values are a parameter.
  \<^item> \<open>Dps_Conv\<close>: UTF-8, UTF-16 and the loop \<^verbatim>\<open>DpsConv\<close> (\<^verbatim>\<open>uconv-utf8.c\<close>,
  \<^verbatim>\<open>uconv.c\<close>). The locale \<open>codec\<close> states that a decoder reads what an encoder writes,
  and \<open>conversion\<close> that a text then passes from one to another unchanged; \<open>bounded_conversion\<close>
  bounds the output.

  \<^item> \<open>Dps_Html\<close>: the scanner of tags, comments and text of \<^verbatim>\<open>parsehtml.c\<close>. It ends
  on every text and leaves nothing out.
  \<^item> \<open>Dps_DocText\<close>: documents and categories as text (\<^verbatim>\<open>doc.c\<close>,
  \<^verbatim>\<open>searchtool.c\<close>), written from the variable lists and read by the scanner into them: round
  trips.

  Conventions. A result \<^const>\<open>None\<close> is named where the definition stands: in most places it is
  a read outside an object, an error code the code returns, or a missing pointer. Integers are
  words of their width where the code relies on it and otherwise mathematical integers within the
  range that is stated. Loops are recursive functions with termination proofs, except where a
  definition takes the bound the code has. Nothing uses fuel. \<^verbatim>\<open>zlib\<close> is a parameter, a pair
  of functions with the hypothesis that inflating gives the deflated bytes back.

  Not modelled: allocation and its failures, file names, locks, sockets, processes and signals, the
  SQL back ends, statements and drivers, the generated character-set tables, regular expressions,
  the dictionaries of the language modules, page templates, and the floating-point computation of
  the relevance of results. They are input and output, data, or rest on libraries that are not part of the source.
\<close>

end
